(* ===== verification/Xv6_Prelude.thy ===== *)
theory Xv6_Prelude
  imports Main "HOL-Library.Word"
begin

unbundle bit_operations_syntax

section \<open>Prelude: outcomes, machine integers, bytes and list scans\<close>

text \<open>
  What every component shares:
  \<^item> the C integer types of \<^verbatim>\<open>types.h\<close> as words of their width;
  \<^item> the outcome type of kernel code: a value, a \<^verbatim>\<open>panic()\<close> with its message, a process that
    would call \<^verbatim>\<open>sleep(chan, lk)\<close>, a CPU that spins on a lock another CPU holds, a loop that
    never ends, or an access outside an object, whose effect C leaves undefined;
  \<^item> total-correctness judgements \<open>holds m Q\<close> (the code returns, and its result satisfies
    \<open>Q\<close>) with their rules in the collection \<open>outcome_simps\<close>;
  \<^item> \<open>first_index\<close>, the loop "scan an array, stop at the first element that satisfies a
    condition", which the process, file and inode tables use;
  \<^item> little-endian access to the bytes of a disk block.
\<close>

subsection \<open>Types\<close>

type_synonym uint = "32 word"
type_synonym ushort = "16 word"
type_synonym uchar = "8 word"

text \<open>
  The addresses the kernel passes to \<^verbatim>\<open>sleep\<close> and \<^verbatim>\<open>wakeup\<close>, one constructor per kind of
  address: a process slot (\<^verbatim>\<open>wait\<close>), \<^verbatim>\<open>&ticks\<close>, \<^verbatim>\<open>&log\<close>, a disk buffer, a sleep-lock,
  the two counters of a pipe, the console input buffer. Sleep-locks and spin-locks are named
  by the structure that contains them.
\<close>

datatype slid = BufSleeplock nat | InodeSleeplock nat

datatype chan = ChanProc nat | ChanTicks | ChanLog | ChanBuf nat | ChanSleeplock slid
  | ChanNread nat | ChanNwrite nat | ChanInput

datatype lockid = PtableLock | TicksLock | KmemLock | BcacheLock | IdeLock | LogLock
  | IcacheLock | FtableLock | ConsLock | PipeLock nat | SleeplockLk slid

subsection \<open>Outcomes\<close>

datatype 'a res = Ok 'a | Panic string | Sleep chan | Spin lockid | Diverge | Undef

primrec rbind :: "'a res \<Rightarrow> ('a \<Rightarrow> 'b res) \<Rightarrow> 'b res" where
  "rbind (Ok x) f = f x"
| "rbind (Panic m) f = Panic m"
| "rbind (Sleep c) f = Sleep c"
| "rbind (Spin l) f = Spin l"
| "rbind Diverge f = Diverge"
| "rbind Undef f = Undef"

text \<open>Total correctness of one piece of kernel code: it returns, and what it returns satisfies \<open>Q\<close>.\<close>

primrec holds :: "'a res \<Rightarrow> ('a \<Rightarrow> bool) \<Rightarrow> bool" where
  "holds (Ok x) Q = Q x"
| "holds (Panic m) Q = False"
| "holds (Sleep c) Q = False"
| "holds (Spin l) Q = False"
| "holds Diverge Q = False"
| "holds Undef Q = False"

primrec is_panic :: "'a res \<Rightarrow> bool" where
  "is_panic (Ok x) = False"
| "is_panic (Panic m) = True"
| "is_panic (Sleep c) = False"
| "is_panic (Spin l) = False"
| "is_panic Diverge = False"
| "is_panic Undef = False"

subsection \<open>Scanning an array\<close>

primrec first_index_from :: "nat \<Rightarrow> ('a \<Rightarrow> bool) \<Rightarrow> 'a list \<Rightarrow> nat option" where
  "first_index_from i P [] = None"
| "first_index_from i P (x # xs) = (if P x then Some i else first_index_from (Suc i) P xs)"

definition first_index :: "('a \<Rightarrow> bool) \<Rightarrow> 'a list \<Rightarrow> nat option" where
  "first_index P xs = first_index_from 0 P xs"

subsection \<open>Bytes of a block\<close>

text \<open>Replace the bytes of \<open>xs\<close> from offset \<open>off\<close> on by \<open>ys\<close>; the length stays that of \<open>xs\<close>.\<close>

definition splice_at :: "nat \<Rightarrow> 'a list \<Rightarrow> 'a list \<Rightarrow> 'a list" where
  "splice_at off ys xs = take (length xs) (take off xs @ ys @ drop (off + length ys) xs)"

definition slice_at :: "nat \<Rightarrow> nat \<Rightarrow> 'a list \<Rightarrow> 'a list" where
  "slice_at off n xs = take n (drop off xs)"

definition le16 :: "ushort \<Rightarrow> uchar list" where
  "le16 w = [ucast w, ucast (drop_bit 8 w)]"

definition le32 :: "uint \<Rightarrow> uchar list" where
  "le32 w = [ucast w, ucast (drop_bit 8 w), ucast (drop_bit 16 w), ucast (drop_bit 24 w)]"

definition of_le16 :: "uchar list \<Rightarrow> ushort" where
  "of_le16 bs = ucast (bs ! 0) OR push_bit 8 (ucast (bs ! 1))"

definition of_le32 :: "uchar list \<Rightarrow> uint" where
  "of_le32 bs = ucast (bs ! 0) OR push_bit 8 (ucast (bs ! 1)) OR push_bit 16 (ucast (bs ! 2))
     OR push_bit 24 (ucast (bs ! 3))"

definition get16 :: "uchar list \<Rightarrow> nat \<Rightarrow> ushort" where
  "get16 bs off = of_le16 (slice_at off 2 bs)"

definition get32 :: "uchar list \<Rightarrow> nat \<Rightarrow> uint" where
  "get32 bs off = of_le32 (slice_at off 4 bs)"

definition put32 :: "nat \<Rightarrow> uint \<Rightarrow> uchar list \<Rightarrow> uchar list" where
  "put32 off w bs = splice_at off (le32 w) bs"

definition put16 :: "nat \<Rightarrow> ushort \<Rightarrow> uchar list \<Rightarrow> uchar list" where
  "put16 off w bs = splice_at off (le16 w) bs"

subsection \<open>Rules for outcomes\<close>

named_theorems outcome_simps \<open>characterisations of binds that return\<close>

lemma rbind_Ok_iff [outcome_simps]:
  "rbind m f = Ok y \<longleftrightarrow> (\<exists>x. m = Ok x \<and> f x = Ok y)"
  by (cases m) auto

lemma rbind_assoc [simp]: "rbind (rbind m f) g = rbind m (\<lambda>x. rbind (f x) g)"
  by (cases m) auto

lemma rbind_Ok_right [simp]: "rbind m Ok = m"
  by (cases m) auto

lemma rbind_cong [fundef_cong]:
  "m = m' \<Longrightarrow> (\<And>x. m' = Ok x \<Longrightarrow> f x = f' x) \<Longrightarrow> rbind m f = rbind m' f'"
  by (cases m') auto

lemma holds_iff: "holds m Q \<longleftrightarrow> (\<exists>x. m = Ok x \<and> Q x)"
  by (cases m) auto

lemma holds_rbind: "holds m Q \<Longrightarrow> (\<And>x. Q x \<Longrightarrow> holds (f x) R) \<Longrightarrow> holds (rbind m f) R"
  by (cases m) auto

lemma holds_mono: "holds m Q \<Longrightarrow> (\<And>x. Q x \<Longrightarrow> R x) \<Longrightarrow> holds m R"
  by (cases m) auto

lemma holds_OkE: "holds m Q \<Longrightarrow> (\<And>x. m = Ok x \<Longrightarrow> Q x \<Longrightarrow> thesis) \<Longrightarrow> thesis"
  by (cases m) auto

lemma holds_OkD: "holds m Q \<Longrightarrow> m = Ok x \<Longrightarrow> Q x"
  by simp

subsection \<open>Rules for scans\<close>

lemma first_index_from_shift:
  "first_index_from i P xs = map_option (\<lambda>k. k + i) (first_index_from 0 P xs)"
proof (induction xs arbitrary: i)
  case Nil
  then show ?case by simp
next
  case (Cons x xs)
  show ?case
  proof (cases "P x")
    case False
    have "first_index_from (Suc i) P xs = map_option (\<lambda>k. k + Suc i) (first_index_from 0 P xs)"
      by (rule Cons.IH)
    moreover have "first_index_from (Suc 0) P xs = map_option (\<lambda>k. k + Suc 0) (first_index_from 0 P xs)"
      by (rule Cons.IH)
    ultimately show ?thesis
      using False by (simp add: option.map_comp comp_def)
  qed simp
qed

lemma first_index_Nil [simp]: "first_index P [] = None"
  by (simp add: first_index_def)

lemma first_index_Cons [simp]:
  "first_index P (x # xs) = (if P x then Some 0 else map_option Suc (first_index P xs))"
  using first_index_from_shift [of "Suc 0" P xs] by (simp add: first_index_def)

lemma first_index_None_iff: "first_index P xs = None \<longleftrightarrow> (\<forall>x\<in>set xs. \<not> P x)"
  by (induction xs) auto

lemma first_index_Some_iff:
  "first_index P xs = Some i \<longleftrightarrow> i < length xs \<and> P (xs ! i) \<and> (\<forall>j<i. \<not> P (xs ! j))"
proof (induction xs arbitrary: i)
  case Nil
  then show ?case by simp
next
  case (Cons x xs)
  show ?case
  proof (cases i)
    case 0
    then show ?thesis by auto
  next
    case (Suc k)
    have "(\<forall>j<Suc k. \<not> P ((x # xs) ! j)) \<longleftrightarrow> \<not> P x \<and> (\<forall>j<k. \<not> P (xs ! j))"
      by (auto simp: All_less_Suc2)
    with Suc Cons show ?thesis by auto
  qed
qed

lemma first_index_SomeD:
  assumes "first_index P xs = Some i"
  shows "i < length xs" and "P (xs ! i)" and "\<And>j. j < i \<Longrightarrow> \<not> P (xs ! j)"
  using assms by (auto simp: first_index_Some_iff)

lemma first_index_ex:
  assumes "i < length xs" and "P (xs ! i)"
  shows "\<exists>k. first_index P xs = Some k \<and> k \<le> i"
proof -
  from assms obtain k where k: "first_index P xs = Some k"
    by (cases "first_index P xs") (auto simp: first_index_None_iff)
  moreover have "k \<le> i"
    using first_index_SomeD(3) [OF k, of i] assms(2) by (meson not_le_imp_less)
  ultimately show ?thesis by blast
qed

lemma nth_upd: "j < length xs \<Longrightarrow> xs[i := y] ! j = (if j = i then y else xs ! j)"
  by (cases "i = j") auto

subsection \<open>Rules for bytes\<close>

lemma length_splice_at [simp]: "off + length ys \<le> length xs \<Longrightarrow> length (splice_at off ys xs) = length xs"
  by (simp add: splice_at_def)

lemma length_slice_at [simp]: "length (slice_at off n xs) = min n (length xs - off)"
  by (simp add: slice_at_def min.commute)

lemma splice_nth:
  assumes "i < length xs" and "off + length ys \<le> length xs"
  shows "splice_at off ys xs ! i =
    (if off \<le> i \<and> i < off + length ys then ys ! (i - off) else xs ! i)"
  using assms by (auto simp: splice_at_def nth_append min_def)

lemma slice_at_nth: "i < n \<Longrightarrow> off + i < length xs \<Longrightarrow> slice_at off n xs ! i = xs ! (off + i)"
  by (simp add: slice_at_def)

lemma slice_splice_same:
  assumes "off + length ys \<le> length xs"
  shows "slice_at off (length ys) (splice_at off ys xs) = ys"
  using assms by (auto intro!: nth_equalityI simp: slice_at_nth splice_nth)

lemma slice_splice_other:
  assumes "off + length ys \<le> length xs" and "off' + n \<le> off \<or> off + length ys \<le> off'"
  shows "slice_at off' n (splice_at off ys xs) = slice_at off' n xs"
  using assms by (auto intro!: nth_equalityI simp: slice_at_nth splice_nth)

lemma length_le16 [simp]: "length (le16 w) = 2"
  by (simp add: le16_def)

lemma length_le32 [simp]: "length (le32 w) = 4"
  by (simp add: le32_def)

lemma of_le16_le16 [simp]: "of_le16 (le16 w) = w"
proof (rule bit_word_eqI)
  fix n
  assume "n < LENGTH(16)"
  then show "bit (of_le16 (le16 w)) n \<longleftrightarrow> bit w n"
    by (cases "n < 8") (auto simp: of_le16_def le16_def bit_simps)
qed

lemma of_le32_le32 [simp]: "of_le32 (le32 w) = w"
proof (rule bit_word_eqI)
  fix n
  assume "n < LENGTH(32)"
  then show "bit (of_le32 (le32 w)) n \<longleftrightarrow> bit w n"
    by (cases "n < 8"; cases "n < 16"; cases "n < 24")
      (auto simp: of_le32_def le32_def bit_simps)
qed

lemma length_put32 [simp]: "off + 4 \<le> length bs \<Longrightarrow> length (put32 off w bs) = length bs"
  by (simp add: put32_def)

lemma length_put16 [simp]: "off + 2 \<le> length bs \<Longrightarrow> length (put16 off w bs) = length bs"
  by (simp add: put16_def)

lemma get32_put32 [simp]: "off + 4 \<le> length bs \<Longrightarrow> get32 (put32 off w bs) off = w"
  using slice_splice_same [of off "le32 w" bs] by (simp add: get32_def put32_def)

lemma get16_put16 [simp]: "off + 2 \<le> length bs \<Longrightarrow> get16 (put16 off w bs) off = w"
  using slice_splice_same [of off "le16 w" bs] by (simp add: get16_def put16_def)

lemma get32_put32_other:
  "off + 4 \<le> length bs \<Longrightarrow> off' + 4 \<le> off \<or> off + 4 \<le> off' \<Longrightarrow>
   get32 (put32 off w bs) off' = get32 bs off'"
  by (simp add: get32_def put32_def slice_splice_other)

text \<open>The value an \<^verbatim>\<open>int\<close> of 32 bits has after an assignment: where C leaves a signed overflow
  undefined, the processor wraps around.\<close>

definition int32 :: "int \<Rightarrow> int" where
  "int32 x = signed_take_bit 31 x"

lemma int32_id: "- 2147483648 \<le> x \<Longrightarrow> x < 2147483648 \<Longrightarrow> int32 x = x"
  unfolding int32_def by (rule signed_take_bit_int_eq_self) simp_all

text \<open>A sequence of calls.\<close>

primrec run_calls :: "('s \<Rightarrow> 's res) list \<Rightarrow> 's \<Rightarrow> 's res" where
  "run_calls [] s = Ok s"
| "run_calls (f # fs) s = rbind (f s) (run_calls fs)"

end
