(* ===== verification/Spinlock.thy ===== *)
theory Spinlock
  imports Xv6_Prelude
begin

section \<open>Spin-locks and interrupt nesting (spinlock.c, mycpu of proc.c)\<close>

text \<open>
  The machine a kernel thread runs on: the \<^verbatim>\<open>cpus[]\<close> array (its first \<^verbatim>\<open>ncpu\<close> entries), every
  spin-lock of the kernel, and the registers of the processors the code reads and writes: the
  local APIC id, the interrupt flag, the page directory in \<^verbatim>\<open>%cr3\<close> (\<open>None\<close> is \<^verbatim>\<open>kpgdir\<close>) and the
  kernel stack \<^verbatim>\<open>esp0\<close> of the task state segment. \<open>hw_me\<close> is the processor that executes.

  \<^verbatim>\<open>acquire\<close> and \<^verbatim>\<open>release\<close> appear in every component at the places where the code calls
  them. The lemmas \<open>acquire_acq\<close> and \<open>release_acq\<close> compute them, so that a critical section
  simplifies to its body; \<open>settle\<close> is what a matched pair leaves behind (\<^verbatim>\<open>intena\<close> holds the
  interrupt flag the outermost \<^verbatim>\<open>pushcli\<close> saw). The call stacks \<^verbatim>\<open>pcs[]\<close> recorded for debugging
  are not modelled.
\<close>

record cpu =
  apicid :: uchar
  started :: bool
  ncli :: int
  intena :: bool
  cproc :: "nat option"

record spinlock =
  locked :: uint
  lname :: string
  lcpu :: "nat option"

record machine =
  cpus :: "cpu list"
  locks :: "lockid \<Rightarrow> spinlock"
  hw_me :: nat
  hw_apic :: "nat \<Rightarrow> uchar"
  hw_if :: "nat \<Rightarrow> bool"
  hw_cr3 :: "nat \<Rightarrow> nat option"
  hw_esp0 :: "nat \<Rightarrow> nat"

subsection \<open>The processor\<close>

definition lapicid :: "machine \<Rightarrow> uchar" where
  "lapicid m = hw_apic m (hw_me m)"

definition read_if :: "machine \<Rightarrow> bool" where
  "read_if m = hw_if m (hw_me m)"

definition cli :: "machine \<Rightarrow> machine" where
  "cli m = m\<lparr>hw_if := (hw_if m)(hw_me m := False)\<rparr>"

definition sti :: "machine \<Rightarrow> machine" where
  "sti m = m\<lparr>hw_if := (hw_if m)(hw_me m := True)\<rparr>"

definition mycpu :: "machine \<Rightarrow> nat res" where
  "mycpu m =
     (if read_if m then Panic (''mycpu called with interrupts enabled'' @ [CHR 0x0A])
      else case first_index (\<lambda>c. apicid c = lapicid m) (cpus m) of
             Some i \<Rightarrow> Ok i
           | None \<Rightarrow> Panic (''unknown apicid'' @ [CHR 0x0A]))"

definition pushcli :: "machine \<Rightarrow> machine res" where
  "pushcli m =
     (let eflags = read_if m; m = cli m in
      rbind (mycpu m) (\<lambda>i.
      let c = cpus m ! i;
          c = (if ncli c = 0 then c\<lparr>intena := eflags\<rparr> else c)
      in Ok (m\<lparr>cpus := (cpus m)[i := c\<lparr>ncli := ncli c + 1\<rparr>]\<rparr>)))"

definition popcli :: "machine \<Rightarrow> machine res" where
  "popcli m =
     (if read_if m then Panic ''popcli - interruptible''
      else rbind (mycpu m) (\<lambda>i.
      let c = (cpus m ! i)\<lparr>ncli := ncli (cpus m ! i) - 1\<rparr>;
          m = m\<lparr>cpus := (cpus m)[i := c]\<rparr>
      in if ncli c < 0 then Panic ''popcli''
         else if ncli c = 0 \<and> intena c then Ok (sti m)
         else Ok m))"

subsection \<open>Locks\<close>

definition initlock :: "lockid \<Rightarrow> string \<Rightarrow> machine \<Rightarrow> machine" where
  "initlock L nm m = m\<lparr>locks := (locks m)(L := \<lparr>locked = 0, lname = nm, lcpu = None\<rparr>)\<rparr>"

definition holding :: "lockid \<Rightarrow> machine \<Rightarrow> (bool \<times> machine) res" where
  "holding L m =
     rbind (pushcli m) (\<lambda>m.
     rbind (mycpu m) (\<lambda>i.
     let r = (locked (locks m L) \<noteq> 0 \<and> lcpu (locks m L) = Some i) in
     rbind (popcli m) (\<lambda>m.
     Ok (r, m))))"

definition acquire :: "lockid \<Rightarrow> machine \<Rightarrow> machine res" where
  "acquire L m =
     rbind (pushcli m) (\<lambda>m.
     rbind (holding L m) (\<lambda>(h, m).
     if h then Panic ''acquire''
     else if locked (locks m L) \<noteq> 0 then Spin L
     else rbind (mycpu m) (\<lambda>i.
     Ok (m\<lparr>locks := (locks m)(L := (locks m L)\<lparr>locked := 1, lcpu := Some i\<rparr>)\<rparr>))))"

definition release :: "lockid \<Rightarrow> machine \<Rightarrow> machine res" where
  "release L m =
     rbind (holding L m) (\<lambda>(h, m).
     if \<not> h then Panic ''release''
     else popcli (m\<lparr>locks := (locks m)(L := (locks m L)\<lparr>locked := 0, lcpu := None\<rparr>)\<rparr>))"

text \<open>\<^verbatim>\<open>cpuid()\<close>: the index of \<^verbatim>\<open>mycpu()\<close> in \<^verbatim>\<open>cpus\<close>.\<close>

definition cpuid :: "machine \<Rightarrow> nat res" where
  "cpuid m = mycpu m"

subsection \<open>What the code relies on\<close>

text \<open>
  \<open>mach_ok m\<close>: the executing processor is in \<^verbatim>\<open>cpus\<close>, its nesting depth is not negative, and
  interrupts are off inside a \<^verbatim>\<open>pushcli\<close>. \<open>lock_free L m\<close>: nobody holds \<open>L\<close>.
\<close>

definition me :: "machine \<Rightarrow> nat" where
  "me m = (case first_index (\<lambda>c. apicid c = lapicid m) (cpus m) of Some i \<Rightarrow> i | None \<Rightarrow> 0)"

definition depth :: "machine \<Rightarrow> int" where
  "depth m = ncli (cpus m ! me m)"

definition mach_ok :: "machine \<Rightarrow> bool" where
  "mach_ok m \<longleftrightarrow> first_index (\<lambda>c. apicid c = lapicid m) (cpus m) \<noteq> None \<and>
     0 \<le> depth m \<and> (read_if m \<longrightarrow> depth m = 0)"

definition lock_free :: "lockid \<Rightarrow> machine \<Rightarrow> bool" where
  "lock_free L m \<longleftrightarrow> locked (locks m L) = 0 \<and> lcpu (locks m L) = None"

definition quiet :: "machine \<Rightarrow> bool" where
  "quiet m \<longleftrightarrow> mach_ok m \<and> (\<forall>L. lock_free L m)"

text \<open>The machine inside one more \<^verbatim>\<open>pushcli\<close>, and inside the critical section of \<open>L\<close>.\<close>

definition push :: "machine \<Rightarrow> machine" where
  "push m = (let c = cpus m ! me m in
     (cli m)\<lparr>cpus := (cpus m)[me m :=
        c\<lparr>intena := (if ncli c = 0 then read_if m else intena c), ncli := ncli c + 1\<rparr>]\<rparr>)"

definition acq :: "lockid \<Rightarrow> machine \<Rightarrow> machine" where
  "acq L m = (push m)\<lparr>locks := (locks m)(L := (locks m L)\<lparr>locked := 1, lcpu := Some (me m)\<rparr>)\<rparr>"

definition settle :: "machine \<Rightarrow> machine" where
  "settle m = (if depth m = 0 then m\<lparr>cpus := (cpus m)[me m := (cpus m ! me m)\<lparr>intena := read_if m\<rparr>]\<rparr> else m)"

subsection \<open>Computing critical sections\<close>

lemma first_index_update_same:
  assumes "P (xs ! i) = P y"
  shows "first_index P (xs[i := y]) = first_index P xs"
  using assms
proof (induction xs arbitrary: i)
  case (Cons x xs)
  then show ?case by (cases i) auto
qed simp

lemma me_less: "mach_ok m \<Longrightarrow> me m < length (cpus m)"
  by (auto simp: mach_ok_def me_def dest: first_index_SomeD(1) split: option.splits)

lemma mycpu_me: "mach_ok m \<Longrightarrow> \<not> read_if m \<Longrightarrow> mycpu m = Ok (me m)"
  by (auto simp: mach_ok_def me_def mycpu_def split: option.splits)

text \<open>Changing anything but the APIC id of one entry does not change who the processor is.\<close>

lemma cpu_scan_update:
  "apicid c = apicid (cs ! i) \<Longrightarrow>
   first_index (\<lambda>c. apicid c = a) (cs[i := c]) = first_index (\<lambda>c. apicid c = a) cs"
  by (rule first_index_update_same) simp

lemma push_fields [simp]:
  "hw_me (push m) = hw_me m" "hw_apic (push m) = hw_apic m" "locks (push m) = locks m"
  "read_if (push m) = False"
  by (simp_all add: push_def cli_def read_if_def Let_def)

lemma cpu_scan_push [simp]:
  "first_index (\<lambda>c. apicid c = lapicid (push m)) (cpus (push m)) = first_index (\<lambda>c. apicid c = lapicid m) (cpus m)"
  by (simp add: push_def cli_def Let_def lapicid_def cpu_scan_update)

lemma me_push [simp]: "me (push m) = me m"
  by (simp add: me_def)

lemma depth_push: "mach_ok m \<Longrightarrow> depth (push m) = depth m + 1"
  using me_less [of m] me_push [of m] by (simp add: depth_def) (simp add: push_def Let_def cli_def)

lemma mach_ok_push: "mach_ok m \<Longrightarrow> mach_ok (push m)"
  using depth_push [of m] by (simp add: mach_ok_def)

lemma mach_ok_cli: "mach_ok m \<Longrightarrow> mach_ok (cli m)" and me_cli [simp]: "me (cli m) = me m"
  and read_if_cli [simp]: "\<not> read_if (cli m)"
  by (auto simp: mach_ok_def me_def depth_def cli_def read_if_def lapicid_def)

lemma pushcli_push: "mach_ok m \<Longrightarrow> pushcli m = Ok (push m)"
  using mycpu_me [OF mach_ok_cli, of m]
  by (simp add: pushcli_def push_def Let_def) (simp add: cli_def)

lemma ncli_restore: "ncli c = 0 \<Longrightarrow> c\<lparr>intena := b, ncli := 0\<rparr> = c\<lparr>intena := b\<rparr>"
  by (cases c) simp

text \<open>Leaving the section \<^verbatim>\<open>push m\<close>, whatever happened to the locks inside it.\<close>

lemma popcli_push:
  assumes ok: "mach_ok m"
  shows "popcli ((push m)\<lparr>locks := ls\<rparr>) = Ok ((settle m)\<lparr>locks := ls\<rparr>)"
proof -
  let ?m = "(push m)\<lparr>locks := ls\<rparr>"
  let ?i = "me m" and ?c = "cpus m ! me m"
  have off: "\<not> read_if ?m"
    by (simp add: push_def read_if_def cli_def Let_def)
  have "mycpu ?m = mycpu (push m)"
    by (simp add: mycpu_def read_if_def lapicid_def)
  then have cpu: "mycpu ?m = Ok ?i"
    using mycpu_me [OF mach_ok_push [OF ok]] by simp
  have lt: "?i < length (cpus m)" using ok by (rule me_less)
  have d: "depth m = ncli ?c" "0 \<le> ncli ?c" "read_if m \<longrightarrow> ncli ?c = 0"
    using ok by (auto simp: mach_ok_def depth_def)
  have "cpus ?m ! ?i = ?c\<lparr>intena := (if ncli ?c = 0 then read_if m else intena ?c), ncli := ncli ?c + 1\<rparr>"
    using lt by (simp add: push_def Let_def cli_def)
  moreover have "cpus ?m = (cpus m)[?i := cpus ?m ! ?i]"
    using lt by (simp add: push_def Let_def cli_def)
  moreover have "(push m)\<lparr>locks := ls, cpus := xs\<rparr> = (cli m)\<lparr>locks := ls, cpus := xs\<rparr>" for xs
    by (simp add: push_def Let_def)
  moreover have "hw_if m = (hw_if m)(hw_me m := False)" if "\<not> read_if m"
    using that by (auto simp: read_if_def fun_eq_iff)
  moreover have "hw_if m = (hw_if m)(hw_me m := True)" if "read_if m"
    using that by (auto simp: read_if_def fun_eq_iff)
  ultimately show ?thesis
    using off cpu lt d
    by (cases "read_if m") (auto simp: popcli_def Let_def settle_def cli_def sti_def ncli_restore)
qed

lemma popcli_push': "mach_ok m \<Longrightarrow> popcli (push m) = Ok (settle m)"
proof -
  assume ok: "mach_ok m"
  have "(push m)\<lparr>locks := locks m\<rparr> = push m" "(settle m)\<lparr>locks := locks m\<rparr> = settle m"
    by (simp_all add: push_def settle_def cli_def Let_def)
  with popcli_push [OF ok, of "locks m"] show ?thesis by simp
qed

lemma holding_eq:
  assumes ok: "mach_ok m"
  shows "holding L m = Ok (locked (locks m L) \<noteq> 0 \<and> lcpu (locks m L) = Some (me m), settle m)"
  using pushcli_push [OF ok] mycpu_me [OF mach_ok_push [OF ok]] popcli_push' [OF ok]
  by (simp add: holding_def Let_def)

lemma depth_pos_settle: "depth m \<noteq> 0 \<Longrightarrow> settle m = m"
  by (simp add: settle_def)

lemma settle_fields [simp]:
  "hw_me (settle m) = hw_me m" "hw_apic (settle m) = hw_apic m" "hw_if (settle m) = hw_if m"
  "locks (settle m) = locks m" "length (cpus (settle m)) = length (cpus m)" "read_if (settle m) = read_if m"
  by (simp_all add: settle_def read_if_def)

lemma cpu_scan_settle [simp]:
  "first_index (\<lambda>c. apicid c = lapicid (settle m)) (cpus (settle m)) = first_index (\<lambda>c. apicid c = lapicid m) (cpus m)"
  by (simp add: settle_def lapicid_def cpu_scan_update)

lemma me_settle [simp]: "me (settle m) = me m"
  by (simp add: me_def)

lemma depth_settle [simp]: "depth (settle m) = depth m"
proof (cases "me m < length (cpus m)")
  case True
  then show ?thesis
    by (simp add: depth_def [of "settle m"]) (simp add: settle_def depth_def)
next
  case False
  then have "settle m = m" by (simp add: settle_def not_less list_update_beyond)
  then show ?thesis by simp
qed

lemma mach_ok_settle [simp]: "mach_ok (settle m) = mach_ok m"
  by (simp add: mach_ok_def)

lemma settle_settle [simp]: "settle (settle m) = settle m"
proof (cases "me m < length (cpus m)")
  case True
  then show ?thesis
    by (simp add: settle_def [of "settle m"]) (simp add: settle_def)
next
  case False
  then have "settle m = m" by (simp add: settle_def not_less list_update_beyond)
  then show ?thesis by simp
qed

lemma lock_free_settle [simp]: "lock_free L (settle m) = lock_free L m"
  by (simp add: lock_free_def)

lemma quiet_settle [simp]: "quiet (settle m) = quiet m"
  by (simp add: quiet_def)

subsection \<open>acquire and release\<close>

lemma acq_fields [simp]:
  "hw_me (acq L m) = hw_me m" "hw_apic (acq L m) = hw_apic m" "read_if (acq L m) = False"
  "locks (acq L m) = (locks m)(L := (locks m L)\<lparr>locked := 1, lcpu := Some (me m)\<rparr>)"
  "cpus (acq L m) = cpus (push m)"
  by (simp_all add: acq_def read_if_def) (simp add: push_def cli_def Let_def)

lemma me_acq [simp]: "me (acq L m) = me m"
  using me_push [of m] by (simp add: me_def lapicid_def)

lemma depth_acq: "mach_ok m \<Longrightarrow> depth (acq L m) = depth m + 1"
  using depth_push [of m] by (simp add: depth_def)

lemma mach_ok_acq: "mach_ok m \<Longrightarrow> mach_ok (acq L m)"
  using mach_ok_push [of m] depth_acq [of m L] depth_push [of m]
  by (simp add: mach_ok_def lapicid_def)

lemma settle_acq: "mach_ok m \<Longrightarrow> settle (acq L m) = acq L m"
  by (rule depth_pos_settle) (simp add: depth_acq mach_ok_def)

lemma lock_free_acq: "L \<noteq> L' \<Longrightarrow> lock_free L' (acq L m) = lock_free L' m"
  by (simp add: lock_free_def)

lemma acquire_acq:
  assumes ok: "mach_ok m" and free: "lock_free L m"
  shows "acquire L m = Ok (acq L m)"
proof -
  have okp: "mach_ok (push m)" using ok by (rule mach_ok_push)
  have d: "depth (push m) \<noteq> 0" using depth_push [OF ok] ok by (simp add: mach_ok_def)
  have "holding L (push m) = Ok (False, push m)"
    using holding_eq [OF okp, of L] d free by (simp add: depth_pos_settle lock_free_def)
  then show ?thesis
    using free by (simp add: acquire_def pushcli_push [OF ok] mycpu_me [OF okp] lock_free_def acq_def)
qed

lemma release_acq:
  assumes ok: "mach_ok m" and free: "lock_free L m"
  shows "release L (acq L m) = Ok (settle m)"
proof -
  have oka: "mach_ok (acq L m)" using ok by (rule mach_ok_acq)
  have d: "depth (acq L m) \<noteq> 0" using depth_acq [OF ok] ok by (simp add: mach_ok_def)
  have h: "holding L (acq L m) = Ok (True, acq L m)"
    using holding_eq [OF oka, of L] d by (simp add: depth_pos_settle)
  have l: "(locks m)(L := (locks m L)\<lparr>locked := 0, lcpu := None\<rparr>) = locks m"
    using free by (auto simp: lock_free_def)
  have "popcli ((acq L m)\<lparr>locks := locks m\<rparr>) = Ok ((settle m)\<lparr>locks := locks m\<rparr>)"
    using popcli_push [OF ok, of "locks m"] by (simp add: acq_def)
  moreover have "(settle m)\<lparr>locks := locks m\<rparr> = settle m"
    by (simp add: settle_def)
  ultimately show ?thesis
    using l by (simp add: release_def h)
qed

lemmas lock_simps = acquire_acq release_acq settle_acq mach_ok_acq lock_free_acq

lemma acquire_held:
  assumes "mach_ok m" and "locked (locks m L) \<noteq> 0" and "lcpu (locks m L) = Some (me m)"
  shows "acquire L m = Panic ''acquire''"
  using assms holding_eq [OF mach_ok_push, of m L]
  by (simp add: acquire_def pushcli_push)

lemma acquire_other:
  assumes "mach_ok m" and "locked (locks m L) \<noteq> 0" and "lcpu (locks m L) \<noteq> Some (me m)"
  shows "acquire L m = Spin L"
  using assms holding_eq [OF mach_ok_push, of m L]
  by (simp add: acquire_def pushcli_push)

lemma release_not_held:
  assumes "mach_ok m" and "locked (locks m L) = 0 \<or> lcpu (locks m L) \<noteq> Some (me m)"
  shows "release L m = Panic ''release''"
  using assms holding_eq [of m L] by (auto simp: release_def)

lemma release_held:
  assumes ok: "mach_ok m" and d: "0 < depth m"
    and h: "locked (locks m L) \<noteq> 0" "lcpu (locks m L) = Some (me m)"
  shows "release L m =
    Ok (let c = cpus m ! me m;
            m' = m\<lparr>locks := (locks m)(L := (locks m L)\<lparr>locked := 0, lcpu := None\<rparr>),
                    cpus := (cpus m)[me m := c\<lparr>ncli := ncli c - 1\<rparr>]\<rparr>
        in if ncli c = 1 \<and> intena c then sti m' else m')"
proof -
  let ?m = "m\<lparr>locks := (locks m)(L := (locks m L)\<lparr>locked := 0, lcpu := None\<rparr>)\<rparr>"
  have off: "\<not> read_if m" using ok d by (auto simp: mach_ok_def)
  have "holding L m = Ok (True, m)"
    using holding_eq [OF ok, of L] h d by (simp add: depth_pos_settle)
  moreover have "mycpu ?m = Ok (me m)"
    using mycpu_me [OF ok off] off by (simp add: mycpu_def read_if_def lapicid_def)
  moreover have "\<not> read_if ?m" using off by (simp add: read_if_def)
  ultimately show ?thesis
    using me_less [OF ok] d
    by (auto simp: release_def popcli_def Let_def depth_def)
qed

section \<open>Several processors\<close>

text \<open>
  The processors take turns; each step is one call of \<^verbatim>\<open>acquire\<close> or \<^verbatim>\<open>release\<close> that returns, or
  a processor outside every critical section that turns its interrupts on or off. (A processor
  that spins in \<^verbatim>\<open>acquire\<close> has only its own nesting depth changed; its step is the exchange
  instruction that finally succeeds.) The second component records for every processor which
  locks it has acquired and not yet released.
\<close>

type_synonym holders = "nat \<Rightarrow> lockid set"

definition on_cpu :: "nat \<Rightarrow> machine \<Rightarrow> machine" where
  "on_cpu i m = m\<lparr>hw_me := i\<rparr>"

inductive lock_step :: "machine \<times> holders \<Rightarrow> machine \<times> holders \<Rightarrow> bool" where
  step_acquire: "i < length (cpus m) \<Longrightarrow> acquire L (on_cpu i m) = Ok m' \<Longrightarrow>
     lock_step (m, h) (m', h(i := insert L (h i)))"
| step_release: "i < length (cpus m) \<Longrightarrow> release L (on_cpu i m) = Ok m' \<Longrightarrow>
     lock_step (m, h) (m', h(i := h i - {L}))"
| step_sti: "i < length (cpus m) \<Longrightarrow> ncli (cpus m ! i) = 0 \<Longrightarrow> lock_step (m, h) (sti (on_cpu i m), h)"
| step_cli: "i < length (cpus m) \<Longrightarrow> lock_step (m, h) (cli (on_cpu i m), h)"

inductive lock_reach :: "machine \<Rightarrow> machine \<times> holders \<Rightarrow> bool" for m0 where
  reach_init: "lock_reach m0 (m0, \<lambda>_. {})"
| reach_step: "lock_reach m0 s \<Longrightarrow> lock_step s s' \<Longrightarrow> lock_reach m0 s'"

text \<open>The state after \<^verbatim>\<open>mpinit\<close>: processors with distinct APIC ids, no lock held.\<close>

definition cpus_ok :: "machine \<Rightarrow> bool" where
  "cpus_ok m \<longleftrightarrow> distinct (map apicid (cpus m)) \<and>
     (\<forall>i<length (cpus m). hw_apic m i = apicid (cpus m ! i))"

definition booted :: "machine \<Rightarrow> bool" where
  "booted m \<longleftrightarrow> cpus_ok m \<and> (\<forall>i<length (cpus m). ncli (cpus m ! i) = 0) \<and> (\<forall>L. lock_free L m)"

definition lock_inv :: "machine \<times> holders \<Rightarrow> bool" where
  "lock_inv s \<longleftrightarrow> (case s of (m, h) \<Rightarrow> cpus_ok m \<and>
     (\<forall>i. h i \<noteq> {} \<longrightarrow> i < length (cpus m)) \<and>
     (\<forall>i<length (cpus m). finite (h i) \<and> ncli (cpus m ! i) = int (card (h i)) \<and>
        (hw_if m i \<longrightarrow> h i = {})) \<and>
     (\<forall>L. lock_free L m \<or> locked (locks m L) \<noteq> 0) \<and>
     (\<forall>L i. L \<in> h i \<longleftrightarrow> locked (locks m L) \<noteq> 0 \<and> lcpu (locks m L) = Some i) \<and>
     (\<forall>L. locked (locks m L) \<noteq> 0 \<longrightarrow> (\<exists>i. lcpu (locks m L) = Some i)))"

lemma lock_invD:
  assumes "lock_inv (m, h)"
  shows "cpus_ok m"
    and "L \<in> h i \<Longrightarrow> i < length (cpus m)"
    and "i < length (cpus m) \<Longrightarrow> finite (h i)"
    and "i < length (cpus m) \<Longrightarrow> ncli (cpus m ! i) = int (card (h i))"
    and "i < length (cpus m) \<Longrightarrow> hw_if m i \<Longrightarrow> h i = {}"
    and "L \<in> h i \<longleftrightarrow> locked (locks m L) \<noteq> 0 \<and> lcpu (locks m L) = Some i"
  using assms unfolding lock_inv_def prod.case by blast+

lemma on_cpu_fields [simp]:
  "cpus (on_cpu i m) = cpus m" "locks (on_cpu i m) = locks m" "hw_apic (on_cpu i m) = hw_apic m"
  "hw_if (on_cpu i m) = hw_if m" "hw_me (on_cpu i m) = i" "read_if (on_cpu i m) = hw_if m i"
  "lapicid (on_cpu i m) = hw_apic m i" "lock_free L (on_cpu i m) = lock_free L m"
  by (simp_all add: on_cpu_def read_if_def lapicid_def lock_free_def)

lemma first_index_distinct:
  assumes "distinct (map f xs)" and "i < length xs"
  shows "first_index (\<lambda>x. f x = f (xs ! i)) xs = Some i"
proof -
  have "f (xs ! j) \<noteq> f (xs ! i)" if "j < i" for j
    using assms that nth_eq_iff_index_eq [of "map f xs" j i] by simp
  then show ?thesis using assms(2) by (auto simp: first_index_Some_iff)
qed

lemma me_on_cpu: "cpus_ok m \<Longrightarrow> i < length (cpus m) \<Longrightarrow> me (on_cpu i m) = i"
  by (simp add: me_def cpus_ok_def first_index_distinct)

lemma lock_inv_mach_ok:
  assumes "lock_inv (m, h)" and "i < length (cpus m)"
  shows "mach_ok (on_cpu i m)" and "me (on_cpu i m) = i" and "depth (on_cpu i m) = int (card (h i))"
proof -
  have c: "cpus_ok m" using assms by (simp add: lock_inv_def)
  then show me: "me (on_cpu i m) = i" using assms(2) by (rule me_on_cpu)
  show d: "depth (on_cpu i m) = int (card (h i))"
    using assms me by (simp add: depth_def lock_inv_def)
  show "mach_ok (on_cpu i m)"
    using c d assms by (simp add: mach_ok_def cpus_ok_def lock_inv_def first_index_distinct)
qed

text \<open>What \<^verbatim>\<open>acquire\<close> does on a processor, by who holds the lock.\<close>

lemma acquire_cases:
  assumes inv: "lock_inv (m, h)" and i: "i < length (cpus m)"
  shows "acquire L (on_cpu i m) =
    (if L \<in> h i then Panic ''acquire''
     else if \<exists>j. L \<in> h j then Spin L
     else Ok (acq L (on_cpu i m)))"
proof -
  note ok = lock_inv_mach_ok [OF inv i]
  have hold: "L \<in> h j \<longleftrightarrow> locked (locks m L) \<noteq> 0 \<and> lcpu (locks m L) = Some j" for j
    using inv by (simp add: lock_inv_def)
  have alt: "lock_free L m \<or> locked (locks m L) \<noteq> 0" "locked (locks m L) \<noteq> 0 \<Longrightarrow> \<exists>j. L \<in> h j"
    using inv by (auto simp: lock_inv_def)
  show ?thesis
  proof (cases "\<exists>j. L \<in> h j")
    case True
    then show ?thesis
      using ok hold acquire_held [OF ok(1), of L] acquire_other [OF ok(1), of L] by auto
  next
    case False
    then show ?thesis using alt acquire_acq [OF ok(1), of L] by auto
  qed
qed

lemma cpus_ok_upd:
  assumes "cpus_ok m" and "cpus m' = (cpus m)[i := c]" and "apicid c = apicid (cpus m ! i)"
    and "hw_apic m' = hw_apic m"
  shows "cpus_ok m'"
proof -
  have same: "apicid (cpus m' ! j) = apicid (cpus m ! j)" if "j < length (cpus m)" for j
    using assms that by (cases "j = i") simp_all
  have "map apicid (cpus m') = map apicid (cpus m)"
    by (rule nth_equalityI) (use assms same in auto)
  then show ?thesis
    using assms same by (simp add: cpus_ok_def)
qed

lemma lock_inv_step:
  assumes inv: "lock_inv (m, h)" and i: "i < length (cpus m)"
    and m': "cpus m' = (cpus m)[i := c]" "apicid c = apicid (cpus m ! i)" "hw_apic m' = hw_apic m"
      "\<And>j. j \<noteq> i \<Longrightarrow> hw_if m' j = hw_if m j" "locks m' = (locks m)(L := l)"
    and h': "finite H" "ncli c = int (card H)" "hw_if m' i \<longrightarrow> H = {}" "H - {L} = h i - {L}"
    and l: "\<And>j. j \<noteq> i \<Longrightarrow> L \<notin> h j"
      "if L \<in> H then locked l \<noteq> 0 \<and> lcpu l = Some i else locked l = 0 \<and> lcpu l = None"
  shows "lock_inv (m', h(i := H))"
proof -
  have "cpus_ok m'" using inv m'(1,2,3) by (auto intro: cpus_ok_upd simp: lock_inv_def)
  moreover have "\<forall>j. (h(i := H)) j \<noteq> {} \<longrightarrow> j < length (cpus m')"
    using inv i m'(1) by (auto simp: lock_inv_def)
  moreover have "\<forall>j<length (cpus m'). finite ((h(i := H)) j) \<and> ncli (cpus m' ! j) = int (card ((h(i := H)) j)) \<and>
      (hw_if m' j \<longrightarrow> (h(i := H)) j = {})"
    using inv i m'(1,4) h'(1,2,3) by (auto simp: lock_inv_def nth_list_update)
  moreover have "\<forall>K. lock_free K m' \<or> locked (locks m' K) \<noteq> 0"
    using inv m'(5) l(2) by (auto simp: lock_inv_def lock_free_def split: if_splits)
  moreover have "\<forall>K. locked (locks m' K) \<noteq> 0 \<longrightarrow> (\<exists>j. lcpu (locks m' K) = Some j)"
    using inv m'(5) l(2) by (auto simp: lock_inv_def split: if_splits)
  moreover have "K \<in> (h(i := H)) j \<longleftrightarrow> locked (locks m' K) \<noteq> 0 \<and> lcpu (locks m' K) = Some j" for K j
  proof (cases "K = L")
    case True
    then show ?thesis using m'(5) l by (auto split: if_splits)
  next
    case False
    then have "K \<in> (h(i := H)) j \<longleftrightarrow> K \<in> h j" using h'(4) by auto
    then show ?thesis using False inv m'(5) by (simp add: lock_inv_def)
  qed
  ultimately show ?thesis by (simp add: lock_inv_def)
qed

lemma cpus_push: "cpus (push m) = (cpus m)[me m := (cpus m ! me m)
    \<lparr>intena := (if depth m = 0 then read_if m else intena (cpus m ! me m)), ncli := depth m + 1\<rparr>]"
  and hw_if_push: "hw_if (push m) = (hw_if m)(hw_me m := False)"
  by (simp_all add: push_def Let_def cli_def depth_def)

lemma hw_if_acq: "hw_if (acq L m) = (hw_if m)(hw_me m := False)"
  by (simp add: acq_def hw_if_push)

lemma lock_inv_acquire:
  assumes inv: "lock_inv (m, h)" and i: "i < length (cpus m)" and a: "acquire L (on_cpu i m) = Ok m'"
  shows "lock_inv (m', h(i := insert L (h i)))"
proof -
  note ok = lock_inv_mach_ok [OF inv i]
  from a have free: "\<And>j. L \<notin> h j" and m': "m' = acq L (on_cpu i m)"
    by (auto simp: acquire_cases [OF inv i] split: if_splits)
  have fin: "finite (h i)" using inv i by (simp add: lock_inv_def)
  let ?c = "(cpus m ! i)\<lparr>intena := (if h i = {} then hw_if m i else intena (cpus m ! i)),
      ncli := int (card (h i)) + 1\<rparr>"
  show ?thesis
    by (rule lock_inv_step [OF inv i, where L = L and c = ?c])
      (use free fin ok in \<open>auto simp: m' cpus_push hw_if_acq\<close>)
qed

lemma lock_inv_release:
  assumes inv: "lock_inv (m, h)" and i: "i < length (cpus m)" and r: "release L (on_cpu i m) = Ok m'"
  shows "lock_inv (m', h(i := h i - {L}))"
proof -
  note ok = lock_inv_mach_ok [OF inv i]
  have hold: "L \<in> h j \<longleftrightarrow> locked (locks m L) \<noteq> 0 \<and> lcpu (locks m L) = Some j" for j
    using inv by (simp add: lock_inv_def)
  have L: "L \<in> h i"
    using r release_not_held [OF ok(1), of L] ok(2) by (auto simp: hold)
  have fin: "finite (h i)" using inv i by (simp add: lock_inv_def)
  have pos: "0 < card (h i)" using L fin by (auto simp: card_gt_0_iff)
  let ?c = "cpus m ! i"
  have nc: "ncli ?c = int (card (h i))" and off: "\<not> hw_if m i"
    using lock_invD(4,5) [OF inv i] L by auto
  have m': "m' = (let m' = (on_cpu i m)\<lparr>locks := (locks m)(L := (locks m L)\<lparr>locked := 0, lcpu := None\<rparr>),
                    cpus := (cpus m)[i := ?c\<lparr>ncli := ncli ?c - 1\<rparr>]\<rparr>
        in if ncli ?c = 1 \<and> intena ?c then sti m' else m')"
    using r release_held [OF ok(1), of L] ok L pos by (simp add: hold Let_def)
  have others: "L \<notin> h j" if "j \<noteq> i" for j using that L by (simp add: hold)
  have one: "h i = {L}" if "card (h i) = 1" using that L by (auto simp: card_1_singleton_iff)
  show ?thesis
    by (rule lock_inv_step [OF inv i, where L = L and c = "?c\<lparr>ncli := ncli ?c - 1\<rparr>"
          and l = "(locks m L)\<lparr>locked := 0, lcpu := None\<rparr>"])
      (use others fin L nc off pos one in \<open>auto simp: m' Let_def sti_def of_nat_diff\<close>)
qed

lemma lock_inv_reach:
  assumes "lock_reach m0 s" and "booted m0"
  shows "lock_inv s"
  using assms
proof induction
  case reach_init
  then show ?case by (auto simp: lock_inv_def booted_def lock_free_def)
next
  case (reach_step s s')
  have inv: "lock_inv s" using reach_step by blast
  from reach_step.hyps(2) inv show ?case
  proof cases
    case (step_acquire i m L m' h)
    then show ?thesis using inv lock_inv_acquire by simp
  next
    case (step_release i m L m' h)
    then show ?thesis using inv lock_inv_release by simp
  next
    case (step_sti i m h)
    then have "h i = {}" using lock_invD(3,4) [of m h i] inv by simp
    with step_sti inv show ?thesis
      by (simp add: lock_inv_def sti_def cpus_ok_def lock_free_def on_cpu_def)
  next
    case (step_cli i m h)
    with inv show ?thesis
      by (simp add: lock_inv_def cli_def cpus_ok_def lock_free_def on_cpu_def)
  qed
qed

section \<open>Properties\<close>

text \<open>
  C4. Mutual exclusion of spin-locks: in every state the processors can reach by any interleaving
  of \<^verbatim>\<open>acquire\<close>, \<^verbatim>\<open>release\<close> and interrupt enabling, at most one processor is inside the
  critical section of a lock. A processor inside one has its interrupts off, and its \<^verbatim>\<open>ncli\<close> is
  the number of locks it holds.
\<close>

theorem spinlock_mutual_exclusion:
  assumes "booted m0" and "lock_reach m0 (m, h)" and "L \<in> h i"
  shows "(\<forall>j. L \<in> h j \<longrightarrow> j = i) \<and> \<not> hw_if m i \<and> ncli (cpus m ! i) = int (card (h i))"
proof -
  have inv: "lock_inv (m, h)" using assms(2,1) by (rule lock_inv_reach)
  then have "i < length (cpus m)" using assms(3) by (rule lock_invD)
  with lock_invD(4,5) [OF inv, of i] lock_invD(6) [OF inv, of L] assms(3) show ?thesis by auto
qed

definition two_cpus :: machine where
  "two_cpus = \<lparr>cpus = [\<lparr>apicid = 0, started = True, ncli = 0, intena = False, cproc = None\<rparr>,
                        \<lparr>apicid = 1, started = True, ncli = 0, intena = False, cproc = None\<rparr>],
     locks = (\<lambda>_. \<lparr>locked = 0, lname = '''', lcpu = None\<rparr>), hw_me = 0,
     hw_apic = (\<lambda>i. of_nat i), hw_if = (\<lambda>_. True),
     hw_cr3 = (\<lambda>_. None), hw_esp0 = (\<lambda>_. 0)\<rparr>"

lemma two_cpus_fields:
  "length (cpus two_cpus) = 2" "length (cpus (acq L (on_cpu i two_cpus))) = 2"
  by (simp_all add: cpus_push) (simp_all add: two_cpus_def)

lemma booted_two_cpus: "booted two_cpus"
  by (auto simp: booted_def two_cpus_def cpus_ok_def lock_free_def less_Suc_eq)

lemma two_cpus_lock: "lock_reach two_cpus (acq PtableLock (on_cpu 1 two_cpus), (\<lambda>_. {})(1 := {PtableLock}))"
proof -
  have "acquire PtableLock (on_cpu 1 two_cpus) = Ok (acq PtableLock (on_cpu 1 two_cpus))"
    using acquire_cases [OF lock_inv_reach [OF reach_init booted_two_cpus], of 1] by (simp add: two_cpus_def)
  then show ?thesis
    using reach_step [OF reach_init step_acquire, of 1 two_cpus PtableLock] by (simp add: two_cpus_def)
qed

theorem spinlock_mutual_exclusion_witness:
  "\<not> hw_if (acq PtableLock (on_cpu 1 two_cpus)) 1"
  using spinlock_mutual_exclusion [OF booted_two_cpus two_cpus_lock, of PtableLock 1] by simp

text \<open>
  C5. In every reachable state \<^verbatim>\<open>acquire\<close> panics exactly on a processor that holds the lock
  already, waits exactly while another processor holds it, and otherwise returns; and
  \<^verbatim>\<open>release\<close> panics exactly when the processor does not hold the lock. No other panic of
  \<^verbatim>\<open>mycpu\<close>, \<^verbatim>\<open>pushcli\<close> or \<^verbatim>\<open>popcli\<close> can happen in them.
\<close>

theorem acquire_release_outcomes:
  assumes "booted m0" and "lock_reach m0 (m, h)" and "i < length (cpus m)"
  shows "(case acquire L (on_cpu i m) of
            Ok m' \<Rightarrow> \<forall>j. L \<notin> h j
          | Panic s \<Rightarrow> s = ''acquire'' \<and> L \<in> h i
          | Spin K \<Rightarrow> K = L \<and> (\<exists>j. j \<noteq> i \<and> L \<in> h j)
          | Sleep c \<Rightarrow> False
          | Diverge \<Rightarrow> False | Undef \<Rightarrow> False) \<and>
         (case release L (on_cpu i m) of
            Ok m' \<Rightarrow> L \<in> h i
          | Panic s \<Rightarrow> s = ''release'' \<and> L \<notin> h i
          | Spin K \<Rightarrow> False
          | Sleep c \<Rightarrow> False
          | Diverge \<Rightarrow> False | Undef \<Rightarrow> False)"
proof -
  have inv: "lock_inv (m, h)" using assms(2,1) by (rule lock_inv_reach)
  note ok = lock_inv_mach_ok [OF inv assms(3)]
  have hold: "L \<in> h i \<longleftrightarrow> locked (locks m L) \<noteq> 0 \<and> lcpu (locks m L) = Some i"
    using inv by (simp add: lock_inv_def)
  have "L \<in> h i \<Longrightarrow> 0 < card (h i)"
    using lock_invD(3) [OF inv assms(3)] by (auto simp: card_gt_0_iff)
  then show ?thesis
    using release_held [OF ok(1), of L] release_not_held [OF ok(1), of L] ok hold
    by (auto simp: acquire_cases [OF inv assms(3)])
qed

theorem acquire_release_outcomes_witness:
  "acquire PtableLock (on_cpu 1 (acq PtableLock (on_cpu 1 two_cpus))) = Panic ''acquire''"
  using acquire_release_outcomes [OF booted_two_cpus two_cpus_lock, of 1 PtableLock]
  by (auto simp: two_cpus_fields simp del: acq_fields split: res.splits if_splits)

end
