(* ===== verification/Cstring.thy ===== *)
theory Cstring
  imports Xv6_Prelude
begin

section \<open>Memory and string routines (string.c of the kernel, ulib.c of user space)\<close>

text \<open>
  \<^verbatim>\<open>memset\<close>, \<^verbatim>\<open>memcmp\<close> and \<^verbatim>\<open>memmove\<close> work on a memory \<open>nat \<Rightarrow> uchar\<close>, because whether
  the regions overlap matters for them. The string routines work on character arrays, lists of
  bytes; \<open>cread\<close> reads NUL behind the end of an array, so that a list without its terminator
  and the C string it stands for are read alike. The counts are natural numbers, so the early
  returns for a negative count are those for 0; addresses do not wrap around.
\<close>

type_synonym mem = "nat \<Rightarrow> uchar"

definition cread :: "uchar list \<Rightarrow> nat \<Rightarrow> uchar" where
  "cread xs i = (if i < length xs then xs ! i else 0)"

text \<open>The bytes of a C string constant, and the C string an array holds.\<close>

definition bytes_of :: "string \<Rightarrow> uchar list" where
  "bytes_of s = map of_char s"

definition cstring :: "uchar list \<Rightarrow> uchar list" where
  "cstring xs = takeWhile (\<lambda>c. c \<noteq> 0) xs"

subsection \<open>string.c: memory\<close>

fun stosb :: "mem \<Rightarrow> nat \<Rightarrow> uchar \<Rightarrow> nat \<Rightarrow> mem" where
  "stosb m dst c 0 = m"
| "stosb m dst c (Suc n) = stosb (m(dst := c)) (Suc dst) c n"

fun stosl :: "mem \<Rightarrow> nat \<Rightarrow> uint \<Rightarrow> nat \<Rightarrow> mem" where
  "stosl m dst w 0 = m"
| "stosl m dst w (Suc n) =
     stosl (m(dst := ucast w, dst + 1 := ucast (drop_bit 8 w), dst + 2 := ucast (drop_bit 16 w),
              dst + 3 := ucast (drop_bit 24 w))) (dst + 4) w n"

definition memset :: "mem \<Rightarrow> nat \<Rightarrow> uint \<Rightarrow> nat \<Rightarrow> mem" where
  "memset m dst c n =
     (if dst mod 4 = 0 \<and> n mod 4 = 0
      then let c = c AND 0xFF
           in stosl m dst (push_bit 24 c OR push_bit 16 c OR push_bit 8 c OR c) (n div 4)
      else stosb m dst (ucast c) n)"

fun memcmp :: "mem \<Rightarrow> nat \<Rightarrow> nat \<Rightarrow> nat \<Rightarrow> int" where
  "memcmp m s1 s2 0 = 0"
| "memcmp m s1 s2 (Suc n) =
     (if m s1 \<noteq> m s2 then int (unat (m s1)) - int (unat (m s2))
      else memcmp m (Suc s1) (Suc s2) n)"

fun copy_up :: "mem \<Rightarrow> nat \<Rightarrow> nat \<Rightarrow> nat \<Rightarrow> mem" where
  "copy_up m d s 0 = m"
| "copy_up m d s (Suc n) = copy_up (m(d := m s)) (Suc d) (Suc s) n"

fun copy_down :: "mem \<Rightarrow> nat \<Rightarrow> nat \<Rightarrow> nat \<Rightarrow> mem" where
  "copy_down m d s 0 = m"
| "copy_down m d s (Suc n) = copy_down (m(d + n := m (s + n))) d s n"

definition memmove :: "mem \<Rightarrow> nat \<Rightarrow> nat \<Rightarrow> nat \<Rightarrow> mem" where
  "memmove m d s n = (if s < d \<and> s + n > d then copy_down m d s n else copy_up m d s n)"

subsection \<open>string.c: strings\<close>

fun strncmp :: "uchar list \<Rightarrow> uchar list \<Rightarrow> nat \<Rightarrow> int" where
  "strncmp p q n =
     (if 0 < n \<and> cread p 0 \<noteq> 0 \<and> cread p 0 = cread q 0 then strncmp (tl p) (tl q) (n - 1)
      else if n = 0 then 0
      else int (unat (cread p 0)) - int (unat (cread q 0)))"

declare strncmp.simps [simp del]

fun strncpy_copy :: "uchar list \<Rightarrow> uchar list \<Rightarrow> nat \<Rightarrow> nat \<Rightarrow> uchar list \<times> nat \<times> nat" where
  "strncpy_copy s t i 0 = (s, i, 0)"
| "strncpy_copy s t i (Suc n) =
     (let c = cread t i; s = s[i := c]
      in if c \<noteq> 0 then strncpy_copy s t (Suc i) n else (s, Suc i, n))"

fun zero_fill :: "uchar list \<Rightarrow> nat \<Rightarrow> nat \<Rightarrow> uchar list" where
  "zero_fill s i 0 = s"
| "zero_fill s i (Suc n) = zero_fill (s[i := 0]) (Suc i) n"

definition strncpy :: "uchar list \<Rightarrow> uchar list \<Rightarrow> nat \<Rightarrow> uchar list" where
  "strncpy s t n = (case strncpy_copy s t 0 n of (s, i, n) \<Rightarrow> zero_fill s i n)"

fun safestrcpy_copy :: "uchar list \<Rightarrow> uchar list \<Rightarrow> nat \<Rightarrow> nat \<Rightarrow> uchar list \<times> nat" where
  "safestrcpy_copy s t i 0 = (s, i)"
| "safestrcpy_copy s t i (Suc n) =
     (if n = 0 then (s, i)
      else let c = cread t i; s = s[i := c]
           in if c \<noteq> 0 then safestrcpy_copy s t (Suc i) n else (s, Suc i))"

definition safestrcpy :: "uchar list \<Rightarrow> uchar list \<Rightarrow> nat \<Rightarrow> uchar list" where
  "safestrcpy s t n =
     (if n = 0 then s else case safestrcpy_copy s t 0 n of (s, i) \<Rightarrow> s[i := 0])"

partial_function (option) strlen_from :: "uchar list \<Rightarrow> nat \<Rightarrow> nat option" where
  "strlen_from s n = (if n < length s then (if s ! n = 0 then Some n else strlen_from s (Suc n)) else None)"

definition strlen :: "uchar list \<Rightarrow> nat option" where
  "strlen s = strlen_from s 0"

subsection \<open>ulib.c\<close>

fun ulib_memmove :: "mem \<Rightarrow> nat \<Rightarrow> nat \<Rightarrow> int \<Rightarrow> mem" where
  "ulib_memmove m d s n =
     (if n > 0 then ulib_memmove (m(d := m s)) (Suc d) (Suc s) (n - 1) else m)"

declare ulib_memmove.simps [simp del]

fun strcmp :: "uchar list \<Rightarrow> uchar list \<Rightarrow> int" where
  "strcmp [] q = 0 - int (unat (cread q 0))"
| "strcmp (c # p) q =
     (if c \<noteq> 0 \<and> c = cread q 0 then strcmp p (tl q)
      else int (unat c) - int (unat (cread q 0)))"

fun strchr_from :: "uchar list \<Rightarrow> nat \<Rightarrow> uchar \<Rightarrow> nat option" where
  "strchr_from [] i c = None"
| "strchr_from (x # xs) i c =
     (if x = 0 then None else if x = c then Some i else strchr_from xs (Suc i) c)"

definition strchr :: "uchar list \<Rightarrow> uchar \<Rightarrow> nat option" where
  "strchr s c = strchr_from s 0 c"

fun atoi_from :: "int \<Rightarrow> uchar list \<Rightarrow> int" where
  "atoi_from n [] = n"
| "atoi_from n (c # s) =
     (if 48 \<le> c \<and> c \<le> 57 then atoi_from (int32 (n * 10 + int (unat c) - 48)) s else n)"

definition atoi :: "uchar list \<Rightarrow> int" where
  "atoi s = atoi_from 0 s"

subsection \<open>Memory routines\<close>

lemma stosb_apply: "stosb m dst c n a = (if dst \<le> a \<and> a < dst + n then c else m a)"
  by (induction n arbitrary: m dst) auto

lemma stosl_apply:
  "stosl m dst w n a =
     (if dst \<le> a \<and> a < dst + 4 * n then ucast (drop_bit (8 * ((a - dst) mod 4)) w) else m a)"
proof (induction n arbitrary: m dst)
  case 0
  then show ?case by auto
next
  case (Suc n)
  have step: "stosl m dst w (Suc n) a =
    (if dst + 4 \<le> a \<and> a < dst + 4 + 4 * n
     then ucast (drop_bit (8 * ((a - (dst + 4)) mod 4)) w)
     else if a = dst + 3 then ucast (drop_bit 24 w) else if a = dst + 2 then ucast (drop_bit 16 w)
     else if a = dst + 1 then ucast (drop_bit 8 w) else if a = dst then ucast w else m a)"
    by (simp only: stosl.simps Suc.IH fun_upd_apply)
  show ?case
  proof (cases "dst + 4 \<le> a")
    case True
    then have "(a - dst) mod 4 = (a - (dst + 4)) mod 4"
      using mod_add_self2 [of "a - (dst + 4)" 4] by (simp add: le_diff_conv2)
    with True show ?thesis unfolding step by auto
  next
    case False
    then have "a < dst \<or> a = dst \<or> a = dst + 1 \<or> a = dst + 2 \<or> a = dst + 3" by linarith
    with False show ?thesis unfolding step by auto
  qed
qed

lemma byte_pattern:
  fixes c :: uint
  assumes "k < 4"
  shows "(ucast (drop_bit (8 * k) (push_bit 24 (c AND 0xFF) OR push_bit 16 (c AND 0xFF)
     OR push_bit 8 (c AND 0xFF) OR (c AND 0xFF))) :: uchar) = ucast c"
proof (rule bit_word_eqI)
  fix n
  assume n: "n < LENGTH(8)"
  have "(0xFF :: uint) = mask 8" by (simp add: mask_eq_exp_minus_1)
  then have mask: "bit (0xFF :: uint) j \<longleftrightarrow> j < 8" for j
    by (simp only: bit_mask_iff) auto
  from assms consider "k = 0" | "k = 1" | "k = 2" | "k = 3" by linarith
  then show "bit (ucast (drop_bit (8 * k) (push_bit 24 (c AND 0xFF) OR push_bit 16 (c AND 0xFF)
     OR push_bit 8 (c AND 0xFF) OR (c AND 0xFF))) :: uchar) n \<longleftrightarrow> bit (ucast c :: uchar) n"
    by cases (use n mask [of n] in \<open>auto simp: bit_simps\<close>)
qed

lemma memset_apply:
  "memset m dst c n a = (if dst \<le> a \<and> a < dst + n then ucast c else m a)"
proof (cases "dst mod 4 = 0 \<and> n mod 4 = 0")
  case True
  then have "4 * (n div 4) = n" by auto
  then show ?thesis
    unfolding memset_def Let_def if_P [OF True] stosl_apply
    by (simp only: byte_pattern mod_less_divisor zero_less_numeral)
next
  case False
  show ?thesis unfolding memset_def if_not_P [OF False] by (rule stosb_apply)
qed

lemma copy_up_apply:
  assumes "d \<le> s \<or> s + n \<le> d"
  shows "copy_up m d s n a = (if d \<le> a \<and> a < d + n then m (s + (a - d)) else m a)"
  using assms
proof (induction n arbitrary: m d s)
  case (Suc n)
  then have IH: "copy_up (m(d := m s)) (Suc d) (Suc s) n a =
    (if Suc d \<le> a \<and> a < Suc d + n then (m(d := m s)) (Suc s + (a - Suc d)) else (m(d := m s)) a)"
    by (intro Suc.IH) auto
  consider "a < d" | "a = d" | "d < a" "a < d + Suc n" | "d + Suc n \<le> a" by linarith
  then show ?case
  proof cases
    case 3
    then have "Suc s + (a - Suc d) = s + (a - d)" by linarith
    moreover have "s + (a - d) \<noteq> d" using 3 Suc.prems by linarith
    ultimately show ?thesis using 3 IH by simp
  qed (use IH in simp_all)
qed auto

lemma copy_down_apply:
  assumes "s \<le> d"
  shows "copy_down m d s n a = (if d \<le> a \<and> a < d + n then m (s + (a - d)) else m a)"
proof (induction n arbitrary: m)
  case (Suc n)
  have "s + (a - d) \<noteq> d + n" if "d \<le> a" "a < d + n"
    using that assms by linarith
  then show ?case
    by (simp only: copy_down.simps Suc.IH fun_upd_apply) auto
qed auto

lemma memmove_apply:
  "memmove m d s n a = (if d \<le> a \<and> a < d + n then m (s + (a - d)) else m a)"
proof (cases "s < d \<and> s + n > d")
  case True
  then show ?thesis by (simp add: memmove_def copy_down_apply)
next
  case False
  then have "d \<le> s \<or> s + n \<le> d" by linarith
  with False show ?thesis by (simp only: memmove_def copy_up_apply if_False)
qed

text \<open>Copying upwards into a destination above the source repeats the bytes between them.\<close>

lemma copy_up_above:
  assumes "s < d"
  shows "copy_up m d s n a = (if d \<le> a \<and> a < d + n then m (s + (a - d) mod (d - s)) else m a)"
  using assms
proof (induction m d s n rule: copy_up.induct)
  case (2 m d s n)
  have IH: "copy_up m d s (Suc n) a =
      (if Suc d \<le> a \<and> a < Suc d + n then (m(d := m s)) (Suc s + (a - Suc d) mod (d - s)) else (m(d := m s)) a)"
    using 2(1) 2(2) by (simp only: copy_up.simps diff_Suc_Suc Suc_less_eq simp_thms)
  show ?case
  proof (cases "Suc d \<le> a \<and> a < Suc d + n")
    case True
    define j where "j = (a - Suc d) mod (d - s)"
    have "a - d = Suc (a - Suc d)" using True by linarith
    then have j: "j < d - s" "(a - d) mod (d - s) = (if Suc j = d - s then 0 else Suc j)"
      using 2(2) mod_Suc [of "a - Suc d" "d - s"] by (simp_all only: j_def mod_less_divisor zero_less_diff)
    then show ?thesis using IH True 2(2) unfolding j_def [symmetric] by auto
  next
    case False
    then show ?thesis using IH by auto
  qed
qed auto

lemma ulib_memmove_copy_up: "ulib_memmove m d s n = copy_up m d s (nat n)"
proof (induction m d s n rule: ulib_memmove.induct)
  case (1 m d s n)
  show ?case
  proof (cases "n > 0")
    case True
    then have "nat n = Suc (nat (n - 1))" by linarith
    then show ?thesis
      using True by (subst ulib_memmove.simps) (simp only: 1 [OF True] if_True copy_up.simps)
  next
    case False
    then show ?thesis by (subst ulib_memmove.simps) simp
  qed
qed

subsection \<open>String routines\<close>

lemma cread_Cons [simp]: "cread (x # xs) 0 = x" "cread (x # xs) (Suc i) = cread xs i"
  by (simp_all add: cread_def)

lemma cread_Nil [simp]: "cread [] i = 0"
  by (simp add: cread_def)

lemma cstring_simps [simp]: "cstring [] = []" "cstring (c # xs) = (if c = 0 then [] else c # cstring xs)"
  by (simp_all add: cstring_def)

lemma cstring_append: "0 \<notin> set xs \<Longrightarrow> cstring (xs @ ys) = xs @ cstring ys"
  unfolding cstring_def by (rule takeWhile_append2) auto

lemma cstring_no_nul: "0 \<notin> set (cstring xs)"
  unfolding cstring_def by (auto dest: set_takeWhileD)

lemma cstring_take: "cstring (take n xs) = take n (cstring xs)"
  by (induction xs arbitrary: n) (auto simp: take_Cons split: nat.splits)

lemma uint_uchar_eq: "uint (x :: uchar) = uint y \<longleftrightarrow> x = y"
  by (metis word_uint_eq_iff)

lemma strncmp_Suc:
  "strncmp p q (Suc n) =
    (if cread p 0 \<noteq> 0 \<and> cread p 0 = cread q 0 then strncmp (tl p) (tl q) n
     else int (unat (cread p 0)) - int (unat (cread q 0)))"
  by (subst strncmp.simps) simp

lemma strncmp_eq_0: "strncmp p q n = 0 \<longleftrightarrow> take n (cstring p) = take n (cstring q)"
proof (induction n arbitrary: p q)
  case 0
  then show ?case by (subst strncmp.simps) simp
next
  case (Suc n)
  show ?case
    using Suc.IH [of "tl p" "tl q"]
    by (cases p; cases q) (auto simp: strncmp_Suc uint_uchar_eq uint_0_iff)
qed

text \<open>
  The result of \<^verbatim>\<open>strncpy\<close> as a list: the C string of \<open>t\<close>, cut to \<open>n\<close> bytes, then NULs.
\<close>

definition padded :: "nat \<Rightarrow> uchar list \<Rightarrow> uchar list" where
  "padded n t = take n (cstring t @ replicate n 0)"

lemma length_padded [simp]: "length (padded n t) = n"
  by (simp add: padded_def)

lemma zero_fill_eq:
  "i + n \<le> length s \<Longrightarrow> zero_fill s i n = take i s @ replicate n 0 @ drop (i + n) s"
proof (induction n arbitrary: s i)
  case (Suc n)
  then have "zero_fill (s[i := 0]) (Suc i) n = take (Suc i) (s[i := 0]) @ replicate n 0 @ drop (Suc i + n) (s[i := 0])"
    by (intro Suc.IH) simp
  with Suc.prems show ?case
    by (simp add: take_Suc_conv_app_nth replicate_app_Cons_same)
qed simp

lemma strncpy_eq_aux:
  assumes "i + n \<le> length s"
  shows "(case strncpy_copy s t i n of (s, i, n) \<Rightarrow> zero_fill s i n) =
    take i s @ padded n (drop i t) @ drop (i + n) s"
  using assms
proof (induction n arbitrary: s i)
  case 0
  then show ?case by (simp add: padded_def)
next
  case (Suc n)
  show ?case
  proof (cases "cread t i = 0")
    case True
    then have "cstring (drop i t) = []"
      by (cases "i < length t") (auto simp: cread_def Cons_nth_drop_Suc [symmetric])
    then have "padded (Suc n) (drop i t) = replicate (Suc n) 0"
      by (simp add: padded_def)
    with True Suc.prems show ?thesis
      by (simp add: zero_fill_eq take_Suc_conv_app_nth Let_def)
  next
    case False
    then have i: "i < length t" and nz: "t ! i \<noteq> 0" and c: "cread t i = t ! i"
      by (auto simp: cread_def split: if_splits)
    have "padded (Suc n) (drop i t) = t ! i # padded n (drop (Suc i) t)"
      using i nz
      by (cases "n - length (cstring (drop (Suc i) t))")
        (auto simp: padded_def Cons_nth_drop_Suc [symmetric])
    with False Suc.prems Suc.IH [of "Suc i" "s[i := t ! i]"] c show ?thesis
      by (simp add: take_Suc_conv_app_nth Let_def)
  qed
qed

lemma strncpy_eq: "n \<le> length s \<Longrightarrow> strncpy s t n = padded n t @ drop n s"
  using strncpy_eq_aux [of 0 n s t] by (simp add: strncpy_def)

lemma safestrcpy_eq_aux:
  assumes "i + Suc n \<le> length s"
  shows "(case safestrcpy_copy s t i (Suc n) of (s, i) \<Rightarrow> s[i := 0]) =
    (let w = take n (cstring (drop i t)); k = length w
     in take i s @ w @ [0] @ (if k < n then 0 # drop (i + k + 2) s else drop (i + Suc n) s))"
  using assms
proof (induction n arbitrary: s i)
  case 0
  then show ?case by (simp add: upd_conv_take_nth_drop)
next
  case (Suc n)
  show ?case
  proof (cases "cread t i = 0")
    case True
    then have "cstring (drop i t) = []"
      by (cases "i < length t") (auto simp: cread_def Cons_nth_drop_Suc [symmetric])
    with True Suc.prems show ?thesis
      by (simp add: upd_conv_take_nth_drop Let_def take_update_swap drop_update_swap)
  next
    case False
    then have i: "i < length t" and nz: "t ! i \<noteq> 0" and c: "cread t i = t ! i"
      by (auto simp: cread_def split: if_splits)
    have w: "take (Suc n) (cstring (drop i t)) = t ! i # take n (cstring (drop (Suc i) t))"
      using i nz by (simp add: Cons_nth_drop_Suc [symmetric])
    from Suc.IH [of "Suc i" "s[i := t ! i]"] Suc.prems False c show ?thesis
      unfolding w by (auto simp: Let_def take_Suc_conv_app_nth)
  qed
qed

lemma safestrcpy_eq:
  assumes "0 < n" and "n \<le> length s"
  shows "safestrcpy s t n =
    (let w = take (n - 1) (cstring t); k = length w
     in w @ [0] @ (if k < n - 1 then 0 # drop (k + 2) s else drop n s))"
  using assms safestrcpy_eq_aux [of 0 "n - 1" s t] by (simp add: safestrcpy_def Let_def)

lemma length_safestrcpy [simp]:
  assumes "n \<le> length s"
  shows "length (safestrcpy s t n) = length s"
proof (cases "n = 0")
  case True
  then show ?thesis by (simp add: safestrcpy_def)
next
  case False
  with assms show ?thesis by (auto simp: safestrcpy_eq Let_def)
qed

lemma drop_safestrcpy:
  assumes "0 < n" and "n \<le> length s"
  shows "drop n (safestrcpy s t n) = drop n s"
proof (cases "length (cstring t) < n - 1")
  case True
  then have "length (cstring t) + 2 \<le> n" by linarith
  then obtain k where "n = length (cstring t) + 2 + k"
    using le_Suc_ex by blast
  with True assms show ?thesis by (simp add: safestrcpy_eq Let_def add.commute)
next
  case False
  with assms show ?thesis by (simp add: safestrcpy_eq Let_def min_def)
qed

lemma cstring_safestrcpy:
  "0 < n \<Longrightarrow> n \<le> length s \<Longrightarrow> cstring (safestrcpy s t n) = take (n - 1) (cstring t)"
  using cstring_append [of "take (n - 1) (cstring t)" "0 # zs" for zs] cstring_no_nul [of t]
    in_set_takeD [of 0 "n - 1" "cstring t"]
  by (force simp: safestrcpy_eq Let_def)

lemma bytes_of_simps [simp]: "bytes_of [] = []" "bytes_of (c # s) = of_char c # bytes_of s"
  by (simp_all add: bytes_of_def)

section \<open>Properties\<close>

text \<open>
  C36. \<^verbatim>\<open>memmove\<close> of string.c copies the source region as it was before the call and changes
  nothing outside the destination, for every overlap of the two regions.
\<close>

theorem memmove_correct:
  "memmove m d s n a = (if d \<le> a \<and> a < d + n then m (s + (a - d)) else m a)"
  by (rule memmove_apply)

text \<open>
  C37. \<^verbatim>\<open>memset\<close> of string.c, with its word-wise fast path for aligned regions, stores the low
  byte of \<open>c\<close> in every byte of the region and changes nothing else: both paths compute the same
  memory.
\<close>

theorem memset_fills:
  "memset m dst c n a = (if dst \<le> a \<and> a < dst + n then ucast c else m a)"
  by (rule memset_apply)

text \<open>
  C38. \<^verbatim>\<open>safestrcpy(s, t, n)\<close> leaves a NUL-terminated string in the first \<open>n\<close> bytes of the
  destination: the source string cut to \<open>n - 1\<close> bytes. The bytes from \<open>n\<close> on and the size of
  the array do not change.
\<close>

theorem safestrcpy_terminates_string:
  assumes "0 < n" and "n \<le> length s"
  shows "cstring (safestrcpy s t n) = take (n - 1) (cstring t) \<and>
    length (cstring (safestrcpy s t n)) < n \<and>
    length (safestrcpy s t n) = length s \<and>
    drop n (safestrcpy s t n) = drop n s"
  using assms by (simp add: cstring_safestrcpy drop_safestrcpy)

theorem safestrcpy_terminates_string_witness:
  "cstring (safestrcpy (replicate 6 7) (bytes_of ''initcode'') 4) = bytes_of ''ini'' \<and>
   drop 4 (safestrcpy (replicate 6 7) (bytes_of ''initcode'') 4) = replicate 2 7"
  using safestrcpy_terminates_string [of 4 "replicate 6 7" "bytes_of ''initcode''"] by simp

text \<open>
  C39. What the user library's \<^verbatim>\<open>memmove\<close> (ulib.c) does, which copies upwards only. With the
  destination \<open>k\<close> bytes above the source it fills the destination with repetitions of the first \<open>k\<close>
  source bytes, and it copies correctly otherwise. So it agrees with the kernel's \<^verbatim>\<open>memmove\<close> exactly
  when the destination is not above the source or the source region is periodic with that period
  \<open>k\<close> already, in particular when the regions do not overlap.
\<close>

theorem ulib_memmove_forward_only:
  "ulib_memmove m d s (int n) a =
     (if d \<le> a \<and> a < d + n then m (if s < d then s + (a - d) mod (d - s) else s + (a - d)) else m a) \<and>
   (ulib_memmove m d s (int n) = memmove m d s n \<longleftrightarrow> d \<le> s \<or> (\<forall>i<n. m (s + i) = m (s + i mod (d - s))))"
proof (intro conjI)
  have u: "ulib_memmove m d s (int n) a = (if d \<le> a \<and> a < d + n then m (if s < d then s + (a - d) mod (d - s) else s + (a - d)) else m a)" for a
    using copy_up_above [of s d m n a] copy_up_apply [of d s n m a] by (simp add: ulib_memmove_copy_up)
  then show "ulib_memmove m d s (int n) a = (if d \<le> a \<and> a < d + n then m (if s < d then s + (a - d) mod (d - s) else s + (a - d)) else m a)" .
  show "ulib_memmove m d s (int n) = memmove m d s n \<longleftrightarrow> d \<le> s \<or> (\<forall>i<n. m (s + i) = m (s + i mod (d - s)))" (is "?E \<longleftrightarrow> ?P")
  proof
    assume e: ?E
    show ?P
    proof (cases "d \<le> s")
      case False
      have "m (s + i) = m (s + i mod (d - s))" if "i < n" for i
        using u [of "d + i"] memmove_apply [of m d s n "d + i"] e False that by simp
      then show ?thesis by blast
    qed simp
  next
    assume ?P
    then have "m (s + (x - d) mod (d - s)) = m (s + (x - d))" if "s < d" "d \<le> x" "x < d + n" for x using that by (auto dest!: spec [of _ "x - d"])
    then show ?E by (intro ext) (simp add: u memmove_apply)
  qed
qed

theorem ulib_memmove_forward_only_witness:
  "ulib_memmove (\<lambda>a. of_nat a) 1 0 2 \<noteq> memmove (\<lambda>a. of_nat a) 1 0 2 \<and> ulib_memmove (\<lambda>a. of_nat a) 4 0 2 = memmove (\<lambda>a. of_nat a) 4 0 2"
  using ulib_memmove_forward_only [of "\<lambda>a. of_nat a" 1 0 2] ulib_memmove_forward_only [of "\<lambda>a. of_nat a" 4 0 2]
  by (auto simp: numeral_2_eq_2 less_Suc_eq)

end
