(* ===== verification/Proc_Table.thy ===== *)
theory Proc_Table
  imports Spinlock Cstring
begin

section \<open>The process table and the context switch (proc.c, proc.h, procinfo.h)\<close>

text \<open>
  The \<^verbatim>\<open>struct proc\<close> table and the operations on it. A \<^verbatim>\<open>struct proc *\<close> is a slot number, a
  null pointer \<open>None\<close>. The kernel state \<open>kern\<close> is the first of a chain of extensible records:
  each later component adds its own fields, and the operations here work on every extension.

  \<^verbatim>\<open>swtch\<close> is modelled by what it saves and where control continues. \<open>sched\<close> ends at the
  switch to the scheduler thread of the processor, having stored in \<^verbatim>\<open>p->context\<close> the point where
  the thread goes on and the \<^verbatim>\<open>intena\<close> local to it; \<open>scheduler_switch\<close> ends at the switch to the
  chosen process, \<open>scheduler_resume\<close> is the rest of the loop body of \<^verbatim>\<open>scheduler\<close>; \<open>sched_return\<close>,
  \<open>yield_return\<close>, \<open>sleep_return\<close> are the code behind the switch. Following the null pointer of a
  processor without a process faults in the kernel, which \<^verbatim>\<open>trap\<close> answers with \<^verbatim>\<open>panic("trap")\<close>.

  The parts of \<^verbatim>\<open>allocproc\<close>, \<^verbatim>\<open>exit\<close> and \<^verbatim>\<open>wait\<close> that run under \<^verbatim>\<open>ptable.lock\<close> are defined here
  on their own, because they decide the invariants of the table.
\<close>

subsection \<open>Data\<close>

datatype procstate = UNUSED | EMBRYO | SLEEPING | RUNNABLE | RUNNING | ZOMBIE

record trapframe =
  tf_edi :: uint
  tf_esi :: uint
  tf_ebp :: uint
  tf_ebx :: uint
  tf_edx :: uint
  tf_ecx :: uint
  tf_eax :: uint
  tf_gs :: ushort
  tf_fs :: ushort
  tf_es :: ushort
  tf_ds :: ushort
  tf_trapno :: uint
  tf_err :: uint
  tf_eip :: uint
  tf_cs :: ushort
  tf_eflags :: uint
  tf_esp :: uint
  tf_ss :: ushort

text \<open>Where a suspended kernel thread goes on: at \<^verbatim>\<open>forkret\<close>, or behind the \<^verbatim>\<open>swtch\<close> in \<^verbatim>\<open>sched\<close>
  with the saved \<^verbatim>\<open>intena\<close>, called from \<^verbatim>\<open>yield\<close>, from \<^verbatim>\<open>sleep\<close> with its lock, or from \<^verbatim>\<open>exit\<close>.\<close>

datatype resume = InYield | InSleep lockid | InExit

datatype kcontext = AtForkret | AtSched bool resume

record proc =
  p_sz :: uint
  p_pgdir :: "nat option"
  p_kstack :: "nat option"
  p_state :: procstate
  p_pid :: int
  p_parent :: "nat option"
  p_tf :: trapframe
  p_context :: "kcontext option"
  p_chan :: "chan option"
  p_killed :: bool
  p_cputicks :: uint
  p_ofile :: "nat option list"
  p_cwd :: "nat option"
  p_name :: "uchar list"
  p_nice :: int
  p_is_privileged :: int

record procinfo =
  pi_pid :: int
  pi_ppid :: int
  pi_state :: "uchar list"
  pi_sz :: uint
  pi_cputicks :: uint
  pi_name :: "uchar list"
  pi_nice :: int
  pi_is_privileged :: int

record kern =
  mach :: machine
  ptable :: "proc list"
  initproc :: "nat option"
  nextpid :: int
  ticks :: uint

definition NPROC :: nat where "NPROC = 64"

definition NOFILE :: nat where "NOFILE = 16"

definition PSTATE_LEN :: nat where "PSTATE_LEN = 16"

definition KSTACKSIZE :: nat where "KSTACKSIZE = 4096"

fun procstatestr :: "procstate \<Rightarrow> string" where
  "procstatestr UNUSED = ''UNUSED''"
| "procstatestr EMBRYO = ''EMBRYO''"
| "procstatestr SLEEPING = ''SLEEPING''"
| "procstatestr RUNNABLE = ''RUNNABLE''"
| "procstatestr RUNNING = ''RUNNING''"
| "procstatestr ZOMBIE = ''ZOMBIE''"

subsection \<open>Locks and the current process\<close>

definition kacquire :: "lockid \<Rightarrow> 'z kern_scheme \<Rightarrow> 'z kern_scheme res" where
  "kacquire L s = rbind (acquire L (mach s)) (\<lambda>m. Ok (s\<lparr>mach := m\<rparr>))"

definition krelease :: "lockid \<Rightarrow> 'z kern_scheme \<Rightarrow> 'z kern_scheme res" where
  "krelease L s = rbind (release L (mach s)) (\<lambda>m. Ok (s\<lparr>mach := m\<rparr>))"

definition pinit :: "'z kern_scheme \<Rightarrow> 'z kern_scheme" where
  "pinit s = s\<lparr>mach := initlock PtableLock ''ptable'' (mach s)\<rparr>"

definition myproc :: "'z kern_scheme \<Rightarrow> (nat option \<times> 'z kern_scheme) res" where
  "myproc s =
     rbind (pushcli (mach s)) (\<lambda>m.
     rbind (mycpu m) (\<lambda>c.
     let p = cproc (cpus m ! c) in
     rbind (popcli m) (\<lambda>m.
     Ok (p, s\<lparr>mach := m\<rparr>))))"

definition upd_proc :: "nat \<Rightarrow> (proc \<Rightarrow> proc) \<Rightarrow> 'z kern_scheme \<Rightarrow> 'z kern_scheme" where
  "upd_proc i f s = s\<lparr>ptable := (ptable s)[i := f (ptable s ! i)]\<rparr>"

subsection \<open>wakeup, kill, nice, getprocinfo\<close>

definition wakeup1 :: "chan option \<Rightarrow> proc list \<Rightarrow> proc list" where
  "wakeup1 c tab =
     map (\<lambda>p. if p_state p = SLEEPING \<and> p_chan p = c then p\<lparr>p_state := RUNNABLE\<rparr> else p) tab"

definition wakeup :: "chan \<Rightarrow> 'z kern_scheme \<Rightarrow> 'z kern_scheme res" where
  "wakeup c s =
     rbind (kacquire PtableLock s) (\<lambda>s.
     krelease PtableLock (s\<lparr>ptable := wakeup1 (Some c) (ptable s)\<rparr>))"

definition kill :: "int \<Rightarrow> 'z kern_scheme \<Rightarrow> (int \<times> 'z kern_scheme) res" where
  "kill pid s =
     rbind (kacquire PtableLock s) (\<lambda>s.
     case first_index (\<lambda>p. p_pid p = pid) (ptable s) of
       Some i \<Rightarrow>
         rbind (krelease PtableLock (upd_proc i (\<lambda>p. p\<lparr>p_killed := True,
                  p_state := (if p_state p = SLEEPING then RUNNABLE else p_state p)\<rparr>) s)) (\<lambda>s.
         Ok (0, s))
     | None \<Rightarrow> rbind (krelease PtableLock s) (\<lambda>s. Ok (- 1, s)))"

definition nice :: "int \<Rightarrow> int \<Rightarrow> 'z kern_scheme \<Rightarrow> (int \<times> 'z kern_scheme) res" where
  "nice pid priority s =
     (if priority < - 20 \<or> priority > 19 then Ok (- 1, s)
      else rbind (kacquire PtableLock s) (\<lambda>s.
      case first_index (\<lambda>p. p_pid p = pid) (ptable s) of
        Some i \<Rightarrow>
          rbind (krelease PtableLock (upd_proc i (\<lambda>p. p\<lparr>
                   p_nice := (if priority < 0 then - priority else priority),
                   p_is_privileged := (if priority < 0 then 1 else 0)\<rparr>) s)) (\<lambda>s.
          Ok (0, s))
      | None \<Rightarrow> rbind (krelease PtableLock s) (\<lambda>s. Ok (- 1, s))))"

text \<open>The loop over the parents of \<^verbatim>\<open>target\<close>; it ends only when the chain of parents does.\<close>

partial_function (option) can_access_procinfo :: "proc list \<Rightarrow> nat option \<Rightarrow> nat option \<Rightarrow> bool option" where
  "can_access_procinfo tab caller target =
     (case target of
        None \<Rightarrow> Some False
      | Some t \<Rightarrow> if target = caller then Some True
                 else can_access_procinfo tab caller (p_parent (tab ! t)))"

definition fill_procinfo :: "proc list \<Rightarrow> proc \<Rightarrow> procinfo \<Rightarrow> procinfo" where
  "fill_procinfo tab p info = info\<lparr>
     pi_pid := p_pid p,
     pi_ppid := (case p_parent p of Some q \<Rightarrow> p_pid (tab ! q) | None \<Rightarrow> 0),
     pi_sz := p_sz p,
     pi_cputicks := p_cputicks p,
     pi_nice := p_nice p,
     pi_is_privileged := p_is_privileged p,
     pi_state := safestrcpy (pi_state info) (bytes_of (procstatestr (p_state p))) PSTATE_LEN,
     pi_name := safestrcpy (pi_name info) (p_name p) 16\<rparr>"

text \<open>\<open>info\<close> is the structure the caller passes, \<open>None\<close> a null pointer.\<close>

definition getprocinfo :: "int \<Rightarrow> procinfo option \<Rightarrow> 'z kern_scheme \<Rightarrow> (int \<times> procinfo option \<times> 'z kern_scheme) res" where
  "getprocinfo pid info s =
     rbind (myproc s) (\<lambda>(curproc, s).
     case info of
       None \<Rightarrow> Ok (- 1, None, s)
     | Some out \<Rightarrow>
         rbind (kacquire PtableLock s) (\<lambda>s.
         case first_index (\<lambda>p. p_pid p = pid \<and> p_state p \<noteq> UNUSED) (ptable s) of
           None \<Rightarrow> rbind (krelease PtableLock s) (\<lambda>s. Ok (- 1, info, s))
         | Some i \<Rightarrow>
             (case can_access_procinfo (ptable s) curproc (Some i) of
                None \<Rightarrow> Diverge
              | Some False \<Rightarrow> rbind (krelease PtableLock s) (\<lambda>s. Ok (- 1, info, s))
              | Some True \<Rightarrow>
                  let out = fill_procinfo (ptable s) (ptable s ! i) out in
                  rbind (krelease PtableLock s) (\<lambda>s. Ok (0, Some out, s)))))"

subsection \<open>The scheduler and sched\<close>

definition switchkvm :: "'z kern_scheme \<Rightarrow> 'z kern_scheme" where
  "switchkvm s = s\<lparr>mach := (mach s)\<lparr>hw_cr3 := (hw_cr3 (mach s))(hw_me (mach s) := None)\<rparr>\<rparr>"

definition switchuvm :: "nat option \<Rightarrow> 'z kern_scheme \<Rightarrow> 'z kern_scheme res" where
  "switchuvm p s =
     (case p of
        None \<Rightarrow> Panic ''switchuvm: no process''
      | Some i \<Rightarrow>
          (case p_kstack (ptable s ! i) of
             None \<Rightarrow> Panic ''switchuvm: no kstack''
           | Some ks \<Rightarrow>
               (case p_pgdir (ptable s ! i) of
                  None \<Rightarrow> Panic ''switchuvm: no pgdir''
                | Some pd \<Rightarrow>
                    rbind (pushcli (mach s)) (\<lambda>m.
                    rbind (mycpu m) (\<lambda>_.
                    rbind (popcli (m\<lparr>hw_esp0 := (hw_esp0 m)(hw_me m := ks + KSTACKSIZE),
                                     hw_cr3 := (hw_cr3 m)(hw_me m := Some pd)\<rparr>)) (\<lambda>m.
                    Ok (s\<lparr>mach := m\<rparr>)))))))"

text \<open>The loop of \<^verbatim>\<open>scheduler\<close> over the table: the first runnable process with the least \<^verbatim>\<open>nice\<close>.\<close>

function scheduler_scan :: "proc list \<Rightarrow> nat \<Rightarrow> nat option \<Rightarrow> nat option" where
  "scheduler_scan tab i best =
     (if i < length tab then
        (if p_state (tab ! i) \<noteq> RUNNABLE then scheduler_scan tab (Suc i) best
         else case best of
                None \<Rightarrow> scheduler_scan tab (Suc i) (Some i)
              | Some b \<Rightarrow> scheduler_scan tab (Suc i)
                            (if p_nice (tab ! i) < p_nice (tab ! b) then Some i else Some b))
      else best)"
  by pat_completeness auto
termination by (relation "measure (\<lambda>(tab, i, best). length tab - i)") auto

declare scheduler_scan.simps [simp del]

definition set_cproc :: "nat \<Rightarrow> nat option \<Rightarrow> machine \<Rightarrow> machine" where
  "set_cproc c p m = m\<lparr>cpus := (cpus m)[c := (cpus m ! c)\<lparr>cproc := p\<rparr>]\<rparr>"

text \<open>One round of the loop of \<^verbatim>\<open>scheduler\<close> up to \<^verbatim>\<open>swtch\<close>: the process control goes to, if any.
  \<open>c\<close> is the local variable of \<^verbatim>\<open>scheduler\<close>.\<close>

definition scheduler_switch :: "nat \<Rightarrow> 'z kern_scheme \<Rightarrow> (nat option \<times> 'z kern_scheme) res" where
  "scheduler_switch c s =
     rbind (kacquire PtableLock (s\<lparr>mach := sti (mach s)\<rparr>)) (\<lambda>s.
     case scheduler_scan (ptable s) 0 None of
       None \<Rightarrow> rbind (krelease PtableLock s) (\<lambda>s. Ok (None, s))
     | Some p \<Rightarrow>
         rbind (switchuvm (Some p) (s\<lparr>mach := set_cproc c (Some p) (mach s)\<rparr>)) (\<lambda>s.
         Ok (Some p, upd_proc p (\<lambda>q. q\<lparr>p_state := RUNNING\<rparr>) s)))"

definition scheduler_resume :: "nat \<Rightarrow> 'z kern_scheme \<Rightarrow> 'z kern_scheme res" where
  "scheduler_resume c s =
     (let s = switchkvm s in krelease PtableLock (s\<lparr>mach := set_cproc c None (mach s)\<rparr>))"

definition sched :: "resume \<Rightarrow> 'z kern_scheme \<Rightarrow> 'z kern_scheme res" where
  "sched r s =
     rbind (myproc s) (\<lambda>(p, s).
     rbind (holding PtableLock (mach s)) (\<lambda>(h, m).
     let s = s\<lparr>mach := m\<rparr> in
     if \<not> h then Panic ''sched ptable.lock''
     else rbind (mycpu (mach s)) (\<lambda>c.
     if ncli (cpus (mach s) ! c) \<noteq> 1 then Panic ''sched locks''
     else case p of
            None \<Rightarrow> Panic ''trap''
          | Some p \<Rightarrow>
              if p_state (ptable s ! p) = RUNNING then Panic ''sched running''
              else if read_if (mach s) then Panic ''sched interruptible''
              else Ok (upd_proc p (\<lambda>q. q\<lparr>p_context := Some (AtSched (intena (cpus (mach s) ! c)) r)\<rparr>) s))))"

definition sched_return :: "bool \<Rightarrow> 'z kern_scheme \<Rightarrow> 'z kern_scheme res" where
  "sched_return b s =
     rbind (mycpu (mach s)) (\<lambda>c.
     let m = mach s in Ok (s\<lparr>mach := m\<lparr>cpus := (cpus m)[c := (cpus m ! c)\<lparr>intena := b\<rparr>]\<rparr>\<rparr>))"

definition yield :: "'z kern_scheme \<Rightarrow> 'z kern_scheme res" where
  "yield s =
     rbind (kacquire PtableLock s) (\<lambda>s.
     rbind (myproc s) (\<lambda>(p, s).
     case p of
       None \<Rightarrow> Panic ''trap''
     | Some p \<Rightarrow> sched InYield (upd_proc p (\<lambda>q. q\<lparr>p_state := RUNNABLE\<rparr>) s)))"

definition yield_return :: "'z kern_scheme \<Rightarrow> 'z kern_scheme res" where
  "yield_return s = krelease PtableLock s"

text \<open>The two calls with which \<^verbatim>\<open>sleep\<close> exchanges the lock it is given for \<^verbatim>\<open>ptable.lock\<close>, in their order.\<close>

definition sleep_locks :: "lockid \<Rightarrow> ('z kern_scheme \<Rightarrow> 'z kern_scheme res) list" where
  "sleep_locks lk = (if lk \<noteq> PtableLock then [kacquire PtableLock, krelease lk] else [])"

definition sleep :: "chan \<Rightarrow> lockid \<Rightarrow> 'z kern_scheme \<Rightarrow> 'z kern_scheme res" where
  "sleep c lk s =
     rbind (myproc s) (\<lambda>(p, s).
     case p of
       None \<Rightarrow> Panic ''sleep''
     | Some p \<Rightarrow>
         rbind (run_calls (sleep_locks lk) s) (\<lambda>s.
         sched (InSleep lk) (upd_proc p (\<lambda>q. q\<lparr>p_chan := Some c, p_state := SLEEPING\<rparr>) s)))"

definition sleep_return :: "nat \<Rightarrow> lockid \<Rightarrow> 'z kern_scheme \<Rightarrow> 'z kern_scheme res" where
  "sleep_return p lk s =
     (let s = upd_proc p (\<lambda>q. q\<lparr>p_chan := None\<rparr>) s in
      if lk \<noteq> PtableLock
      then rbind (krelease PtableLock s) (\<lambda>s. kacquire lk s)
      else Ok s)"

subsection \<open>The critical sections of allocproc, exit and wait\<close>

text \<open>Lines 99-115 of \<^verbatim>\<open>allocproc\<close>.\<close>

definition allocproc_slot :: "'z kern_scheme \<Rightarrow> (nat option \<times> 'z kern_scheme) res" where
  "allocproc_slot s =
     rbind (kacquire PtableLock s) (\<lambda>s.
     case first_index (\<lambda>p. p_state p = UNUSED) (ptable s) of
       None \<Rightarrow> rbind (krelease PtableLock s) (\<lambda>s. Ok (None, s))
     | Some i \<Rightarrow>
         let s = upd_proc i (\<lambda>p. p\<lparr>p_state := EMBRYO, p_pid := nextpid s, p_cputicks := 0,
                                  p_nice := 0, p_is_privileged := 0\<rparr>) s;
             s = s\<lparr>nextpid := int32 (nextpid s + 1)\<rparr>
         in rbind (krelease PtableLock s) (\<lambda>s. Ok (Some i, s)))"

text \<open>The loop of \<^verbatim>\<open>exit\<close> that passes the children of \<open>cur\<close> to init, from slot \<open>i\<close> on.\<close>

function exit_reparent :: "nat \<Rightarrow> nat option \<Rightarrow> nat \<Rightarrow> proc list \<Rightarrow> proc list" where
  "exit_reparent cur init i tab =
     (if i < length tab then
        (if p_parent (tab ! i) = Some cur then
           let tab = tab[i := (tab ! i)\<lparr>p_parent := init\<rparr>];
               tab = (if p_state (tab ! i) = ZOMBIE then wakeup1 (map_option ChanProc init) tab else tab)
           in exit_reparent cur init (Suc i) tab
         else exit_reparent cur init (Suc i) tab)
      else tab)"
  by pat_completeness auto
termination
  by (relation "measure (\<lambda>(cur, init, i, tab). length tab - i)") (auto simp: wakeup1_def)

declare exit_reparent.simps [simp del]

text \<open>Lines 284-302 of \<^verbatim>\<open>exit\<close>, up to the switch to the scheduler.\<close>

definition exit_table :: "nat \<Rightarrow> 'z kern_scheme \<Rightarrow> 'z kern_scheme res" where
  "exit_table cur s =
     rbind (kacquire PtableLock s) (\<lambda>s.
     let tab = wakeup1 (map_option ChanProc (p_parent (ptable s ! cur))) (ptable s);
         tab = exit_reparent cur (initproc s) 0 tab
     in sched InExit (upd_proc cur (\<lambda>p. p\<lparr>p_state := ZOMBIE\<rparr>) (s\<lparr>ptable := tab\<rparr>)))"

text \<open>The scan of \<^verbatim>\<open>wait\<close>: an exited child, or whether there are children at all.\<close>

datatype wait_scan = Exited nat | Havekids bool

definition wait_search :: "nat \<Rightarrow> proc list \<Rightarrow> wait_scan" where
  "wait_search cur tab =
     (case first_index (\<lambda>p. p_parent p = Some cur \<and> p_state p = ZOMBIE) tab of
        Some i \<Rightarrow> Exited i
      | None \<Rightarrow> Havekids (list_ex (\<lambda>p. p_parent p = Some cur) tab))"

definition wait_clear :: "nat \<Rightarrow> 'z kern_scheme \<Rightarrow> 'z kern_scheme" where
  "wait_clear i s = upd_proc i (\<lambda>p. p\<lparr>p_pid := 0, p_parent := None,
     p_name := (p_name p)[0 := 0], p_killed := False, p_state := UNUSED\<rparr>) s"

text \<open>What \<^verbatim>\<open>fork\<close> copies into the new slot \<open>np\<close> (the page table, the duplicated files and the
  directory are what \<^verbatim>\<open>copyuvm\<close>, \<^verbatim>\<open>filedup\<close> and \<^verbatim>\<open>idup\<close> returned), and its last critical section.\<close>

definition fork_copy :: "nat \<Rightarrow> nat \<Rightarrow> nat option \<Rightarrow> nat option list \<Rightarrow> nat option \<Rightarrow> 'z kern_scheme \<Rightarrow> 'z kern_scheme" where
  "fork_copy cur np pgdir ofile cwd s =
     (let c = ptable s ! cur in
      upd_proc np (\<lambda>p. p\<lparr>p_pgdir := pgdir, p_sz := p_sz c, p_parent := Some cur,
        p_tf := (p_tf c)\<lparr>tf_eax := 0\<rparr>, p_nice := p_nice c, p_is_privileged := p_is_privileged c,
        p_ofile := ofile, p_cwd := cwd, p_name := safestrcpy (p_name p) (p_name c) 16\<rparr>) s)"

definition fork_ready :: "nat \<Rightarrow> 'z kern_scheme \<Rightarrow> 'z kern_scheme res" where
  "fork_ready np s =
     rbind (kacquire PtableLock s) (\<lambda>s.
     krelease PtableLock (upd_proc np (\<lambda>p. p\<lparr>p_state := RUNNABLE\<rparr>) s))"

text \<open>The end of \<^verbatim>\<open>allocproc\<close> for the stack page \<open>ks\<close>: the thread starts at \<^verbatim>\<open>forkret\<close>.\<close>

definition allocproc_stack :: "nat \<Rightarrow> nat \<Rightarrow> 'z kern_scheme \<Rightarrow> 'z kern_scheme" where
  "allocproc_stack i ks s = upd_proc i (\<lambda>p. p\<lparr>p_kstack := Some ks, p_context := Some AtForkret\<rparr>) s"

section \<open>Computing the operations\<close>

text \<open>Normal form of updated states: the machine is updated last.\<close>

lemma mach_outermost [simp]:
  "ptable_update f (mach_update g s) = mach_update g (ptable_update f s)"
  "nextpid_update h (mach_update g s) = mach_update g (nextpid_update h s)"
  "initproc_update i (mach_update g s) = mach_update g (initproc_update i s)"
  "ticks_update j (mach_update g s) = mach_update g (ticks_update j s)"
  by simp_all


definition curproc :: "'z kern_scheme \<Rightarrow> nat option" where
  "curproc s = cproc (cpus (mach s) ! me (mach s))"

text \<open>The states in which a kernel thread may enter \<^verbatim>\<open>ptable.lock\<close>.\<close>

definition table_free :: "'z kern_scheme \<Rightarrow> bool" where
  "table_free s \<longleftrightarrow> mach_ok (mach s) \<and> lock_free PtableLock (mach s)"

lemma table_freeD [simp]:
  "table_free s \<Longrightarrow> mach_ok (mach s)" "table_free s \<Longrightarrow> lock_free PtableLock (mach s)"
  by (simp_all add: table_free_def)

lemma cproc_push: "mach_ok m \<Longrightarrow> cproc (cpus (push m) ! me m) = cproc (cpus m ! me m)"
  by (simp add: cpus_push me_less)

lemma myproc_eq: "mach_ok (mach s) \<Longrightarrow> myproc s = Ok (curproc s, s\<lparr>mach := settle (mach s)\<rparr>)"
  by (simp add: myproc_def pushcli_push mycpu_me mach_ok_push popcli_push' Let_def curproc_def cproc_push)

lemma cproc_settle [simp]: "cproc (cpus (settle m) ! i) = cproc (cpus m ! i)"
  by (cases "me m < length (cpus m)"; cases "i = me m") (auto simp: settle_def list_update_beyond)

lemma curproc_upd [simp]:
  "curproc (s\<lparr>mach := settle (mach s)\<rparr>) = curproc s"
  "curproc (s\<lparr>ptable := t\<rparr>) = curproc s"
  by (simp_all add: curproc_def)

lemma curproc_acq: "mach_ok (mach s) \<Longrightarrow> curproc (s\<lparr>mach := acq L (mach s)\<rparr>) = curproc s"
  by (simp add: curproc_def cproc_push)

lemma wakeup_eq:
  "table_free s \<Longrightarrow>
   wakeup c s = Ok (s\<lparr>mach := settle (mach s), ptable := wakeup1 (Some c) (ptable s)\<rparr>)"
  by (simp add: wakeup_def kacquire_def krelease_def lock_simps)

lemma kill_eq:
  "table_free s \<Longrightarrow>
   kill pid s = Ok (case first_index (\<lambda>p. p_pid p = pid) (ptable s) of
     Some i \<Rightarrow> (0, s\<lparr>mach := settle (mach s), ptable := (ptable s)[i := (ptable s ! i)\<lparr>p_killed := True,
         p_state := (if p_state (ptable s ! i) = SLEEPING then RUNNABLE else p_state (ptable s ! i))\<rparr>]\<rparr>)
   | None \<Rightarrow> (- 1, s\<lparr>mach := settle (mach s)\<rparr>))"
  by (auto simp: kill_def kacquire_def krelease_def lock_simps upd_proc_def split: option.splits)

lemma nice_eq:
  "table_free s \<Longrightarrow> - 20 \<le> pr \<Longrightarrow> pr \<le> 19 \<Longrightarrow>
   nice pid pr s = Ok (case first_index (\<lambda>p. p_pid p = pid) (ptable s) of
     Some i \<Rightarrow> (0, s\<lparr>mach := settle (mach s), ptable := (ptable s)[i := (ptable s ! i)\<lparr>
         p_nice := \<bar>pr\<bar>, p_is_privileged := (if pr < 0 then 1 else 0)\<rparr>]\<rparr>)
   | None \<Rightarrow> (- 1, s\<lparr>mach := settle (mach s)\<rparr>))"
  by (auto simp: nice_def kacquire_def krelease_def lock_simps upd_proc_def split: option.splits)

lemma getprocinfo_eq:
  "table_free s \<Longrightarrow>
   getprocinfo pid info s =
     (case info of None \<Rightarrow> Ok (- 1, None, s\<lparr>mach := settle (mach s)\<rparr>)
      | Some out \<Rightarrow>
         (case first_index (\<lambda>p. p_pid p = pid \<and> p_state p \<noteq> UNUSED) (ptable s) of
            None \<Rightarrow> Ok (- 1, info, s\<lparr>mach := settle (mach s)\<rparr>)
          | Some i \<Rightarrow> (case can_access_procinfo (ptable s) (curproc s) (Some i) of
               None \<Rightarrow> Diverge
             | Some False \<Rightarrow> Ok (- 1, info, s\<lparr>mach := settle (mach s)\<rparr>)
             | Some True \<Rightarrow> Ok (0, Some (fill_procinfo (ptable s) (ptable s ! i) out),
                               s\<lparr>mach := settle (mach s)\<rparr>))))"
  by (auto simp: getprocinfo_def myproc_eq kacquire_def krelease_def lock_simps Let_def
      split: option.splits bool.splits)

lemma allocproc_slot_eq:
  "table_free s \<Longrightarrow>
   allocproc_slot s = Ok (case first_index (\<lambda>p. p_state p = UNUSED) (ptable s) of
     None \<Rightarrow> (None, s\<lparr>mach := settle (mach s)\<rparr>)
   | Some i \<Rightarrow> (Some i, s\<lparr>mach := settle (mach s), nextpid := int32 (nextpid s + 1),
        ptable := (ptable s)[i := (ptable s ! i)\<lparr>p_state := EMBRYO, p_pid := nextpid s,
           p_cputicks := 0, p_nice := 0, p_is_privileged := 0\<rparr>]\<rparr>))"
  by (auto simp: allocproc_slot_def kacquire_def krelease_def lock_simps upd_proc_def Let_def
      split: option.splits)

section \<open>The choice of the scheduler\<close>

definition best_upto :: "proc list \<Rightarrow> nat \<Rightarrow> nat option \<Rightarrow> bool" where
  "best_upto tab n best \<longleftrightarrow>
     (case best of
        None \<Rightarrow> \<forall>j<n. p_state (tab ! j) \<noteq> RUNNABLE
      | Some b \<Rightarrow> b < n \<and> p_state (tab ! b) = RUNNABLE \<and>
          (\<forall>j<n. p_state (tab ! j) = RUNNABLE \<longrightarrow>
             p_nice (tab ! b) \<le> p_nice (tab ! j) \<and> (j < b \<longrightarrow> p_nice (tab ! b) < p_nice (tab ! j))))"

lemma scheduler_scan_best_upto:
  "best_upto tab i best \<Longrightarrow> i \<le> length tab \<Longrightarrow> best_upto tab (length tab) (scheduler_scan tab i best)"
proof (induction tab i best rule: scheduler_scan.induct)
  case (1 tab i best)
  show ?case
  proof (cases "i < length tab")
    case False
    then show ?thesis using 1 by (subst scheduler_scan.simps) simp
  next
    case True
    define best' where "best' = (if p_state (tab ! i) \<noteq> RUNNABLE then best
      else case best of None \<Rightarrow> Some i
           | Some b \<Rightarrow> if p_nice (tab ! i) < p_nice (tab ! b) then Some i else Some b)"
    have step: "scheduler_scan tab i best = scheduler_scan tab (Suc i) best'"
      using True by (subst scheduler_scan.simps) (simp add: best'_def split: option.splits)
    have "best_upto tab (Suc i) best'"
      using 1(4) by (fastforce simp: best_upto_def best'_def less_Suc_eq split: option.splits)
    then have "best_upto tab (length tab) (scheduler_scan tab (Suc i) best')"
      using 1(1,2,3) True by (auto simp: best'_def Suc_leI split: if_splits option.splits)
    then show ?thesis by (simp add: step)
  qed
qed

lemma scheduler_scan_best: "best_upto tab (length tab) (scheduler_scan tab 0 None)"
  by (rule scheduler_scan_best_upto) (simp_all add: best_upto_def)

lemma scheduler_scan_SomeD:
  assumes "scheduler_scan tab 0 None = Some p"
  shows "p < length tab" and "p_state (tab ! p) = RUNNABLE"
  using scheduler_scan_best [of tab] assms by (simp_all add: best_upto_def)

section \<open>Ancestors\<close>

definition parent_rel :: "proc list \<Rightarrow> (nat \<times> nat) set" where
  "parent_rel tab = {(i, j). p_parent (tab ! i) = Some j}"

text \<open>Every parent is a slot with a smaller, non-negative pid.\<close>

definition parents_ok :: "proc list \<Rightarrow> bool" where
  "parents_ok tab \<longleftrightarrow> (\<forall>i<length tab. \<forall>j. p_parent (tab ! i) = Some j \<longrightarrow>
     j < length tab \<and> 0 \<le> p_pid (tab ! j) \<and> p_pid (tab ! j) < p_pid (tab ! i))"

lemma can_access_procinfo_None [simp]: "can_access_procinfo tab caller None = Some False"
  by (subst can_access_procinfo.simps) simp

lemma can_access_procinfo_terminates:
  assumes "parents_ok tab" and "t < length tab"
  shows "can_access_procinfo tab (Some c) (Some t) = Some ((t, c) \<in> (parent_rel tab)\<^sup>*)"
  using assms(2)
proof (induction "nat (p_pid (tab ! t))" arbitrary: t rule: less_induct)
  case less
  show ?case
  proof (cases "t = c")
    case True
    then show ?thesis by (subst can_access_procinfo.simps) simp
  next
    case False
    have anc: "(t, c) \<in> (parent_rel tab)\<^sup>* \<longleftrightarrow> (\<exists>j. p_parent (tab ! t) = Some j \<and> (j, c) \<in> (parent_rel tab)\<^sup>*)"
      using False by (auto simp: parent_rel_def elim: converse_rtranclE intro: converse_rtrancl_into_rtrancl)
    show ?thesis
    proof (cases "p_parent (tab ! t)")
      case None
      with False anc show ?thesis by (subst can_access_procinfo.simps) simp
    next
      case (Some j)
      with assms(1) less.prems have "j < length tab" "nat (p_pid (tab ! j)) < nat (p_pid (tab ! t))"
        by (auto simp: parents_ok_def)
      from less.hyps [OF this(2,1)] False anc Some show ?thesis
        by (subst can_access_procinfo.simps) simp
    qed
  qed
qed

subsection \<open>Concrete processes\<close>

definition zero_tf :: trapframe where
  "zero_tf = \<lparr>tf_edi = 0, tf_esi = 0, tf_ebp = 0, tf_ebx = 0, tf_edx = 0, tf_ecx = 0, tf_eax = 0,
     tf_gs = 0, tf_fs = 0, tf_es = 0, tf_ds = 0, tf_trapno = 0, tf_err = 0, tf_eip = 0, tf_cs = 0,
     tf_eflags = 0, tf_esp = 0, tf_ss = 0\<rparr>"

definition free_proc :: proc where
  "free_proc = \<lparr>p_sz = 0, p_pgdir = None, p_kstack = None, p_state = UNUSED, p_pid = 0, p_parent = None,
     p_tf = zero_tf, p_context = None, p_chan = None, p_killed = False, p_cputicks = 0,
     p_ofile = replicate NOFILE None, p_cwd = None, p_name = replicate 16 0, p_nice = 0, p_is_privileged = 0\<rparr>"

definition first_proc :: proc where
  "first_proc = free_proc\<lparr>p_sz := 4096, p_pgdir := Some 8192, p_kstack := Some 4096, p_state := RUNNABLE,
     p_pid := 1, p_context := Some AtForkret\<rparr>"

end
