(* ===== verification/Proc_Sys.thy ===== *)
theory Proc_Sys
  imports Proc_Table
begin

section \<open>Processes on several processors: the process table as a state machine\<close>

text \<open>
  The processors share the process table; each runs its scheduler thread or a process. A step of
  the system is one critical section of \<^verbatim>\<open>ptable.lock\<close> on one processor (by
  \<open>spinlock_mutual_exclusion\<close> these do not overlap), from the \<^verbatim>\<open>acquire\<close> to the matching
  \<^verbatim>\<open>release\<close>, which across a context switch are executed by different threads: the scheduler
  acquires the lock that the chosen process releases, and a process that gives up the processor
  acquires the lock that the scheduler releases.

  The invariant \<open>sys_inv\<close> holds in every reachable state: pids are unique, parents are alive and
  older than their children, a process is \<^verbatim>\<open>RUNNING\<close> exactly on the one processor whose
  \<^verbatim>\<open>cpu->proc\<close> points to it, and every process that may be scheduled has a saved context, a
  kernel stack and a page table. It is what the scheduler and \<^verbatim>\<open>getprocinfo\<close> rely on.
\<close>

subsection \<open>The machine during a context switch\<close>

lemma machine_upd_simps [simp]:
  "me (m\<lparr>hw_cr3 := x\<rparr>) = me m" "me (m\<lparr>hw_esp0 := y\<rparr>) = me m"
  "read_if (m\<lparr>hw_cr3 := x\<rparr>) = read_if m" "read_if (m\<lparr>hw_esp0 := y\<rparr>) = read_if m"
  "depth (m\<lparr>hw_cr3 := x\<rparr>) = depth m" "depth (m\<lparr>hw_esp0 := y\<rparr>) = depth m"
  "mach_ok (m\<lparr>hw_cr3 := x\<rparr>) = mach_ok m" "mach_ok (m\<lparr>hw_esp0 := y\<rparr>) = mach_ok m"
  "lock_free L (m\<lparr>hw_cr3 := x\<rparr>) = lock_free L m" "lock_free L (m\<lparr>hw_esp0 := y\<rparr>) = lock_free L m"
  "booted (m\<lparr>hw_cr3 := x\<rparr>) = booted m" "booted (m\<lparr>hw_esp0 := y\<rparr>) = booted m"
  by (simp_all add: me_def lapicid_def read_if_def depth_def mach_ok_def lock_free_def booted_def cpus_ok_def)

lemma push_cr3: "(push m)\<lparr>hw_cr3 := x\<rparr> = push (m\<lparr>hw_cr3 := x\<rparr>)"
  by (simp add: push_def Let_def cli_def)

lemma push_esp0: "(push m)\<lparr>hw_esp0 := x\<rparr> = push (m\<lparr>hw_esp0 := x\<rparr>)"
  by (simp add: push_def Let_def cli_def)

lemma acq_cr3: "(acq L m)\<lparr>hw_cr3 := x\<rparr> = acq L (m\<lparr>hw_cr3 := x\<rparr>)"
  by (simp add: acq_def flip: push_cr3)

lemma acq_esp0: "(acq L m)\<lparr>hw_esp0 := x\<rparr> = acq L (m\<lparr>hw_esp0 := x\<rparr>)"
  by (simp add: acq_def flip: push_esp0)

lemma hw_acq [simp]: "hw_cr3 (acq L m) = hw_cr3 m" "hw_esp0 (acq L m) = hw_esp0 m"
  "hw_cr3 (push m) = hw_cr3 m" "hw_esp0 (push m) = hw_esp0 m"
  by (simp_all add: acq_def push_def cli_def Let_def)

lemma cpu_scan_cproc:
  "first_index (\<lambda>c. apicid c = a) ((cpus m)[c := (cpus m ! c)\<lparr>cproc := p\<rparr>]) = first_index (\<lambda>c. apicid c = a) (cpus m)"
  by (rule cpu_scan_update) simp

lemma set_cproc_simps [simp]:
  "hw_me (set_cproc c p m) = hw_me m" "hw_if (set_cproc c p m) = hw_if m" "hw_apic (set_cproc c p m) = hw_apic m"
  "hw_cr3 (set_cproc c p m) = hw_cr3 m" "hw_esp0 (set_cproc c p m) = hw_esp0 m" "locks (set_cproc c p m) = locks m"
  "read_if (set_cproc c p m) = read_if m" "lapicid (set_cproc c p m) = lapicid m"
  "me (set_cproc c p m) = me m" "lock_free L (set_cproc c p m) = lock_free L m"
  "length (cpus (set_cproc c p m)) = length (cpus m)"
  by (simp_all add: set_cproc_def read_if_def lapicid_def me_def lock_free_def cpu_scan_cproc)

lemma ncli_set_cproc [simp]: "ncli (cpus (set_cproc c p m) ! i) = ncli (cpus m ! i)"
  by (cases "c < length (cpus m)"; cases "i = c") (auto simp: set_cproc_def list_update_beyond)

lemma depth_set_cproc [simp]: "depth (set_cproc c p m) = depth m"
  by (simp add: depth_def)

lemma mach_ok_set_cproc [simp]: "mach_ok (set_cproc c p m) = mach_ok m"
  unfolding mach_ok_def by (simp add: cpu_scan_cproc) (simp add: set_cproc_def cpu_scan_cproc)

lemma set_cproc_acq:
  assumes "mach_ok m" and "c = me m"
  shows "set_cproc c p (acq L m) = acq L (set_cproc c p m)"
proof -
  have lt: "me m < length (cpus m)" using assms(1) by (rule me_less)
  have cpu: "x\<lparr>intena := b, ncli := n, cproc := p\<rparr> = x\<lparr>cproc := p, intena := b, ncli := n\<rparr>" for x :: cpu and b n
    by simp
  have at: "cpus (set_cproc (me m) p m) ! me m = (cpus m ! me m)\<lparr>cproc := p\<rparr>"
    "(cpus (set_cproc (me m) p m))[me m := z] = (cpus m)[me m := z]" for z
    using lt by (simp_all add: set_cproc_def)
  have "cpus (set_cproc c p (acq L m)) = cpus (acq L (set_cproc c p m))"
    unfolding assms(2) using lt by (simp add: set_cproc_def [of _ _ "acq L m"] cpus_push at cpu)
  moreover have "locks (set_cproc c p (acq L m)) = locks (acq L (set_cproc c p m))"
    by simp
  moreover have "hw_if (set_cproc c p (acq L m)) = hw_if (acq L (set_cproc c p m))"
    by (simp add: hw_if_acq)
  ultimately show ?thesis
    by (intro machine.equality) simp_all
qed


text \<open>\<^verbatim>\<open>sleep\<close> enters \<^verbatim>\<open>ptable.lock\<close> and then leaves the lock of its caller.\<close>

lemma release_outer:
  assumes ok: "mach_ok m" and free: "lock_free lk m" "lock_free P m" and ne: "P \<noteq> lk"
  shows "release lk (acq P (acq lk m)) = Ok (acq P m)"
proof -
  let ?a = "acq P (acq lk m)"
  have oka: "mach_ok (acq lk m)" using ok by (rule mach_ok_acq)
  have okb: "mach_ok ?a" using oka by (rule mach_ok_acq)
  have lt: "me m < length (cpus m)" using ok by (rule me_less)
  have d: "depth (acq lk m) = depth m + 1" "depth ?a = depth m + 2" "0 \<le> depth m"
    using depth_acq [OF ok] depth_acq [OF oka] ok by (simp_all add: mach_ok_def)
  let ?c = "(cpus m ! me m)\<lparr>intena := (if depth m = 0 then read_if m else intena (cpus m ! me m)), ncli := depth m + 2\<rparr>"
  have cpa: "cpus (push (acq lk m)) = (cpus m)[me m := ?c]"
    using lt d by (simp add: cpus_push [of "acq lk m"] cpus_push [of m] add.commute)
  have "release lk ?a = Ok (?a\<lparr>locks := (locks ?a)(lk := (locks ?a lk)\<lparr>locked := 0, lcpu := None\<rparr>),
      cpus := (cpus m)[me m := ?c\<lparr>ncli := depth m + 1\<rparr>]\<rparr>)"
    using release_held [OF okb, of lk] d ne lt by (simp add: cpa Let_def add.commute)
  moreover have "?a\<lparr>locks := (locks ?a)(lk := (locks ?a lk)\<lparr>locked := 0, lcpu := None\<rparr>),
      cpus := (cpus m)[me m := ?c\<lparr>ncli := depth m + 1\<rparr>]\<rparr> = acq P m"
    by (intro machine.equality)
      (use ne free lt in \<open>auto simp: hw_if_acq cpus_push lock_free_def fun_eq_iff\<close>)
  ultimately show ?thesis by simp
qed

text \<open>A thread that comes back from \<^verbatim>\<open>swtch\<close> restores its own \<^verbatim>\<open>intena\<close> and then releases
  \<^verbatim>\<open>ptable.lock\<close>.\<close>

definition set_intena :: "bool \<Rightarrow> machine \<Rightarrow> machine" where
  "set_intena b m = m\<lparr>cpus := (cpus m)[me m := (cpus m ! me m)\<lparr>intena := b\<rparr>]\<rparr>"

definition set_flags :: "bool \<Rightarrow> machine \<Rightarrow> machine" where
  "set_flags b m = m\<lparr>cpus := (cpus m)[me m := (cpus m ! me m)\<lparr>intena := b\<rparr>],
     hw_if := (hw_if m)(hw_me m := b)\<rparr>"

lemma cpu_order: "c\<lparr>ncli := n, intena := b\<rparr> = c\<lparr>intena := b, ncli := n\<rparr>"
  by simp

lemma release_set_intena:
  assumes ok: "mach_ok m" and free: "lock_free L m" and d0: "depth m = 0"
  shows "release L (set_intena b (acq L m)) = Ok (set_flags b m)"
proof -
  let ?a = "set_intena b (acq L m)"
  have lt: "me m < length (cpus m)" using ok by (rule me_less)
  let ?c = "(cpus m ! me m)\<lparr>intena := b, ncli := 1\<rparr>"
  have cpa: "cpus ?a = (cpus m)[me m := ?c]"
    using lt d0 by (simp add: set_intena_def cpus_push cpu_order)
  have flds: "locks ?a = locks (acq L m)" "hw_me ?a = hw_me m" "hw_apic ?a = hw_apic m" "hw_if ?a = hw_if (acq L m)"
    "hw_cr3 ?a = hw_cr3 m" "hw_esp0 ?a = hw_esp0 m"
    by (simp_all add: set_intena_def)
  have scan: "first_index (\<lambda>c. apicid c = lapicid ?a) (cpus ?a) = first_index (\<lambda>c. apicid c = lapicid m) (cpus m)"
    unfolding cpa by (simp add: lapicid_def flds cpu_scan_update)
  then have me: "me ?a = me m" by (simp add: me_def)
  have dep: "depth ?a = 1" using lt by (simp add: depth_def me cpa)
  have off: "\<not> read_if ?a" by (simp add: read_if_def flds hw_if_acq)
  have okb: "mach_ok ?a" using ok by (simp add: mach_ok_def scan dep off)
  have nc: "ncli (cpus m ! me m) = 0" using d0 by (simp add: depth_def)
  have "release L ?a = Ok (let m' = ?a\<lparr>locks := locks m, cpus := (cpus m)[me m := (cpus m ! me m)\<lparr>intena := b\<rparr>]\<rparr>
      in if b then sti m' else m')"
  proof -
    have "(locks ?a)(L := (locks ?a L)\<lparr>locked := 0, lcpu := None\<rparr>) = locks m"
      using free by (auto simp: flds lock_free_def)
    then show ?thesis
      using release_held [OF okb, of L] dep lt nc by (simp add: me cpa flds Let_def ncli_restore)
  qed
  also have "\<dots> = Ok (set_flags b m)"
    by (cases b) (auto intro!: machine.equality simp: set_intena_def set_flags_def sti_def hw_if_acq Let_def)
  finally show ?thesis .
qed

lemma switchuvm_eq:
  assumes "mach_ok (mach s)" and "p_kstack (ptable s ! i) = Some ks" and "p_pgdir (ptable s ! i) = Some pd"
  shows "switchuvm (Some i) s = Ok (s\<lparr>mach := settle ((mach s)
     \<lparr>hw_esp0 := (hw_esp0 (mach s))(hw_me (mach s) := ks + KSTACKSIZE),
      hw_cr3 := (hw_cr3 (mach s))(hw_me (mach s) := Some pd)\<rparr>)\<rparr>)"
  using assms
  by (simp add: switchuvm_def pushcli_push mycpu_me mach_ok_push push_esp0 push_cr3 popcli_push')

lemma sched_acq:
  assumes "mach s = acq PtableLock m" and "mach_ok m" and "depth m = 0"
    and "cproc (cpus m ! me m) = Some p" and "p_state (ptable s ! p) \<noteq> RUNNING"
  shows "sched r s = Ok (upd_proc p (\<lambda>q. q\<lparr>p_context := Some (AtSched (read_if m) r)\<rparr>) s)"
proof -
  have oka: "mach_ok (acq PtableLock m)" using assms(2) by (rule mach_ok_acq)
  have lt: "me m < length (cpus m)" using assms(2) by (rule me_less)
  have my: "myproc s = Ok (Some p, s)"
    using myproc_eq [of s] oka assms by (simp add: settle_acq curproc_def cproc_push)
  have "holding PtableLock (acq PtableLock m) = Ok (True, acq PtableLock m)"
    using holding_eq [OF oka, of PtableLock] assms(2) by (simp add: settle_acq)
  moreover have "mycpu (acq PtableLock m) = Ok (me m)"
    using mycpu_me [OF oka] by simp
  moreover have same: "s\<lparr>mach := acq PtableLock m\<rparr> = s" unfolding assms(1) [symmetric] by simp
  ultimately show ?thesis
    using assms(2-) lt by (simp add: sched_def my Let_def cpus_push assms(1) same)
qed

subsection \<open>Critical sections of one processor\<close>

definition kon :: "nat \<Rightarrow> 'z kern_scheme \<Rightarrow> 'z kern_scheme" where
  "kon k s = s\<lparr>mach := on_cpu k (mach s)\<rparr>"

text \<open>Where the chosen process continues, up to the release of the lock.\<close>

definition resume_process :: "nat \<Rightarrow> 'z kern_scheme \<Rightarrow> 'z kern_scheme res" where
  "resume_process p s =
     (case p_context (ptable s ! p) of
        None \<Rightarrow> Panic ''trap''
      | Some AtForkret \<Rightarrow> krelease PtableLock s
      | Some (AtSched b r) \<Rightarrow>
          rbind (sched_return b s) (\<lambda>s.
          case r of
            InYield \<Rightarrow> yield_return s
          | InSleep lk \<Rightarrow> rbind (sleep_return p lk s) (\<lambda>s. krelease lk s)
          | InExit \<Rightarrow> Panic ''zombie exit''))"

definition scheduler_round :: "nat \<Rightarrow> 'z kern_scheme \<Rightarrow> 'z kern_scheme res" where
  "scheduler_round k s =
     rbind (scheduler_switch k s) (\<lambda>(p, s).
     case p of None \<Rightarrow> Ok s | Some p \<Rightarrow> resume_process p s)"

definition yield_round :: "nat \<Rightarrow> 'z kern_scheme \<Rightarrow> 'z kern_scheme res" where
  "yield_round k s = rbind (yield s) (scheduler_resume k)"

definition sleep_round :: "nat \<Rightarrow> chan \<Rightarrow> lockid \<Rightarrow> 'z kern_scheme \<Rightarrow> 'z kern_scheme res" where
  "sleep_round k c lk s = rbind (kacquire lk s) (\<lambda>s. rbind (sleep c lk s) (scheduler_resume k))"

definition exit_round :: "nat \<Rightarrow> nat \<Rightarrow> 'z kern_scheme \<Rightarrow> 'z kern_scheme res" where
  "exit_round k p s = rbind (exit_table p s) (scheduler_resume k)"

definition wait_reap :: "nat \<Rightarrow> nat \<Rightarrow> 'z kern_scheme \<Rightarrow> 'z kern_scheme res" where
  "wait_reap p i s =
     rbind (kacquire PtableLock s) (\<lambda>s.
     if wait_search p (ptable s) = Exited i
     then krelease PtableLock (wait_clear i (upd_proc i (\<lambda>q. q\<lparr>p_kstack := None\<rparr>) s))
     else krelease PtableLock s)"

subsection \<open>Their effect\<close>

definition switched :: "machine \<Rightarrow> nat \<Rightarrow> nat option \<Rightarrow> machine \<Rightarrow> bool" where
  "switched m k c m' \<longleftrightarrow> booted m' \<and> map cproc (cpus m') = (map cproc (cpus m))[k := c]"

lemma booted_on_cpu [simp]: "booted (on_cpu k m) = booted m"
  by (simp add: booted_def cpus_ok_def)

lemma bootedD:
  assumes "booted m" and "k < length (cpus m)"
  shows "mach_ok (on_cpu k m)" and "me (on_cpu k m) = k" and "depth (on_cpu k m) = 0"
    and "lock_free L (on_cpu k m)"
proof -
  have "lock_inv (m, \<lambda>_. {})"
    using lock_inv_reach [OF reach_init assms(1)] .
  from lock_inv_mach_ok [OF this assms(2)]
  show "mach_ok (on_cpu k m)" "me (on_cpu k m) = k" "depth (on_cpu k m) = 0" by simp_all
  show "lock_free L (on_cpu k m)" using assms by (simp add: booted_def)
qed

lemma booted_cpu_upd:
  assumes "booted m" and "cpus m' = (cpus m)[i := c]" and "apicid c = apicid (cpus m ! i)"
    and "ncli c = ncli (cpus m ! i)" and "hw_apic m' = hw_apic m" and "locks m' = locks m"
  shows "booted m'"
proof -
  have "cpus_ok m'"
    using assms by (intro cpus_ok_upd [of m m' i c]) (auto simp: booted_def)
  moreover have "ncli (cpus m' ! j) = 0" if "j < length (cpus m)" for j
    using assms that by (cases "j = i") (auto simp: booted_def)
  ultimately show ?thesis
    using assms by (simp add: booted_def lock_free_def)
qed

lemma booted_settle: "booted m \<Longrightarrow> booted (settle m)"
  by (auto simp: settle_def intro: booted_cpu_upd)

lemma booted_set_cproc: "booted m \<Longrightarrow> booted (set_cproc c p m)"
  by (auto simp: set_cproc_def intro: booted_cpu_upd)

lemma booted_set_flags: "booted m \<Longrightarrow> booted (set_flags b m)"
  by (auto simp: set_flags_def intro: booted_cpu_upd)

lemma booted_sti: "booted m \<Longrightarrow> booted (sti m)"
  by (simp add: booted_def sti_def cpus_ok_def lock_free_def)

lemma map_upd_same: "(map f xs)[i := f (xs ! i)] = map f xs"
  by (cases "i < length xs") (auto simp: list_update_beyond simp flip: nth_map intro: list_update_id)

lemma map_cproc_simps:
  "map cproc (cpus (settle m)) = map cproc (cpus m)"
  "map cproc (cpus (set_flags b m)) = map cproc (cpus m)"
  "map cproc (cpus (set_cproc k c m)) = (map cproc (cpus m))[k := c]"
  "cpus (sti m) = cpus m"
  by (auto simp: settle_def set_flags_def set_cproc_def sti_def map_upd_same map_update)

lemmas booted_intros = booted_settle booted_set_cproc booted_set_flags booted_sti

text \<open>A process leaves the processor: the part common to \<^verbatim>\<open>yield\<close>, \<^verbatim>\<open>sleep\<close> and \<^verbatim>\<open>exit\<close>.\<close>

lemma switch_away:
  assumes b: "booted (mach s)" and k: "k < length (cpus (mach s))"
    and p: "cproc (cpus (mach s) ! k) = Some p" "p_state (t ! p) \<noteq> RUNNING"
  shows "\<exists>m'. rbind (sched r (s\<lparr>mach := acq PtableLock (on_cpu k (mach s)), ptable := t\<rparr>)) (scheduler_resume k) =
      Ok (s\<lparr>mach := m', ptable := t[p := (t ! p)\<lparr>p_context := Some (AtSched (hw_if (mach s) k) r)\<rparr>]\<rparr>) \<and>
      switched (mach s) k None m'"
proof -
  let ?m = "on_cpu k (mach s)"
  note ok = bootedD [OF b k]
  let ?s = "s\<lparr>mach := acq PtableLock ?m, ptable := t\<rparr>"
  have "sched r ?s = Ok (upd_proc p (\<lambda>q. q\<lparr>p_context := Some (AtSched (read_if ?m) r)\<rparr>) ?s)"
    using ok p by (intro sched_acq) simp_all
  moreover define m1 where "m1 = set_cproc k None (?m\<lparr>hw_cr3 := (hw_cr3 ?m)(k := None)\<rparr>)"
  have "scheduler_resume k (s'\<lparr>mach := acq PtableLock ?m\<rparr>) = Ok (s'\<lparr>mach := settle m1\<rparr>)" for s' :: "'a kern_scheme"
    using ok by (simp add: scheduler_resume_def switchkvm_def Let_def krelease_def acq_cr3 set_cproc_acq m1_def lock_simps)
  from this [of "s\<lparr>ptable := t[p := (t ! p)\<lparr>p_context := Some (AtSched (hw_if (mach s) k) r)\<rparr>]\<rparr>"]
  have "scheduler_resume k (s\<lparr>mach := acq PtableLock ?m, ptable := t[p := (t ! p)\<lparr>p_context := Some (AtSched (hw_if (mach s) k) r)\<rparr>]\<rparr>) =
      Ok (s\<lparr>mach := settle m1, ptable := t[p := (t ! p)\<lparr>p_context := Some (AtSched (hw_if (mach s) k) r)\<rparr>]\<rparr>)"
    by simp
  moreover have "switched (mach s) k None (settle m1)"
    using b by (simp add: switched_def m1_def map_cproc_simps booted_intros)
  ultimately show ?thesis by (auto simp: upd_proc_def)
qed

lemma myproc_acq:
  assumes "booted (mach s)" and "k < length (cpus (mach s))" and "cproc (cpus (mach s) ! k) = c"
  shows "myproc (s\<lparr>mach := acq L (on_cpu k (mach s))\<rparr>) = Ok (c, s\<lparr>mach := acq L (on_cpu k (mach s))\<rparr>)"
  using assms bootedD [OF assms(1,2)]
  by (simp add: myproc_eq mach_ok_acq settle_acq curproc_def cpus_push)

lemma yield_round_eq:
  assumes b: "booted (mach s)" and k: "k < length (cpus (mach s))"
    and p: "cproc (cpus (mach s) ! k) = Some p" "p < length (ptable s)"
  shows "\<exists>m' x. yield_round k (kon k s) = Ok (s\<lparr>ptable := (ptable s)
        [p := (ptable s ! p)\<lparr>p_state := RUNNABLE, p_context := Some (AtSched x InYield)\<rparr>], mach := m'\<rparr>) \<and>
      switched (mach s) k None m'"
proof -
  let ?t = "(ptable s)[p := (ptable s ! p)\<lparr>p_state := RUNNABLE\<rparr>]"
  have "yield_round k (kon k s) =
      rbind (sched InYield (s\<lparr>mach := acq PtableLock (on_cpu k (mach s)), ptable := ?t\<rparr>)) (scheduler_resume k)"
    using bootedD [OF b k] p myproc_acq [OF b k p(1), of PtableLock]
    by (simp add: yield_round_def yield_def kon_def kacquire_def lock_simps upd_proc_def)
  with switch_away [OF b k p(1), of ?t InYield] p(2) show ?thesis by auto
qed

lemma sleep_round_eq:
  assumes b: "booted (mach s)" and k: "k < length (cpus (mach s))"
    and p: "cproc (cpus (mach s) ! k) = Some p" "p < length (ptable s)"
  shows "\<exists>m' x. sleep_round k c lk (kon k s) = Ok (s\<lparr>ptable := (ptable s)
        [p := (ptable s ! p)\<lparr>p_chan := Some c, p_state := SLEEPING, p_context := Some (AtSched x (InSleep lk))\<rparr>], mach := m'\<rparr>) \<and>
      switched (mach s) k None m'"
proof -
  let ?t = "(ptable s)[p := (ptable s ! p)\<lparr>p_chan := Some c, p_state := SLEEPING\<rparr>]"
  note ok = bootedD [OF b k]
  have "sleep_round k c lk (kon k s) =
      rbind (sched (InSleep lk) (s\<lparr>mach := acq PtableLock (on_cpu k (mach s)), ptable := ?t\<rparr>)) (scheduler_resume k)"
    using ok p myproc_acq [OF b k p(1), of lk]
    by (auto simp: sleep_round_def sleep_def sleep_locks_def kon_def kacquire_def krelease_def lock_simps release_outer upd_proc_def)
  with switch_away [OF b k p(1), of ?t "InSleep lk"] p(2) show ?thesis by auto
qed

lemma exit_round_eq:
  assumes b: "booted (mach s)" and k: "k < length (cpus (mach s))"
    and p: "cproc (cpus (mach s) ! k) = Some p" "p < length tab"
    and tab: "tab = exit_reparent p (initproc s) 0 (wakeup1 (map_option ChanProc (p_parent (ptable s ! p))) (ptable s))"
  shows "\<exists>m' x. exit_round k p (kon k s) = Ok (s\<lparr>ptable := tab
        [p := (tab ! p)\<lparr>p_state := ZOMBIE, p_context := Some (AtSched x InExit)\<rparr>], mach := m'\<rparr>) \<and>
      switched (mach s) k None m'"
proof -
  let ?t = "tab[p := (tab ! p)\<lparr>p_state := ZOMBIE\<rparr>]"
  have "exit_round k p (kon k s) =
      rbind (sched InExit (s\<lparr>mach := acq PtableLock (on_cpu k (mach s)), ptable := ?t\<rparr>)) (scheduler_resume k)"
    using bootedD [OF b k]
    by (simp add: exit_round_def exit_table_def kon_def kacquire_def lock_simps upd_proc_def Let_def tab)
  with switch_away [OF b k p(1), of ?t InExit] p(2) show ?thesis by auto
qed

text \<open>Releasing after the processor was handed to the process \<open>p\<close>.\<close>

lemma resume_process_eq:
  assumes m: "mach_ok m" "depth m = 0" "\<And>L. lock_free L m" and b: "booted m"
    and ctx: "p_context (t ! p) = Some x" "\<And>z. x \<noteq> AtSched z InExit" and p: "p < length t"
  shows "\<exists>m' t'. resume_process p (s\<lparr>ptable := t, mach := acq PtableLock m\<rparr>) = Ok (s\<lparr>ptable := t', mach := m'\<rparr>) \<and>
      (t' = t \<or> t' = t[p := (t ! p)\<lparr>p_chan := None\<rparr>]) \<and>
      booted m' \<and> map cproc (cpus m') = map cproc (cpus m)"
proof (cases x)
  case AtForkret
  then show ?thesis
    using m b ctx(1) by (auto simp: resume_process_def krelease_def lock_simps map_cproc_simps booted_intros
        intro!: exI [of _ "settle m"] exI [of _ t])
next
  case (AtSched z r)
  let ?m = "set_flags z m"
  have ret: "sched_return z (s'\<lparr>mach := acq PtableLock m\<rparr>) = Ok (s'\<lparr>mach := set_intena z (acq PtableLock m)\<rparr>)"
    for s' :: "'a kern_scheme"
    using mycpu_me [OF mach_ok_acq [OF m(1)], of PtableLock]
    by (simp add: sched_return_def set_intena_def Let_def)
  have bm: "booted ?m" using b by (rule booted_set_flags)
  have lf: "\<And>L. lock_free L ?m" using bm by (simp add: booted_def)
  have okm: "mach_ok ?m"
  proof -
    have lt: "me m < length (cpus m)" using m(1) by (rule me_less)
    have scan: "first_index (\<lambda>c. apicid c = lapicid ?m) (cpus ?m) = first_index (\<lambda>c. apicid c = lapicid m) (cpus m)"
      by (simp add: set_flags_def lapicid_def cpu_scan_update)
    then have "me ?m = me m" by (simp add: me_def)
    with m(2) lt have "depth ?m = 0" by (simp add: depth_def set_flags_def)
    with m(1) scan show ?thesis by (simp add: mach_ok_def)
  qed
  have rel: "release PtableLock (set_intena z (acq PtableLock m)) = Ok ?m"
    using m by (simp add: release_set_intena)
  have fin: "booted ?m" "map cproc (cpus ?m) = map cproc (cpus m)"
    using b by (simp_all add: booted_intros map_cproc_simps)
  show ?thesis
  proof (cases r)
    case InYield
    then show ?thesis
      using AtSched ctx(1) ret rel fin by (auto simp: resume_process_def yield_return_def krelease_def)
  next
    case (InSleep lk)
    let ?t = "t[p := (t ! p)\<lparr>p_chan := None\<rparr>]"
    show ?thesis
    proof (cases "lk = PtableLock")
      case True
      with AtSched InSleep ctx(1) ret [of "s\<lparr>ptable := t\<rparr>"] rel fin show ?thesis
        by (auto simp: resume_process_def sleep_return_def krelease_def Let_def upd_proc_def)
    next
      case False
      with AtSched InSleep ctx(1) ret [of "s\<lparr>ptable := t\<rparr>"] rel fin lf okm show ?thesis
        by (auto simp: resume_process_def sleep_return_def krelease_def kacquire_def Let_def upd_proc_def
            lock_simps map_cproc_simps booted_intros intro!: exI [of _ "settle ?m"] exI [of _ ?t])
    qed
  next
    case InExit
    then show ?thesis using AtSched ctx(2) by blast
  qed
qed

lemma scheduler_round_eq:
  assumes b: "booted (mach s)" and k: "k < length (cpus (mach s))"
    and r: "\<And>p. p < length (ptable s) \<Longrightarrow> p_state (ptable s ! p) = RUNNABLE \<Longrightarrow>
       p_kstack (ptable s ! p) \<noteq> None \<and> p_pgdir (ptable s ! p) \<noteq> None \<and>
       (\<exists>x. p_context (ptable s ! p) = Some x \<and> (\<forall>z. x \<noteq> AtSched z InExit))"
  shows "\<exists>m'. case scheduler_scan (ptable s) 0 None of
      None \<Rightarrow> scheduler_round k (kon k s) = Ok (s\<lparr>mach := m'\<rparr>) \<and>
              booted m' \<and> map cproc (cpus m') = map cproc (cpus (mach s))
    | Some p \<Rightarrow> \<exists>c. scheduler_round k (kon k s) = Ok (s\<lparr>ptable := (ptable s)
                 [p := (ptable s ! p)\<lparr>p_state := RUNNING, p_chan := c\<rparr>], mach := m'\<rparr>) \<and>
              switched (mach s) k (Some p) m'"
proof -
  let ?m = "sti (on_cpu k (mach s))"
  have sti: "sti (on_cpu k (mach s)) = on_cpu k (sti (on_cpu k (mach s)))"
    by (simp add: sti_def on_cpu_def)
  have bm: "booted ?m" using b by (simp add: booted_sti)
  have k': "k < length (cpus ?m)" using k by (simp add: sti_def)
  have ok: "mach_ok ?m" "me ?m = k" "depth ?m = 0" "\<And>L. lock_free L ?m"
    using bootedD [OF bm k'] sti by auto
  show ?thesis
  proof (cases "scheduler_scan (ptable s) 0 None")
    case None
    then show ?thesis
      using ok bm by (auto simp: scheduler_round_def scheduler_switch_def kon_def kacquire_def krelease_def lock_simps
          map_cproc_simps booted_intros intro!: exI [of _ "settle ?m"])
  next
    case (Some p)
    note sel = scheduler_scan_SomeD [OF Some]
    from r [OF sel] obtain ks pd x where pr: "p_kstack (ptable s ! p) = Some ks" "p_pgdir (ptable s ! p) = Some pd"
      "p_context (ptable s ! p) = Some x" "\<And>z. x \<noteq> AtSched z InExit" by auto
    define m2 where "m2 = (set_cproc k (Some p) ?m)\<lparr>hw_esp0 := (hw_esp0 ?m)(hw_me ?m := ks + KSTACKSIZE),
      hw_cr3 := (hw_cr3 ?m)(hw_me ?m := Some pd)\<rparr>"
    have m2: "mach_ok m2" "depth m2 = 0" "\<And>L. lock_free L m2" "booted m2"
      using ok bm by (simp_all add: m2_def booted_intros)
    have c2: "map cproc (cpus m2) = (map cproc (cpus (mach s)))[k := Some p]"
      by (simp add: m2_def map_cproc_simps)
    let ?t = "(ptable s)[p := (ptable s ! p)\<lparr>p_state := RUNNING\<rparr>]"
    have "switchuvm (Some p) (s\<lparr>mach := acq PtableLock (set_cproc k (Some p) ?m)\<rparr>) = Ok (s\<lparr>mach := acq PtableLock m2\<rparr>)"
      using ok pr m2 by (simp add: switchuvm_eq mach_ok_acq acq_esp0 acq_cr3 settle_acq m2_def)
    then have "scheduler_round k (kon k s) = resume_process p (s\<lparr>ptable := ?t, mach := acq PtableLock m2\<rparr>)"
      using Some ok by (simp add: scheduler_round_def scheduler_switch_def kon_def kacquire_def lock_simps
          set_cproc_acq upd_proc_def)
    moreover have "p_context (?t ! p) = Some x" "p < length ?t" using pr sel by simp_all
    ultimately obtain m' t' where
      "scheduler_round k (kon k s) = Ok (s\<lparr>ptable := t', mach := m'\<rparr>)"
      "t' = ?t \<or> t' = ?t[p := (?t ! p)\<lparr>p_chan := None\<rparr>]" "booted m'" "map cproc (cpus m') = map cproc (cpus m2)"
      using resume_process_eq [OF m2(1,2,3,4), of ?t p x s] pr(4) by auto
    moreover have "\<exists>c. t' = (ptable s)[p := (ptable s ! p)\<lparr>p_state := RUNNING, p_chan := c\<rparr>]"
    proof -
      have "\<exists>c. t' ! p = (ptable s ! p)\<lparr>p_state := RUNNING, p_chan := c\<rparr>" "t' = (ptable s)[p := t' ! p]"
        using calculation(2) sel(1) by (auto intro: exI [of _ "p_chan (ptable s ! p)"])
      then show ?thesis by metis
    qed
    ultimately show ?thesis
      using Some c2 by (auto simp: switched_def)
  qed
qed

subsection \<open>The state machine\<close>

text \<open>The second component records which process is creating the slot of an \<^verbatim>\<open>EMBRYO\<close>: \<^verbatim>\<open>fork\<close> runs in
  two critical sections with the copying between them. A process that is inside \<^verbatim>\<open>fork\<close> does not
  call \<^verbatim>\<open>exit\<close>. The machine runs as long as the counter of pids, an \<^verbatim>\<open>int\<close>, does not overflow: after
  \<open>2 ^ 31\<close> process creations, where \<^verbatim>\<open>nextpid++\<close> is undefined in C and wraps around on the processor,
  pids can repeat.\<close>

type_synonym creators = "nat \<Rightarrow> nat option"

definition running_on :: "'z kern_scheme \<Rightarrow> nat \<Rightarrow> nat \<Rightarrow> bool" where
  "running_on s k p \<longleftrightarrow> k < length (cpus (mach s)) \<and> cproc (cpus (mach s) ! k) = Some p"

inductive sys_step :: "'z kern_scheme \<times> creators \<Rightarrow> 'z kern_scheme \<times> creators \<Rightarrow> bool" where
  sys_scheduler: "k < length (cpus (mach s)) \<Longrightarrow> cproc (cpus (mach s) ! k) = None \<Longrightarrow>
     scheduler_round k (kon k s) = Ok s' \<Longrightarrow> sys_step (s, own) (s', own)"
| sys_yield: "running_on s k p \<Longrightarrow> yield_round k (kon k s) = Ok s' \<Longrightarrow> sys_step (s, own) (s', own)"
| sys_sleep: "running_on s k p \<Longrightarrow> sleep_round k c lk (kon k s) = Ok s' \<Longrightarrow> sys_step (s, own) (s', own)"
| sys_wakeup: "k < length (cpus (mach s)) \<Longrightarrow> wakeup c (kon k s) = Ok s' \<Longrightarrow> sys_step (s, own) (s', own)"
| sys_kill: "k < length (cpus (mach s)) \<Longrightarrow> kill pid (kon k s) = Ok (r, s') \<Longrightarrow> sys_step (s, own) (s', own)"
| sys_nice: "k < length (cpus (mach s)) \<Longrightarrow> nice pid pr (kon k s) = Ok (r, s') \<Longrightarrow> sys_step (s, own) (s', own)"
| sys_alloc: "running_on s k p \<Longrightarrow> nextpid s < 2147483647 \<Longrightarrow> allocproc_slot (kon k s) = Ok (Some i, s') \<Longrightarrow>
     sys_step (s, own) (s', own(i := Some p))"
| sys_fork_fail: "running_on s k p \<Longrightarrow> own i = Some p \<Longrightarrow>
     sys_step (s, own) (upd_proc i (\<lambda>q. q\<lparr>p_kstack := None, p_state := UNUSED\<rparr>) s, own(i := None))"
| sys_fork_done: "running_on s k p \<Longrightarrow> own i = Some p \<Longrightarrow>
     fork_ready i (fork_copy p i (Some pd) files dir (allocproc_stack i ks (kon k s))) = Ok s' \<Longrightarrow>
     sys_step (s, own) (s', own(i := None))"
| sys_exit: "running_on s k p \<Longrightarrow> initproc s \<noteq> Some p \<Longrightarrow> (\<forall>i. own i \<noteq> Some p) \<Longrightarrow>
     exit_round k p (kon k s) = Ok s' \<Longrightarrow> sys_step (s, own) (s', own)"
| sys_wait: "running_on s k p \<Longrightarrow> wait_reap p i (kon k s) = Ok s' \<Longrightarrow> sys_step (s, own) (s', own)"

text \<open>The state \<^verbatim>\<open>main\<close> and \<^verbatim>\<open>userinit\<close> leave: only the first process, in slot \<open>ini\<close>.\<close>

definition sys_start :: "'z kern_scheme \<Rightarrow> bool" where
  "sys_start s \<longleftrightarrow> booted (mach s) \<and> length (ptable s) = NPROC \<and> nextpid s = 2 \<and>
     (\<forall>k<length (cpus (mach s)). cproc (cpus (mach s) ! k) = None) \<and>
     (\<exists>ini<NPROC. initproc s = Some ini \<and>
        (let p = ptable s ! ini in p_state p = RUNNABLE \<and> p_pid p = 1 \<and> p_parent p = None \<and>
           p_context p = Some AtForkret \<and> p_kstack p \<noteq> None \<and> p_pgdir p \<noteq> None) \<and>
        (\<forall>i<NPROC. i \<noteq> ini \<longrightarrow> p_state (ptable s ! i) = UNUSED \<and> p_pid (ptable s ! i) = 0 \<and>
           p_parent (ptable s ! i) = None))"

inductive sys_reach :: "'z kern_scheme \<times> creators \<Rightarrow> bool" where
  sys_reach_start: "sys_start s \<Longrightarrow> sys_reach (s, \<lambda>_. None)"
| sys_reach_step: "sys_reach x \<Longrightarrow> sys_step x y \<Longrightarrow> sys_reach y"

subsection \<open>The invariant\<close>

definition alive :: "procstate \<Rightarrow> bool" where
  "alive st \<longleftrightarrow> st = SLEEPING \<or> st = RUNNABLE \<or> st = RUNNING"

definition pids_ok :: "proc list \<Rightarrow> int \<Rightarrow> bool" where
  "pids_ok tab np \<longleftrightarrow> 0 < np \<and> np \<le> 2147483647 \<and>
     (\<forall>i<length tab. 0 \<le> p_pid (tab ! i) \<and> p_pid (tab ! i) < np \<and>
        (p_state (tab ! i) \<noteq> UNUSED \<longrightarrow> 0 < p_pid (tab ! i))) \<and>
     (\<forall>i<length tab. \<forall>j<length tab. p_state (tab ! i) \<noteq> UNUSED \<longrightarrow> p_state (tab ! j) \<noteq> UNUSED \<longrightarrow>
        p_pid (tab ! i) = p_pid (tab ! j) \<longrightarrow> i = j)"

definition tree_ok :: "proc list \<Rightarrow> nat \<Rightarrow> bool" where
  "tree_ok tab ini \<longleftrightarrow> ini < length tab \<and> alive (p_state (tab ! ini)) \<and> p_parent (tab ! ini) = None \<and>
     (\<forall>i<length tab. i \<noteq> ini \<longrightarrow> p_state (tab ! i) \<noteq> UNUSED \<longrightarrow> p_pid (tab ! ini) < p_pid (tab ! i)) \<and>
     (\<forall>i<length tab. \<forall>j. p_parent (tab ! i) = Some j \<longrightarrow>
        j < length tab \<and> alive (p_state (tab ! j)) \<and> p_pid (tab ! j) < p_pid (tab ! i) \<and>
        (alive (p_state (tab ! i)) \<or> p_state (tab ! i) = ZOMBIE)) \<and>
     (\<forall>i<length tab. i \<noteq> ini \<longrightarrow> alive (p_state (tab ! i)) \<or> p_state (tab ! i) = ZOMBIE \<longrightarrow>
        p_parent (tab ! i) \<noteq> None)"

definition run_ok :: "proc list \<Rightarrow> nat option list \<Rightarrow> bool" where
  "run_ok tab cp \<longleftrightarrow>
     (\<forall>l i. l < length cp \<and> cp ! l = Some i \<longrightarrow> i < length tab \<and> p_state (tab ! i) = RUNNING) \<and>
     (\<forall>l l' i. l < length cp \<and> l' < length cp \<and> cp ! l = Some i \<and> cp ! l' = Some i \<longrightarrow> l = l') \<and>
     (\<forall>i. i < length tab \<and> p_state (tab ! i) = RUNNING \<longrightarrow> (\<exists>l<length cp. cp ! l = Some i))"

definition ctx_ok :: "proc \<Rightarrow> bool" where
  "ctx_ok p \<longleftrightarrow> (p_state p = SLEEPING \<longrightarrow> p_chan p \<noteq> None) \<and>
     (p_state p = SLEEPING \<or> p_state p = RUNNABLE \<longrightarrow>
        (\<exists>x. p_context p = Some x \<and> (\<forall>z. x \<noteq> AtSched z InExit))) \<and>
     (alive (p_state p) \<longrightarrow> p_kstack p \<noteq> None \<and> p_pgdir p \<noteq> None)"

definition own_ok :: "proc list \<Rightarrow> creators \<Rightarrow> bool" where
  "own_ok tab own \<longleftrightarrow> (\<forall>i p. own i = Some p \<longrightarrow> i < length tab \<and> p < length tab \<and>
     p_state (tab ! i) = EMBRYO \<and> alive (p_state (tab ! p)) \<and> p_pid (tab ! p) < p_pid (tab ! i))"

definition tab_inv :: "proc list \<Rightarrow> int \<Rightarrow> nat \<Rightarrow> nat option list \<Rightarrow> creators \<Rightarrow> bool" where
  "tab_inv tab np ini cp own \<longleftrightarrow> length tab = NPROC \<and> pids_ok tab np \<and> tree_ok tab ini \<and>
     run_ok tab cp \<and> (\<forall>i<length tab. ctx_ok (tab ! i)) \<and> own_ok tab own"

definition sys_inv :: "'z kern_scheme \<times> creators \<Rightarrow> bool" where
  "sys_inv x \<longleftrightarrow> (case x of (s, own) \<Rightarrow> booted (mach s) \<and>
     (\<exists>ini. initproc s = Some ini \<and> tab_inv (ptable s) (nextpid s) ini (map cproc (cpus (mach s))) own))"

text \<open>Steps that move processes between the states of a living process keep pids and parents.\<close>

definition same_class :: "proc list \<Rightarrow> proc list \<Rightarrow> bool" where
  "same_class tab tab' \<longleftrightarrow> length tab' = length tab \<and> (\<forall>i<length tab.
     p_pid (tab' ! i) = p_pid (tab ! i) \<and> p_parent (tab' ! i) = p_parent (tab ! i) \<and>
     (p_state (tab' ! i) = p_state (tab ! i) \<or> alive (p_state (tab ! i)) \<and> alive (p_state (tab' ! i))))"

lemma alive_simps [simp]:
  "alive SLEEPING" "alive RUNNABLE" "alive RUNNING" "\<not> alive UNUSED" "\<not> alive EMBRYO" "\<not> alive ZOMBIE"
  by (simp_all add: alive_def)

lemma same_class_states:
  assumes "same_class tab tab'" and "i < length tab"
  shows "p_state (tab' ! i) = UNUSED \<longleftrightarrow> p_state (tab ! i) = UNUSED"
    and "p_state (tab' ! i) = EMBRYO \<longleftrightarrow> p_state (tab ! i) = EMBRYO"
    and "p_state (tab' ! i) = ZOMBIE \<longleftrightarrow> p_state (tab ! i) = ZOMBIE"
    and "alive (p_state (tab' ! i)) \<longleftrightarrow> alive (p_state (tab ! i))"
    and "p_pid (tab' ! i) = p_pid (tab ! i)" and "p_parent (tab' ! i) = p_parent (tab ! i)"
  using assms unfolding same_class_def by fastforce+

lemma same_class_ok:
  assumes "same_class tab tab'"
  shows "pids_ok tab np \<Longrightarrow> pids_ok tab' np" and "tree_ok tab ini \<Longrightarrow> tree_ok tab' ini"
    and "own_ok tab own \<Longrightarrow> own_ok tab' own"
proof -
  note st = same_class_states [OF assms]
  have len: "length tab' = length tab" using assms by (simp add: same_class_def)
  show "pids_ok tab np \<Longrightarrow> pids_ok tab' np"
    by (simp add: pids_ok_def len st cong: conj_cong)
  show "tree_ok tab ini \<Longrightarrow> tree_ok tab' ini"
    unfolding tree_ok_def len by (auto simp: st)
  show "own_ok tab own \<Longrightarrow> own_ok tab' own"
    unfolding own_ok_def len by (auto simp: st)
qed

text \<open>An update of one slot within its class.\<close>

lemma same_class_update:
  assumes "p_pid q = p_pid (tab ! i)" and "p_parent q = p_parent (tab ! i)"
    and "p_state q = p_state (tab ! i) \<or> alive (p_state (tab ! i)) \<and> alive (p_state q)"
  shows "same_class tab (tab[i := q])"
  using assms by (auto simp: same_class_def nth_upd)

lemma tab_inv_update:
  assumes inv: "tab_inv tab np ini cp own" and i: "i < length tab"
    and q: "p_pid q = p_pid (tab ! i)" "p_parent q = p_parent (tab ! i)"
      "p_state q = p_state (tab ! i) \<or> alive (p_state (tab ! i)) \<and> alive (p_state q)" "ctx_ok q"
    and run: "run_ok (tab[i := q]) cp'"
  shows "tab_inv (tab[i := q]) np ini cp' own"
  using inv same_class_ok [OF same_class_update [OF q(1,2,3)]] q(4) run i
  by (auto simp: tab_inv_def nth_upd)


subsection \<open>Preservation, step by step\<close>

lemma run_okD:
  assumes "run_ok tab cp"
  shows "l < length cp \<Longrightarrow> cp ! l = Some i \<Longrightarrow> i < length tab"
    and "l < length cp \<Longrightarrow> cp ! l = Some i \<Longrightarrow> p_state (tab ! i) = RUNNING"
    and "l < length cp \<Longrightarrow> l' < length cp \<Longrightarrow> cp ! l = Some i \<Longrightarrow> cp ! l' = Some i \<Longrightarrow> l = l'"
    and "i < length tab \<Longrightarrow> p_state (tab ! i) = RUNNING \<Longrightarrow> \<exists>l<length cp. cp ! l = Some i"
  using assms unfolding run_ok_def by blast+

lemma run_okI:
  assumes "\<And>l i. l < length cp \<Longrightarrow> cp ! l = Some i \<Longrightarrow> i < length tab \<and> p_state (tab ! i) = RUNNING"
    and "\<And>l l' i. l < length cp \<Longrightarrow> l' < length cp \<Longrightarrow> cp ! l = Some i \<Longrightarrow> cp ! l' = Some i \<Longrightarrow> l = l'"
    and "\<And>i. i < length tab \<Longrightarrow> p_state (tab ! i) = RUNNING \<Longrightarrow> \<exists>l<length cp. cp ! l = Some i"
  shows "run_ok tab cp"
  unfolding run_ok_def using assms by blast

lemma run_ok_away:
  assumes run: "run_ok tab cp" and k: "k < length cp" "cp ! k = Some p"
    and len: "length tab' = length tab"
    and same: "\<And>i. i < length tab \<Longrightarrow> i \<noteq> p \<Longrightarrow> (p_state (tab' ! i) = RUNNING) = (p_state (tab ! i) = RUNNING)"
    and p: "p_state (tab' ! p) \<noteq> RUNNING"
  shows "run_ok tab' (cp[k := None])"
proof (rule run_okI)
  fix l i
  assume l: "l < length (cp[k := None])" "cp[k := None] ! l = Some i"
  then have "l \<noteq> k" "cp ! l = Some i" by (auto simp: nth_upd split: if_splits)
  moreover from this have "i \<noteq> p" using run_okD(3) [OF run, of l k p] l k by auto
  ultimately show "i < length tab' \<and> p_state (tab' ! i) = RUNNING"
    using run_okD(1,2) [OF run, of l i] l same [of i] len by simp
next
  fix l l' i
  assume "l < length (cp[k := None])" "l' < length (cp[k := None])"
    "cp[k := None] ! l = Some i" "cp[k := None] ! l' = Some i"
  then show "l = l'" using run_okD(3) [OF run, of l l' i] by (auto simp: nth_upd split: if_splits)
next
  fix i
  assume i: "i < length tab'" "p_state (tab' ! i) = RUNNING"
  then have "i \<noteq> p" using p by auto
  with i same len obtain l where "l < length cp" "cp ! l = Some i"
    using run_okD(4) [OF run, of i] by auto
  with \<open>i \<noteq> p\<close> k show "\<exists>l<length (cp[k := None]). cp[k := None] ! l = Some i"
    by (intro exI [of _ l]) (auto simp: nth_upd)
qed

lemma run_ok_in:
  assumes run: "run_ok tab cp" and k: "k < length cp" "cp ! k = None" and p: "p < length tab"
    "p_state (tab ! p) \<noteq> RUNNING" and q: "p_state q = RUNNING"
  shows "run_ok (tab[p := q]) (cp[k := Some p])"
proof (rule run_okI)
  fix l i
  assume l: "l < length (cp[k := Some p])" "cp[k := Some p] ! l = Some i"
  show "i < length (tab[p := q]) \<and> p_state (tab[p := q] ! i) = RUNNING"
    using l run_okD(1,2) [OF run, of l i] p q by (auto simp: nth_upd split: if_splits)
next
  fix l l' i
  assume "l < length (cp[k := Some p])" "l' < length (cp[k := Some p])"
    "cp[k := Some p] ! l = Some i" "cp[k := Some p] ! l' = Some i"
  then show "l = l'"
    using run_okD(2) [OF run, of l p] run_okD(2) [OF run, of l' p] run_okD(3) [OF run, of l l' i] p
    by (auto simp: nth_upd split: if_splits)
next
  fix i
  assume i: "i < length (tab[p := q])" "p_state (tab[p := q] ! i) = RUNNING"
  show "\<exists>l<length (cp[k := Some p]). cp[k := Some p] ! l = Some i"
  proof (cases "i = p")
    case True
    then show ?thesis using k by (intro exI [of _ k]) simp
  next
    case False
    with i obtain l where "l < length cp" "cp ! l = Some i"
      using run_okD(4) [OF run, of i] by (auto simp: nth_upd)
    with k show ?thesis by (intro exI [of _ l]) (auto simp: nth_upd)
  qed
qed

lemma run_ok_same:
  "run_ok tab cp \<Longrightarrow> length tab' = length tab \<Longrightarrow>
   (\<And>i. i < length tab \<Longrightarrow> (p_state (tab' ! i) = RUNNING) = (p_state (tab ! i) = RUNNING)) \<Longrightarrow> run_ok tab' cp"
  by (rule run_okI) (use run_okD [of tab cp] in \<open>auto 0 3\<close>)

lemma tab_inv_run:
  assumes "tab_inv tab np ini cp own" and "k < length cp" and "cp ! k = Some p"
  shows "p < length tab" and "p_state (tab ! p) = RUNNING" and "ctx_ok (tab ! p)"
  using assms run_okD(1,2) [of tab cp k p] unfolding tab_inv_def by auto

text \<open>Waking up.\<close>

definition woken :: "proc list \<Rightarrow> proc list \<Rightarrow> bool" where
  "woken tab tab' \<longleftrightarrow> length tab' = length tab \<and> (\<forall>i<length tab. tab' ! i = tab ! i \<or>
     p_state (tab ! i) = SLEEPING \<and> tab' ! i = (tab ! i)\<lparr>p_state := RUNNABLE\<rparr>)"

lemma woken_wakeup1: "woken tab (wakeup1 c tab)"
  by (simp add: woken_def wakeup1_def)

lemma tab_inv_woken:
  assumes "tab_inv tab np ini cp own" and w: "woken tab tab'"
  shows "tab_inv tab' np ini cp own"
proof -
  have len: "length tab' = length tab" using w by (simp add: woken_def)
  have "same_class tab tab'" using w by (auto simp: same_class_def woken_def)
  moreover have "run_ok tab' cp"
    by (rule run_ok_same [of tab]) (use assms in \<open>auto simp: woken_def tab_inv_def\<close>)
  moreover have "ctx_ok (tab' ! i)" if i: "i < length tab" for i
  proof -
    have "ctx_ok (tab ! i)" using assms(1) i by (simp add: tab_inv_def)
    moreover have "tab' ! i = tab ! i \<or> p_state (tab ! i) = SLEEPING \<and> tab' ! i = (tab ! i)\<lparr>p_state := RUNNABLE\<rparr>"
      using w i by (simp add: woken_def)
    ultimately show ?thesis by (auto simp: ctx_ok_def)
  qed
  ultimately show ?thesis
    using assms(1) same_class_ok [of tab tab'] by (auto simp: tab_inv_def len)
qed

lemma tab_invD:
  assumes "tab_inv tab np ini cp own"
  shows "length tab = NPROC" and "pids_ok tab np" and "tree_ok tab ini" and "run_ok tab cp"
    and "i < length tab \<Longrightarrow> ctx_ok (tab ! i)" and "own_ok tab own"
  using assms by (simp_all add: tab_inv_def)

lemma pids_okD:
  assumes "pids_ok tab np" and "i < length tab"
  shows "0 \<le> p_pid (tab ! i)" and "p_pid (tab ! i) < np"
    and "p_state (tab ! i) \<noteq> UNUSED \<Longrightarrow> 0 < p_pid (tab ! i)"
  using assms by (simp_all add: pids_ok_def)

lemma pids_ok_counter: "pids_ok tab np \<Longrightarrow> 0 < np \<and> np \<le> 2147483647"
  by (simp add: pids_ok_def)

lemma own_okD:
  assumes "own_ok tab own" and "own i = Some p"
  shows "i < length tab" and "p < length tab" and "p_state (tab ! i) = EMBRYO"
    and "alive (p_state (tab ! p))" and "p_pid (tab ! p) < p_pid (tab ! i)"
  using assms by (simp_all add: own_ok_def)

lemma tree_okD:
  assumes "tree_ok tab ini"
  shows "ini < length tab" and "alive (p_state (tab ! ini))" and "p_parent (tab ! ini) = None"
    and "i < length tab \<Longrightarrow> i \<noteq> ini \<Longrightarrow> p_state (tab ! i) \<noteq> UNUSED \<Longrightarrow> p_pid (tab ! ini) < p_pid (tab ! i)"
    and "i < length tab \<Longrightarrow> p_parent (tab ! i) = Some j \<Longrightarrow> j < length tab"
    and "i < length tab \<Longrightarrow> p_parent (tab ! i) = Some j \<Longrightarrow> alive (p_state (tab ! j))"
    and "i < length tab \<Longrightarrow> p_parent (tab ! i) = Some j \<Longrightarrow> p_pid (tab ! j) < p_pid (tab ! i)"
    and "i < length tab \<Longrightarrow> p_parent (tab ! i) = Some j \<Longrightarrow> alive (p_state (tab ! i)) \<or> p_state (tab ! i) = ZOMBIE"
    and "i < length tab \<Longrightarrow> i \<noteq> ini \<Longrightarrow> alive (p_state (tab ! i)) \<or> p_state (tab ! i) = ZOMBIE \<Longrightarrow> p_parent (tab ! i) \<noteq> None"
  using assms unfolding tree_ok_def by blast+

lemma tree_okI:
  assumes "ini < length tab" and "alive (p_state (tab ! ini))" and "p_parent (tab ! ini) = None"
    and "\<And>i. i < length tab \<Longrightarrow> i \<noteq> ini \<Longrightarrow> p_state (tab ! i) \<noteq> UNUSED \<Longrightarrow> p_pid (tab ! ini) < p_pid (tab ! i)"
    and "\<And>i j. i < length tab \<Longrightarrow> p_parent (tab ! i) = Some j \<Longrightarrow> j < length tab \<and> alive (p_state (tab ! j)) \<and>
        p_pid (tab ! j) < p_pid (tab ! i) \<and> (alive (p_state (tab ! i)) \<or> p_state (tab ! i) = ZOMBIE)"
    and "\<And>i. i < length tab \<Longrightarrow> i \<noteq> ini \<Longrightarrow> alive (p_state (tab ! i)) \<or> p_state (tab ! i) = ZOMBIE \<Longrightarrow> p_parent (tab ! i) \<noteq> None"
  shows "tree_ok tab ini"
  unfolding tree_ok_def using assms by blast

lemma tree_ok_upd:
  assumes tree: "tree_ok tab ini" and i: "i < length tab" "i \<noteq> ini" "\<not> alive (p_state (tab ! i))"
    and st: "p_state q \<noteq> UNUSED \<Longrightarrow> p_pid (tab ! ini) < p_pid q"
    and par: "case p_parent q of
        None \<Rightarrow> \<not> alive (p_state q) \<and> p_state q \<noteq> ZOMBIE
      | Some j \<Rightarrow> j < length tab \<and> alive (p_state (tab ! j)) \<and> p_pid (tab ! j) < p_pid q \<and>
          (alive (p_state q) \<or> p_state q = ZOMBIE)"
  shows "tree_ok (tab[i := q]) ini"
proof (rule tree_okI)
  fix l j
  assume l: "l < length (tab[i := q])" "p_parent (tab[i := q] ! l) = Some j"
  show "j < length (tab[i := q]) \<and> alive (p_state (tab[i := q] ! j)) \<and>
    p_pid (tab[i := q] ! j) < p_pid (tab[i := q] ! l) \<and>
    (alive (p_state (tab[i := q] ! l)) \<or> p_state (tab[i := q] ! l) = ZOMBIE)"
  proof (cases "l = i")
    case True
    then have "p_parent q = Some j" using l i by simp
    then show ?thesis using True par i by (auto simp: nth_upd)
  next
    case False
    then have "l < length tab" "p_parent (tab ! l) = Some j" using l by (auto simp: nth_upd)
    with tree_okD(5-8) [OF tree this] i False show ?thesis by (auto simp: nth_upd)
  qed
qed (use tree_okD(1-4) [OF tree] tree_okD(9) [OF tree] i st par in
    \<open>auto simp: nth_upd split: if_splits option.splits\<close>)

lemma pids_ok_upd:
  assumes pids: "pids_ok tab np" and "np' = np \<or> np' = np + 1 \<and> np < 2147483647" and "0 \<le> p_pid q" and "p_pid q < np'"
    and new: "p_state q \<noteq> UNUSED \<Longrightarrow> 0 < p_pid q \<and>
      (\<forall>j<length tab. j \<noteq> i \<longrightarrow> p_state (tab ! j) \<noteq> UNUSED \<longrightarrow> p_pid (tab ! j) \<noteq> p_pid q)"
  shows "pids_ok (tab[i := q]) np'"
proof -
  have "0 \<le> p_pid (tab[i := q] ! j) \<and> p_pid (tab[i := q] ! j) < np' \<and>
      (p_state (tab[i := q] ! j) \<noteq> UNUSED \<longrightarrow> 0 < p_pid (tab[i := q] ! j))" if "j < length tab" for j
    using pids_okD [OF pids that] assms(2-4) new that by (auto simp: nth_upd)
  moreover have "j = l" if jl: "j < length tab" "l < length tab" and
      u: "p_state (tab[i := q] ! j) \<noteq> UNUSED" "p_state (tab[i := q] ! l) \<noteq> UNUSED"
        "p_pid (tab[i := q] ! j) = p_pid (tab[i := q] ! l)" for j l
  proof (cases "j = i \<or> l = i")
    case True
    then show ?thesis using jl u new by (auto simp: nth_upd split: if_splits)
  next
    case False
    then show ?thesis using jl u pids by (simp add: pids_ok_def nth_upd)
  qed
  moreover have "0 < np' \<and> np' \<le> 2147483647" using pids assms(2) by (auto simp: pids_ok_def)
  ultimately show ?thesis by (simp add: pids_ok_def)
qed

lemma own_ok_upd:
  assumes own: "own_ok tab own" and i: "i < length tab" "\<not> alive (p_state (tab ! i))"
  shows "own_ok (tab[i := q]) (own(i := None))"
proof -
  have "j < length tab \<and> p < length tab \<and> p_state (tab[i := q] ! j) = EMBRYO \<and>
      alive (p_state (tab[i := q] ! p)) \<and> p_pid (tab[i := q] ! p) < p_pid (tab[i := q] ! j)"
    if "(own(i := None)) j = Some p" for j p
  proof -
    from that have "j \<noteq> i" "own j = Some p" by (auto split: if_splits)
    with own_okD [OF own this(2)] i show ?thesis by (auto simp: nth_upd)
  qed
  then show ?thesis by (simp add: own_ok_def)
qed

text \<open>A new slot, and a slot given back.\<close>

lemma tab_inv_alloc:
  assumes inv: "tab_inv tab np ini cp own" and i: "i < length tab" "p_state (tab ! i) = UNUSED"
    and p: "p < length tab" "p_state (tab ! p) = RUNNING"
    and q: "p_pid q = np" "p_parent q = p_parent (tab ! i)" "p_state q = EMBRYO"
    and np: "np < 2147483647"
  shows "tab_inv (tab[i := q]) (np + 1) ini cp (own(i := Some p))"
proof -
  note pids = tab_invD(2) [OF inv] and tree = tree_okD [OF tab_invD(3) [OF inv]]
  have ne: "p \<noteq> i" "ini \<noteq> i" using i p tree(2) by auto
  have par: "p_parent (tab ! i) = None" using tree(8) [OF i(1)] i(2) by (cases "p_parent (tab ! i)") auto
  have "pids_ok (tab[i := q]) (np + 1)"
    by (rule pids_ok_upd [OF pids]) (use q np pids_okD [OF pids] pids_okD(3) [OF pids p(1)] p pids_okD(2) [OF pids p(1)] in fastforce)+
  moreover have "tree_ok (tab[i := q]) ini"
    by (rule tree_ok_upd [OF tab_invD(3) [OF inv]]) (use ne q i par pids_okD(2) [OF pids tree(1)] in auto)
  moreover have "run_ok (tab[i := q]) cp"
    by (rule run_ok_same [OF tab_invD(4) [OF inv]]) (use q i in \<open>auto simp: nth_upd\<close>)
  moreover have "\<forall>j<length (tab[i := q]). ctx_ok ((tab[i := q]) ! j)"
    using tab_invD(5) [OF inv] q by (auto simp: nth_upd ctx_ok_def)
  moreover have "own_ok (tab[i := q]) (own(i := Some p))"
  proof -
    have "own_ok (tab[i := q]) (own(i := None))"
      by (rule own_ok_upd [OF tab_invD(6) [OF inv]]) (use i in auto)
    note o = own_okD [OF this]
    show ?thesis
      unfolding own_ok_def
    proof (intro allI impI)
      fix j x
      assume a: "(own(i := Some p)) j = Some x"
      show "j < length (tab[i := q]) \<and> x < length (tab[i := q]) \<and> p_state (tab[i := q] ! j) = EMBRYO \<and>
          alive (p_state (tab[i := q] ! x)) \<and> p_pid (tab[i := q] ! x) < p_pid (tab[i := q] ! j)"
      proof (cases "j = i")
        case True
        then show ?thesis using a q i p ne pids_okD(2) [OF pids p(1)] by (auto simp: nth_upd)
      next
        case False
        then show ?thesis using a o [of j x] by simp
      qed
    qed
  qed
  ultimately show ?thesis using tab_invD(1) [OF inv] by (simp add: tab_inv_def)
qed

lemma tab_inv_free:
  assumes inv: "tab_inv tab np ini cp own" and i: "i < length tab"
    and st: "p_state (tab ! i) = EMBRYO \<or> p_state (tab ! i) = ZOMBIE"
    and q: "p_state q = UNUSED" "p_parent q = None" "0 \<le> p_pid q" "p_pid q \<le> p_pid (tab ! i)"
  shows "tab_inv (tab[i := q]) np ini cp (own(i := None))"
proof -
  note pids = tab_invD(2) [OF inv] and tree = tree_okD [OF tab_invD(3) [OF inv]]
  have ne: "ini \<noteq> i" using st tree(2) by auto
  have "pids_ok (tab[i := q]) np"
    by (rule pids_ok_upd [OF pids]) (use q pids_okD(2) [OF pids i] in auto)
  moreover have "tree_ok (tab[i := q]) ini"
    by (rule tree_ok_upd [OF tab_invD(3) [OF inv]]) (use ne q i st in auto)
  moreover have "run_ok (tab[i := q]) cp"
    by (rule run_ok_same [OF tab_invD(4) [OF inv]]) (use q i st in \<open>auto simp: nth_upd\<close>)
  moreover have "\<forall>j<length (tab[i := q]). ctx_ok ((tab[i := q]) ! j)"
    using tab_invD(5) [OF inv] q by (auto simp: nth_upd ctx_ok_def)
  moreover have "own_ok (tab[i := q]) (own(i := None))"
    by (rule own_ok_upd [OF tab_invD(6) [OF inv]]) (use i st in auto)
  ultimately show ?thesis using tab_invD(1) [OF inv] by (simp add: tab_inv_def)
qed

lemma tab_inv_fork:
  assumes inv: "tab_inv tab np ini cp own" and own: "own i = Some p"
    and q: "p_state q = RUNNABLE" "p_parent q = Some p" "p_pid q = p_pid (tab ! i)" "ctx_ok q"
  shows "tab_inv (tab[i := q]) np ini cp (own(i := None))"
proof -
  note pids = tab_invD(2) [OF inv] and tree = tree_okD [OF tab_invD(3) [OF inv]]
  note o = own_okD [OF tab_invD(6) [OF inv] own]
  have ne: "ini \<noteq> i" "p \<noteq> i" using o tree(2) by auto
  have "pids_ok (tab[i := q]) np"
    by (rule pids_ok_upd [OF pids]) (use pids q o pids_okD [OF pids o(1)] in \<open>auto simp: pids_ok_def\<close>)
  moreover have "tree_ok (tab[i := q]) ini"
    by (rule tree_ok_upd [OF tab_invD(3) [OF inv]]) (use ne q o tree(4) [OF o(1)] in auto)
  moreover have "run_ok (tab[i := q]) cp"
    by (rule run_ok_same [OF tab_invD(4) [OF inv]]) (use q o in \<open>auto simp: nth_upd\<close>)
  moreover have "\<forall>j<length (tab[i := q]). ctx_ok ((tab[i := q]) ! j)"
    using tab_invD(5) [OF inv] q by (auto simp: nth_upd)
  moreover have "own_ok (tab[i := q]) (own(i := None))"
    by (rule own_ok_upd [OF tab_invD(6) [OF inv]]) (use o in auto)
  ultimately show ?thesis using tab_invD(1) [OF inv] by (simp add: tab_inv_def)
qed

text \<open>The children of an exiting process go to init.\<close>

definition reparent :: "nat \<Rightarrow> nat option \<Rightarrow> nat \<Rightarrow> proc list \<Rightarrow> proc list" where
  "reparent cur init i tab =
     map (\<lambda>(j, p). if i \<le> j \<and> p_parent p = Some cur then p\<lparr>p_parent := init\<rparr> else p) (enumerate 0 tab)"

lemma reparent_nth:
  "j < length tab \<Longrightarrow> reparent cur init i tab ! j =
    (if i \<le> j \<and> p_parent (tab ! j) = Some cur then (tab ! j)\<lparr>p_parent := init\<rparr> else tab ! j)"
  and length_reparent [simp]: "length (reparent cur init i tab) = length tab"
  by (simp_all add: reparent_def nth_enumerate_eq)

lemma woken_trans:
  assumes "woken t u" and "woken u v"
  shows "woken t v"
proof -
  have "v ! i = t ! i \<or> p_state (t ! i) = SLEEPING \<and> v ! i = (t ! i)\<lparr>p_state := RUNNABLE\<rparr>"
    if "i < length t" for i
    using assms that unfolding woken_def by (elim conjE allE [of _ i]) auto
  then show ?thesis using assms by (simp add: woken_def)
qed

lemma woken_reparent: "woken (reparent cur init i tab) (exit_reparent cur init i tab)"
proof (induction cur init i tab rule: exit_reparent.induct)
  case (1 cur init i tab)
  show ?case
  proof (cases "i < length tab")
    case False
    then have "exit_reparent cur init i tab = tab" by (subst exit_reparent.simps) simp
    moreover have "reparent cur init i tab = tab"
      using False by (intro nth_equalityI) (auto simp: reparent_nth)
    ultimately show ?thesis by (simp add: woken_def)
  next
    case True
    define tab1 where "tab1 = (if p_parent (tab ! i) = Some cur then tab[i := (tab ! i)\<lparr>p_parent := init\<rparr>] else tab)"
    define tab2 where "tab2 = (if p_parent (tab ! i) = Some cur \<and> p_state (tab1 ! i) = ZOMBIE
       then wakeup1 (map_option ChanProc init) tab1 else tab1)"
    have step: "exit_reparent cur init i tab = exit_reparent cur init (Suc i) tab2"
      using True by (subst exit_reparent.simps) (simp add: tab1_def tab2_def Let_def)
    have IH: "woken (reparent cur init (Suc i) tab2) (exit_reparent cur init (Suc i) tab2)"
      using 1 True by (auto simp: tab1_def tab2_def)
    have "woken (reparent cur init i tab) (reparent cur init (Suc i) tab2)"
    proof -
      have len: "length tab2 = length tab" by (simp add: tab1_def tab2_def wakeup1_def)
      have "woken tab1 tab2" using woken_wakeup1 by (auto simp: tab2_def woken_def)
      then have w: "tab2 ! j = tab1 ! j \<or> p_state (tab1 ! j) = SLEEPING \<and> tab2 ! j = (tab1 ! j)\<lparr>p_state := RUNNABLE\<rparr>"
        if "j < length tab" for j
        using that by (simp add: woken_def tab1_def split: if_splits)
      have e: "reparent cur init i tab ! j = (if Suc i \<le> j \<and> p_parent (tab1 ! j) = Some cur
          then (tab1 ! j)\<lparr>p_parent := init\<rparr> else tab1 ! j)" if "j < length tab" for j
        using that by (cases "j = i") (auto simp: reparent_nth tab1_def nth_upd Suc_le_eq)
      have "reparent cur init (Suc i) tab2 ! j = reparent cur init i tab ! j \<or>
          p_state (reparent cur init i tab ! j) = SLEEPING \<and>
          reparent cur init (Suc i) tab2 ! j = (reparent cur init i tab ! j)\<lparr>p_state := RUNNABLE\<rparr>"
        if "j < length tab" for j
        using w [OF that] that unfolding e [OF that] by (auto simp: len reparent_nth)
      then show ?thesis by (simp add: woken_def len)
    qed
    then show ?thesis using IH woken_trans by (simp add: step)
  qed
qed


lemma tab_inv_exit:
  assumes inv: "tab_inv tab np ini cp own" and k: "k < length cp" "cp ! k = Some p"
    and ne: "p \<noteq> ini" and own: "\<And>i. own i \<noteq> Some p"
    and w: "woken (reparent p (Some ini) 0 tab) tab'"
    and q: "p_state q = ZOMBIE" "p_pid q = p_pid (tab' ! p)" "p_parent q = p_parent (tab' ! p)"
  shows "tab_inv (tab'[p := q]) np ini (cp[k := None]) own"
proof -
  let ?t = "tab'[p := q]"
  note tree = tree_okD [OF tab_invD(3) [OF inv]] and p = tab_inv_run [OF inv k]
  have len: "length tab' = length tab" using w by (simp add: woken_def)
  have pt: "p_pid (?t ! i) = p_pid (tab ! i) \<and>
      p_parent (?t ! i) = (if p_parent (tab ! i) = Some p then Some ini else p_parent (tab ! i)) \<and>
      (if i = p then p_state (?t ! i) = ZOMBIE
       else p_state (?t ! i) = p_state (tab ! i) \<or> p_state (tab ! i) = SLEEPING \<and> p_state (?t ! i) = RUNNABLE) \<and>
      (i \<noteq> p \<longrightarrow> p_context (?t ! i) = p_context (tab ! i) \<and> p_kstack (?t ! i) = p_kstack (tab ! i) \<and>
         p_pgdir (?t ! i) = p_pgdir (tab ! i) \<and> p_chan (?t ! i) = p_chan (tab ! i))"
    if i: "i < length tab" for i
  proof -
    have "tab' ! i = reparent p (Some ini) 0 tab ! i \<or> p_state (reparent p (Some ini) 0 tab ! i) = SLEEPING \<and>
        tab' ! i = (reparent p (Some ini) 0 tab ! i)\<lparr>p_state := RUNNABLE\<rparr>"
      using w i by (simp add: woken_def)
    then show ?thesis using i q len by (auto simp: nth_upd reparent_nth)
  qed
  have lnt: "length ?t = length tab" using len by simp
  have cls: "i \<noteq> p \<Longrightarrow> alive (p_state (?t ! i)) = alive (p_state (tab ! i))"
    "i \<noteq> p \<Longrightarrow> p_state (?t ! i) = ZOMBIE \<longleftrightarrow> p_state (tab ! i) = ZOMBIE"
    "p_state (?t ! i) = UNUSED \<longleftrightarrow> p_state (tab ! i) = UNUSED"
    "p_state (?t ! i) = EMBRYO \<longleftrightarrow> p_state (tab ! i) = EMBRYO" if "i < length tab" for i
    using pt [OF that] p(2) by (auto split: if_splits)
  have "tree_ok ?t ini"
  proof (rule tree_okI, unfold lnt)
    fix i j
    assume i: "i < length tab" and par: "p_parent (?t ! i) = Some j"
    show "j < length tab \<and> alive (p_state (?t ! j)) \<and> p_pid (?t ! j) < p_pid (?t ! i) \<and>
        (alive (p_state (?t ! i)) \<or> p_state (?t ! i) = ZOMBIE)"
    proof -
      have z: "alive (p_state (?t ! i)) \<or> p_state (?t ! i) = ZOMBIE"
      proof (cases "i = p")
        case False
        obtain x where "p_parent (tab ! i) = Some x" using par pt [OF i] by (auto split: if_splits)
        from tree(8) [OF i this] False cls [OF i] show ?thesis by auto
      qed (use pt [OF i] in simp)
      show ?thesis
      proof (cases "p_parent (tab ! i) = Some p")
        case True
        then have j: "j = ini" using par pt [OF i] by simp
        have "p_pid (tab ! ini) < p_pid (tab ! p)" using tree(4) [OF p(1) ne] p(2) by simp
        then show ?thesis
          using tree(7) [OF i True] tree(1,2) j z pt [OF i] pt [OF tree(1)] cls [OF tree(1)] ne by auto
      next
        case False
        then have "p_parent (tab ! i) = Some j" "j \<noteq> p" using par pt [OF i] by auto
        with tree(5-7) [OF i this(1)] pt [OF i] pt [of j] cls(1) [of j] z show ?thesis by auto
      qed
    qed
  next
    fix i
    assume i: "i < length tab" "i \<noteq> ini" "alive (p_state (?t ! i)) \<or> p_state (?t ! i) = ZOMBIE"
    then have "alive (p_state (tab ! i)) \<or> p_state (tab ! i) = ZOMBIE"
      using p(2) cls(1,2) [OF i(1)] by (cases "i = p") auto
    from tree(9) [OF i(1,2) this] show "p_parent (?t ! i) \<noteq> None" using pt [OF i(1)] by auto
  next
    fix i
    assume i: "i < length tab" "i \<noteq> ini" "p_state (?t ! i) \<noteq> UNUSED"
    then show "p_pid (?t ! ini) < p_pid (?t ! i)"
      using tree(4) [OF i(1,2)] cls(3) [OF i(1)] pt [OF i(1)] pt [OF tree(1)] by simp
  qed (use tree(1-3) pt [OF tree(1)] cls(1) [OF tree(1)] ne in auto)
  moreover have "pids_ok ?t np"
    unfolding pids_ok_def lnt using tab_invD(2) [OF inv] pt cls(3) by (auto simp: pids_ok_def)
  moreover have "run_ok ?t (cp[k := None])"
  proof (rule run_ok_away [OF tab_invD(4) [OF inv] k lnt])
    show "(p_state (?t ! i) = RUNNING) = (p_state (tab ! i) = RUNNING)" if "i < length tab" "i \<noteq> p" for i
      using pt [OF that(1)] that by (auto split: if_splits)
    show "p_state (?t ! p) \<noteq> RUNNING" using p(1) q len by simp
  qed
  moreover have "ctx_ok (?t ! i)" if i: "i < length tab" for i
    using tab_invD(5) [OF inv i] pt [OF i] by (auto simp: ctx_ok_def split: if_splits)
  moreover have "own_ok ?t own"
    unfolding own_ok_def lnt
  proof (intro allI impI)
    fix i x
    assume o: "own i = Some x"
    note o' = own_okD [OF tab_invD(6) [OF inv] o]
    have "x \<noteq> p" using o own by auto
    then show "i < length tab \<and> x < length tab \<and> p_state (?t ! i) = EMBRYO \<and> alive (p_state (?t ! x)) \<and> p_pid (?t ! x) < p_pid (?t ! i)"
      using o' cls [OF o'(1)] cls [OF o'(2)] pt [OF o'(1)] pt [OF o'(2)] by auto
  qed
  ultimately show ?thesis using tab_invD(1) [OF inv] lnt by (simp add: tab_inv_def)
qed

subsection \<open>Every step keeps the invariant\<close>

lemma sys_invE:
  assumes "sys_inv (s, own)"
  obtains ini where "booted (mach s)" "initproc s = Some ini"
    "tab_inv (ptable s) (nextpid s) ini (map cproc (cpus (mach s))) own"
  using assms by (auto simp: sys_inv_def)

lemma sys_invI:
  "booted (mach s) \<Longrightarrow> initproc s = Some ini \<Longrightarrow>
   tab_inv (ptable s) (nextpid s) ini (map cproc (cpus (mach s))) own \<Longrightarrow> sys_inv (s, own)"
  by (simp add: sys_inv_def)

lemma table_free_kon: "booted (mach s) \<Longrightarrow> k < length (cpus (mach s)) \<Longrightarrow> table_free (kon k s)"
  using bootedD [of "mach s" k] by (simp add: table_free_def kon_def)

lemma kon_fields [simp]:
  "ptable (kon k s) = ptable s" "nextpid (kon k s) = nextpid s" "initproc (kon k s) = initproc s"
  "mach (kon k s) = on_cpu k (mach s)"
  by (simp_all add: kon_def)

lemma settle_kon:
  "booted m \<Longrightarrow> booted (settle (on_cpu k m))" "map cproc (cpus (settle (on_cpu k m))) = map cproc (cpus m)"
  by (simp_all add: booted_settle map_cproc_simps)

lemma running_onD: "running_on s k p \<Longrightarrow> k < length (cpus (mach s))"
  "running_on s k p \<Longrightarrow> cproc (cpus (mach s) ! k) = Some p"
  "running_on s k p \<Longrightarrow> k < length (map cproc (cpus (mach s)))"
  "running_on s k p \<Longrightarrow> map cproc (cpus (mach s)) ! k = Some p"
  by (simp_all add: running_on_def)

text \<open>While a process exchanges its lock \<open>lk\<close> for \<^verbatim>\<open>ptable.lock\<close> it holds one of them at any time.\<close>

lemma exchange_covered:
  assumes b: "booted (mach s)" and k: "k < length (cpus (mach s))" and ne: "lk \<noteq> PtableLock"
    and s1: "s1 = s\<lparr>mach := acq lk (on_cpu k (mach s))\<rparr>"
  shows "\<exists>sn. run_calls (take n (sleep_locks lk)) s1 = Ok sn \<and>
    (\<forall>l<length (cpus (mach s)). l \<noteq> k \<longrightarrow> kacquire lk (kon l sn) = Spin lk \<or> wakeup c (kon l sn) = Spin PtableLock)"
proof -
  let ?h = "\<lambda>_. {} :: lockid set" and ?m = "on_cpu k (mach s)"
  note ok = bootedD [OF b k]
  have at_k [simp]: "on_cpu k (acq L (on_cpu k m)) = acq L (on_cpu k m)" for L m by (simp add: on_cpu_def acq_def push_def Let_def cli_def)
  have i0: "lock_inv (mach s, ?h)" using lock_inv_reach [OF reach_init b] .
  have a1: "acquire lk ?m = Ok (acq lk ?m)" using ok by (simp add: lock_simps)
  have i1: "lock_inv (acq lk ?m, ?h(k := {lk}))" using lock_inv_acquire [OF i0 k a1] by simp
  have lk1: "k < length (cpus (acq lk ?m))" using k by (simp add: acq_def push_def Let_def)
  have a2: "acquire PtableLock (acq lk ?m) = Ok (acq PtableLock (acq lk ?m))" using ok ne by (simp add: lock_simps)
  have i2: "lock_inv (acq PtableLock (acq lk ?m), ?h(k := {PtableLock, lk}))"
    using lock_inv_acquire [OF i1 lk1, of PtableLock] a2 by simp
  have a3: "release lk (acq PtableLock (acq lk ?m)) = Ok (acq PtableLock ?m)" using release_outer [of ?m lk PtableLock] ok ne by simp
  have i3: "lock_inv (acq PtableLock ?m, ?h(k := {PtableLock}))" using lock_inv_acquire [OF i0 k, of PtableLock] ok by (simp add: lock_simps)
  have spin: "acquire L (on_cpu l m) = Spin L" if "lock_inv (m, ?h(k := H))" "L \<in> H" "l < length (cpus m)" "l \<noteq> k" for l L m H
    using acquire_cases [OF that(1,3), of L] that(2,4) by auto
  have len: "length (cpus (push m)) = length (cpus m)" for m by (simp add: push_def Let_def)
  let ?s2 = "s\<lparr>mach := acq PtableLock (acq lk ?m)\<rparr>" and ?s3 = "s\<lparr>mach := acq PtableLock ?m\<rparr>"
  have "run_calls (take n (sleep_locks lk)) s1 = Ok (if n = 0 then s1 else if n = 1 then ?s2 else ?s3)"
    using a2 a3 ne by (cases n rule: nat.exhaust; cases "n - 1") (auto simp: sleep_locks_def s1 kacquire_def krelease_def)
  moreover have "kacquire lk (kon l s1) = Spin lk" "kacquire lk (kon l ?s2) = Spin lk" "wakeup c (kon l ?s3) = Spin PtableLock"
    if "l < length (cpus (mach s))" "l \<noteq> k" for l
    using spin [OF i1, of lk l] spin [OF i2, of lk l] spin [OF i3, of PtableLock l] that
    by (simp_all add: s1 len kon_def kacquire_def wakeup_def)
  ultimately show ?thesis by auto
qed

text \<open>A slot changes within its class and no process starts or stops running.\<close>

lemma sys_inv_slot:
  assumes inv: "sys_inv (s, own)" and i: "i < length (ptable s)"
    and q: "p_pid q = p_pid (ptable s ! i)" "p_parent q = p_parent (ptable s ! i)" "ctx_ok q"
      "p_state q = p_state (ptable s ! i) \<or> p_state (ptable s ! i) = SLEEPING \<and> p_state q = RUNNABLE"
  shows "sys_inv (s\<lparr>ptable := (ptable s)[i := q], mach := settle (on_cpu k (mach s))\<rparr>, own)"
proof -
  from inv obtain ini where s: "booted (mach s)" "initproc s = Some ini"
    and t: "tab_inv (ptable s) (nextpid s) ini (map cproc (cpus (mach s))) own" by (rule sys_invE)
  have "run_ok ((ptable s)[i := q]) (map cproc (cpus (mach s)))"
    by (rule run_ok_same [OF tab_invD(4) [OF t]]) (use q(4) in \<open>auto simp: nth_upd\<close>)
  with t i q have "tab_inv ((ptable s)[i := q]) (nextpid s) ini (map cproc (cpus (mach s))) own"
    by (intro tab_inv_update) auto
  then show ?thesis using s by (intro sys_invI) (auto simp: settle_kon)
qed

lemma sys_inv_settle: "sys_inv (s, own) \<Longrightarrow> sys_inv (s\<lparr>mach := settle (on_cpu k (mach s))\<rparr>, own)"
  by (auto simp: sys_inv_def settle_kon)

lemma sys_inv_kill:
  assumes inv: "sys_inv (s, own)" and k: "k < length (cpus (mach s))" and r: "kill pid (kon k s) = Ok (r, s')"
  shows "sys_inv (s', own)"
proof -
  from inv obtain ini where s: "booted (mach s)"
    and t: "tab_inv (ptable s) (nextpid s) ini (map cproc (cpus (mach s))) own" by (rule sys_invE)
  show ?thesis
  proof (cases "first_index (\<lambda>p. p_pid p = pid) (ptable s)")
    case None
    then have "s' = s\<lparr>mach := settle (on_cpu k (mach s))\<rparr>"
      using r unfolding kill_eq [OF table_free_kon [OF s k]] by (simp add: kon_def)
    then show ?thesis using sys_inv_settle [OF inv] by simp
  next
    case (Some i)
    have i: "i < length (ptable s)" using Some by (rule first_index_SomeD)
    let ?q = "(ptable s ! i)\<lparr>p_killed := True,
         p_state := (if p_state (ptable s ! i) = SLEEPING then RUNNABLE else p_state (ptable s ! i))\<rparr>"
    have c: "ctx_ok ?q" using tab_invD(5) [OF t i] by (auto simp: ctx_ok_def)
    have s': "s' = s\<lparr>ptable := (ptable s)[i := ?q], mach := settle (on_cpu k (mach s))\<rparr>"
      using r Some unfolding kill_eq [OF table_free_kon [OF s k]] by (auto simp: kon_def)
    show ?thesis unfolding s' by (rule sys_inv_slot [OF inv i]) (use c in auto)
  qed
qed

lemma sys_inv_nice:
  assumes inv: "sys_inv (s, own)" and k: "k < length (cpus (mach s))" and r: "nice pid pr (kon k s) = Ok (r, s')"
  shows "sys_inv (s', own)"
proof -
  from inv obtain ini where s: "booted (mach s)"
    and t: "tab_inv (ptable s) (nextpid s) ini (map cproc (cpus (mach s))) own" by (rule sys_invE)
  show ?thesis
  proof (cases "- 20 \<le> pr \<and> pr \<le> 19")
    case False
    then have "s' = kon k s" using r by (auto simp: nice_def)
    then show ?thesis using inv by (simp add: sys_inv_def kon_def)
  next
    case pr: True
    show ?thesis
    proof (cases "first_index (\<lambda>p. p_pid p = pid) (ptable s)")
      case None
      then have "s' = s\<lparr>mach := settle (on_cpu k (mach s))\<rparr>"
        using r nice_eq [OF table_free_kon [OF s k], of pr pid] pr by (simp add: kon_def)
      then show ?thesis using sys_inv_settle [OF inv] by simp
    next
      case (Some i)
      have i: "i < length (ptable s)" using Some by (rule first_index_SomeD)
      let ?q = "(ptable s ! i)\<lparr>p_nice := \<bar>pr\<bar>, p_is_privileged := (if pr < 0 then 1 else 0)\<rparr>"
      have c: "ctx_ok ?q" using tab_invD(5) [OF t i] by (auto simp: ctx_ok_def)
      have s': "s' = s\<lparr>ptable := (ptable s)[i := ?q], mach := settle (on_cpu k (mach s))\<rparr>"
        using r Some nice_eq [OF table_free_kon [OF s k], of pr pid] pr by (simp add: kon_def)
      show ?thesis unfolding s' by (rule sys_inv_slot [OF inv i]) (use c in auto)
    qed
  qed
qed

lemma sys_inv_wakeup:
  assumes inv: "sys_inv (s, own)" and k: "k < length (cpus (mach s))" and r: "wakeup c (kon k s) = Ok s'"
  shows "sys_inv (s', own)"
proof -
  from inv obtain ini where s: "booted (mach s)" "initproc s = Some ini"
    and t: "tab_inv (ptable s) (nextpid s) ini (map cproc (cpus (mach s))) own" by (rule sys_invE)
  have "s' = s\<lparr>ptable := wakeup1 (Some c) (ptable s), mach := settle (on_cpu k (mach s))\<rparr>"
    using r wakeup_eq [OF table_free_kon [OF s(1) k]] by (simp add: kon_def)
  moreover have "tab_inv (wakeup1 (Some c) (ptable s)) (nextpid s) ini (map cproc (cpus (mach s))) own"
    using t woken_wakeup1 by (rule tab_inv_woken)
  ultimately show ?thesis using s by (intro sys_invI) (auto simp: settle_kon)
qed

lemma sys_inv_alloc:
  assumes inv: "sys_inv (s, own)" and on: "running_on s k p" and np: "nextpid s < 2147483647"
    and r: "allocproc_slot (kon k s) = Ok (Some i, s')"
  shows "sys_inv (s', own(i := Some p))"
proof -
  from inv obtain ini where s: "booted (mach s)" "initproc s = Some ini"
    and t: "tab_inv (ptable s) (nextpid s) ini (map cproc (cpus (mach s))) own" by (rule sys_invE)
  note p = tab_inv_run [OF t running_onD(3,4) [OF on]]
  let ?q = "(ptable s ! i)\<lparr>p_state := EMBRYO, p_pid := nextpid s, p_cputicks := 0, p_nice := 0, p_is_privileged := 0\<rparr>"
  from r have i: "first_index (\<lambda>p. p_state p = UNUSED) (ptable s) = Some i"
    and s': "s' = s\<lparr>nextpid := nextpid s + 1, ptable := (ptable s)[i := ?q], mach := settle (on_cpu k (mach s))\<rparr>"
    using allocproc_slot_eq [OF table_free_kon [OF s(1) running_onD(1) [OF on]]] pids_ok_counter [OF tab_invD(2) [OF t]] np
    by (auto simp: kon_def int32_id split: option.splits)
  have "tab_inv ((ptable s)[i := ?q]) (nextpid s + 1) ini (map cproc (cpus (mach s))) (own(i := Some p))"
    by (rule tab_inv_alloc [OF t first_index_SomeD(1,2) [OF i] p(1,2)]) (use np in simp_all)
  then show ?thesis using s s' by (intro sys_invI) (auto simp: settle_kon)
qed

lemma sys_inv_fork_fail:
  assumes inv: "sys_inv (s, own)" and own: "own i = Some p"
  shows "sys_inv (upd_proc i (\<lambda>q. q\<lparr>p_kstack := None, p_state := UNUSED\<rparr>) s, own(i := None))"
proof -
  from inv obtain ini where s: "booted (mach s)" "initproc s = Some ini"
    and t: "tab_inv (ptable s) (nextpid s) ini (map cproc (cpus (mach s))) own" by (rule sys_invE)
  note o = own_okD [OF tab_invD(6) [OF t] own]
  have par: "p_parent (ptable s ! i) = None"
    using tree_okD(8) [OF tab_invD(3) [OF t] o(1)] o(3) by (cases "p_parent (ptable s ! i)") auto
  have "tab_inv ((ptable s)[i := (ptable s ! i)\<lparr>p_kstack := None, p_state := UNUSED\<rparr>]) (nextpid s) ini
      (map cproc (cpus (mach s))) (own(i := None))"
    by (rule tab_inv_free [OF t o(1)]) (use o par pids_okD(1) [OF tab_invD(2) [OF t] o(1)] in auto)
  then show ?thesis using s by (intro sys_invI) (auto simp: upd_proc_def)
qed

lemma fork_ready_eq:
  "table_free s \<Longrightarrow> fork_ready i s =
     Ok (s\<lparr>ptable := (ptable s)[i := (ptable s ! i)\<lparr>p_state := RUNNABLE\<rparr>], mach := settle (mach s)\<rparr>)"
  by (simp add: fork_ready_def kacquire_def krelease_def lock_simps upd_proc_def)

lemma upd_proc_fields [simp]:
  "mach (upd_proc i f s) = mach s" "initproc (upd_proc i f s) = initproc s" "nextpid (upd_proc i f s) = nextpid s"
  "ptable (upd_proc i f s) = (ptable s)[i := f (ptable s ! i)]"
  by (simp_all add: upd_proc_def)

lemma upd_proc_ptable: "(upd_proc i f s)\<lparr>ptable := t\<rparr> = s\<lparr>ptable := t\<rparr>"
  by (simp add: upd_proc_def)

lemma fork_copy_upd:
  assumes "i < length (ptable s)" and "p_kstack x = Some ks" and "p_context x = Some AtForkret"
  shows "\<exists>q. fork_copy p i (Some pd) files dir (upd_proc i (\<lambda>y. x) s) = upd_proc i (\<lambda>_. q) s \<and>
    p_pid q = p_pid x \<and> p_parent q = Some p \<and> ctx_ok (q\<lparr>p_state := RUNNABLE\<rparr>)"
  using assms by (auto simp: fork_copy_def Let_def upd_proc_def ctx_ok_def)

lemma sys_inv_fork_done:
  assumes inv: "sys_inv (s, own)" and on: "running_on s k p" and own: "own i = Some p"
    and r: "fork_ready i (fork_copy p i (Some pd) files dir (allocproc_stack i ks (kon k s))) = Ok s'"
  shows "sys_inv (s', own(i := None))"
proof -
  from inv obtain ini where s: "booted (mach s)" "initproc s = Some ini"
    and t: "tab_inv (ptable s) (nextpid s) ini (map cproc (cpus (mach s))) own" by (rule sys_invE)
  note o = own_okD [OF tab_invD(6) [OF t] own]
  let ?x = "(ptable s ! i)\<lparr>p_kstack := Some ks, p_context := Some AtForkret\<rparr>"
  have "allocproc_stack i ks (kon k s) = upd_proc i (\<lambda>y. ?x) (kon k s)"
    by (simp add: allocproc_stack_def upd_proc_def)
  with fork_copy_upd [of i "kon k s" ?x ks p pd files dir] o(1) obtain q where
    c: "fork_copy p i (Some pd) files dir (allocproc_stack i ks (kon k s)) = upd_proc i (\<lambda>_. q) (kon k s)"
    and q: "p_pid q = p_pid (ptable s ! i)" "p_parent q = Some p" "ctx_ok (q\<lparr>p_state := RUNNABLE\<rparr>)"
    by auto
  have tf: "table_free (upd_proc i (\<lambda>_. q) (kon k s))"
    using bootedD [OF s(1) running_onD(1) [OF on]] unfolding table_free_def by simp
  have s': "s' = s\<lparr>ptable := (ptable s)[i := q\<lparr>p_state := RUNNABLE\<rparr>], mach := settle (on_cpu k (mach s))\<rparr>"
    using r o(1) unfolding c fork_ready_eq [OF tf] by (simp add: upd_proc_ptable) (simp add: kon_def)
  have "tab_inv ((ptable s)[i := q\<lparr>p_state := RUNNABLE\<rparr>]) (nextpid s) ini (map cproc (cpus (mach s))) (own(i := None))"
    by (rule tab_inv_fork [OF t own]) (use q in auto)
  then show ?thesis using s s' by (intro sys_invI) (auto simp: settle_kon)
qed

lemma sys_inv_wait:
  assumes inv: "sys_inv (s, own)" and on: "running_on s k p" and r: "wait_reap p i (kon k s) = Ok s'"
  shows "sys_inv (s', own)"
proof -
  from inv obtain ini where s: "booted (mach s)" "initproc s = Some ini"
    and t: "tab_inv (ptable s) (nextpid s) ini (map cproc (cpus (mach s))) own" by (rule sys_invE)
  note ok = bootedD [OF s(1) running_onD(1) [OF on]]
  show ?thesis
  proof (cases "wait_search p (ptable s) = Exited i")
    case False
    then have "s' = s\<lparr>mach := settle (on_cpu k (mach s))\<rparr>"
      using r ok by (simp add: wait_reap_def kacquire_def krelease_def lock_simps) (simp add: kon_def)
    then show ?thesis using sys_inv_settle [OF inv] by simp
  next
    case True
    then have "first_index (\<lambda>q. p_parent q = Some p \<and> p_state q = ZOMBIE) (ptable s) = Some i"
      by (auto simp: wait_search_def split: option.splits)
    note i = first_index_SomeD(1,2) [OF this]
    let ?q = "(ptable s ! i)\<lparr>p_kstack := None, p_pid := 0, p_parent := None,
      p_name := (p_name (ptable s ! i))[0 := 0], p_killed := False, p_state := UNUSED\<rparr>"
    have s': "s' = s\<lparr>ptable := (ptable s)[i := ?q], mach := settle (on_cpu k (mach s))\<rparr>"
      using r ok True i
      by (simp add: wait_reap_def wait_clear_def kacquire_def krelease_def lock_simps upd_proc_def)
        (simp add: kon_def)
    have "own i = None" using own_okD(3) [OF tab_invD(6) [OF t], of i] i(2) by (cases "own i") auto
    then have "own(i := None) = own" by auto
    moreover have "tab_inv ((ptable s)[i := ?q]) (nextpid s) ini (map cproc (cpus (mach s))) (own(i := None))"
      by (rule tab_inv_free [OF t i(1)]) (use i pids_okD(1) [OF tab_invD(2) [OF t] i(1)] in auto)
    ultimately show ?thesis using s s' by (intro sys_invI) (auto simp: settle_kon)
  qed
qed

lemma sys_inv_leave:
  assumes inv: "sys_inv (s, own)" and on: "running_on s k p"
    and q: "p_pid q = p_pid (ptable s ! p)" "p_parent q = p_parent (ptable s ! p)" "ctx_ok q"
      "alive (p_state q)" "p_state q \<noteq> RUNNING"
    and m: "switched (mach s) k None m'"
  shows "sys_inv (s\<lparr>ptable := (ptable s)[p := q], mach := m'\<rparr>, own)"
proof -
  from inv obtain ini where s: "booted (mach s)" "initproc s = Some ini"
    and t: "tab_inv (ptable s) (nextpid s) ini (map cproc (cpus (mach s))) own" by (rule sys_invE)
  note p = tab_inv_run [OF t running_onD(3,4) [OF on]]
  have "run_ok ((ptable s)[p := q]) ((map cproc (cpus (mach s)))[k := None])"
    by (rule run_ok_away [OF tab_invD(4) [OF t] running_onD(3,4) [OF on]]) (use p q in auto)
  with t p q have "tab_inv ((ptable s)[p := q]) (nextpid s) ini ((map cproc (cpus (mach s)))[k := None]) own"
    by (intro tab_inv_update) auto
  then show ?thesis using s m by (intro sys_invI) (auto simp: switched_def)
qed

lemma sys_inv_yield:
  assumes inv: "sys_inv (s, own)" and on: "running_on s k p"
  shows "\<exists>s'. yield_round k (kon k s) = Ok s' \<and> sys_inv (s', own)"
proof -
  from inv obtain ini where s: "booted (mach s)"
    and t: "tab_inv (ptable s) (nextpid s) ini (map cproc (cpus (mach s))) own" by (rule sys_invE)
  note p = tab_inv_run [OF t running_onD(3,4) [OF on]]
  obtain m' x where y: "yield_round k (kon k s) = Ok (s\<lparr>ptable := (ptable s)
        [p := (ptable s ! p)\<lparr>p_state := RUNNABLE, p_context := Some (AtSched x InYield)\<rparr>], mach := m'\<rparr>)"
      "switched (mach s) k None m'"
    using yield_round_eq [OF s running_onD(1,2) [OF on] p(1)] by blast
  have "sys_inv (s\<lparr>ptable := (ptable s)[p := (ptable s ! p)\<lparr>p_state := RUNNABLE,
      p_context := Some (AtSched x InYield)\<rparr>], mach := m'\<rparr>, own)"
    by (rule sys_inv_leave [OF inv on _ _ _ _ _ y(2)]) (use p(2,3) in \<open>auto simp: ctx_ok_def\<close>)
  with y(1) show ?thesis by blast
qed

lemma sys_inv_sleep:
  assumes inv: "sys_inv (s, own)" and on: "running_on s k p"
  shows "\<exists>s'. sleep_round k c lk (kon k s) = Ok s' \<and> sys_inv (s', own)"
proof -
  from inv obtain ini where s: "booted (mach s)"
    and t: "tab_inv (ptable s) (nextpid s) ini (map cproc (cpus (mach s))) own" by (rule sys_invE)
  note p = tab_inv_run [OF t running_onD(3,4) [OF on]]
  obtain m' x where y: "sleep_round k c lk (kon k s) = Ok (s\<lparr>ptable := (ptable s)
        [p := (ptable s ! p)\<lparr>p_chan := Some c, p_state := SLEEPING, p_context := Some (AtSched x (InSleep lk))\<rparr>], mach := m'\<rparr>)"
      "switched (mach s) k None m'"
    using sleep_round_eq [OF s running_onD(1,2) [OF on] p(1)] by blast
  have "sys_inv (s\<lparr>ptable := (ptable s)[p := (ptable s ! p)\<lparr>p_chan := Some c, p_state := SLEEPING,
      p_context := Some (AtSched x (InSleep lk))\<rparr>], mach := m'\<rparr>, own)"
    by (rule sys_inv_leave [OF inv on _ _ _ _ _ y(2)]) (use p(2,3) in \<open>auto simp: ctx_ok_def\<close>)
  with y(1) show ?thesis by blast
qed

lemma sys_inv_exit:
  assumes inv: "sys_inv (s, own)" and on: "running_on s k p" and ne: "initproc s \<noteq> Some p"
    and own: "\<forall>i. own i \<noteq> Some p"
  shows "\<exists>s'. exit_round k p (kon k s) = Ok s' \<and> sys_inv (s', own)"
proof -
  from inv obtain ini where s: "booted (mach s)" "initproc s = Some ini"
    and t: "tab_inv (ptable s) (nextpid s) ini (map cproc (cpus (mach s))) own" by (rule sys_invE)
  note p = tab_inv_run [OF t running_onD(3,4) [OF on]]
  define t1 where "t1 = wakeup1 (map_option ChanProc (p_parent (ptable s ! p))) (ptable s)"
  define tab where "tab = exit_reparent p (initproc s) 0 t1"
  have inv1: "tab_inv t1 (nextpid s) ini (map cproc (cpus (mach s))) own"
    unfolding t1_def using t woken_wakeup1 by (rule tab_inv_woken)
  have w: "woken (reparent p (Some ini) 0 t1) tab"
    using woken_reparent [of p "initproc s" 0 t1] s(2) by (simp add: tab_def)
  have len: "length tab = length (ptable s)" using w by (simp add: woken_def t1_def wakeup1_def)
  obtain m' x where y: "exit_round k p (kon k s) = Ok (s\<lparr>ptable := tab
        [p := (tab ! p)\<lparr>p_state := ZOMBIE, p_context := Some (AtSched x InExit)\<rparr>], mach := m'\<rparr>)"
      "switched (mach s) k None m'"
  proof -
    have "p < length tab" using p(1) len by simp
    moreover have "tab = exit_reparent p (initproc s) 0
        (wakeup1 (map_option ChanProc (p_parent (ptable s ! p))) (ptable s))" by (simp add: tab_def t1_def)
    ultimately show thesis using exit_round_eq [OF s(1) running_onD(1,2) [OF on]] that by blast
  qed
  have "tab_inv (tab[p := (tab ! p)\<lparr>p_state := ZOMBIE, p_context := Some (AtSched x InExit)\<rparr>])
      (nextpid s) ini ((map cproc (cpus (mach s)))[k := None]) own"
    by (rule tab_inv_exit [OF inv1 running_onD(3,4) [OF on] _ _ w]) (use ne s(2) own in auto)
  then have "sys_inv (s\<lparr>ptable := tab[p := (tab ! p)\<lparr>p_state := ZOMBIE, p_context := Some (AtSched x InExit)\<rparr>], mach := m'\<rparr>, own)"
    using s y(2) by (intro sys_invI) (auto simp: switched_def)
  with y(1) show ?thesis by blast
qed

lemma sys_inv_scheduler:
  assumes inv: "sys_inv (s, own)" and k: "k < length (cpus (mach s))" and idle: "cproc (cpus (mach s) ! k) = None"
  shows "\<exists>s'. scheduler_round k (kon k s) = Ok s' \<and> sys_inv (s', own)"
proof -
  from inv obtain ini where s: "booted (mach s)" "initproc s = Some ini"
    and t: "tab_inv (ptable s) (nextpid s) ini (map cproc (cpus (mach s))) own" by (rule sys_invE)
  have ctx: "p_kstack (ptable s ! p) \<noteq> None \<and> p_pgdir (ptable s ! p) \<noteq> None \<and>
       (\<exists>x. p_context (ptable s ! p) = Some x \<and> (\<forall>z. x \<noteq> AtSched z InExit))"
    if "p < length (ptable s)" "p_state (ptable s ! p) = RUNNABLE" for p
    using tab_invD(5) [OF t that(1)] that(2) by (simp add: ctx_ok_def)
  note r = scheduler_round_eq [OF s(1) k ctx]
  show ?thesis
  proof (cases "scheduler_scan (ptable s) 0 None")
    case None
    with r obtain m' where "scheduler_round k (kon k s) = Ok (s\<lparr>mach := m'\<rparr>)" "booted m'"
      "map cproc (cpus m') = map cproc (cpus (mach s))" by auto
    with s t show ?thesis by (auto simp: sys_inv_def)
  next
    case (Some p)
    note sel = scheduler_scan_SomeD [OF Some]
    from r Some obtain m' c where y: "scheduler_round k (kon k s) = Ok (s\<lparr>ptable := (ptable s)
          [p := (ptable s ! p)\<lparr>p_state := RUNNING, p_chan := c\<rparr>], mach := m'\<rparr>)" "switched (mach s) k (Some p) m'"
      by auto
    let ?q = "(ptable s ! p)\<lparr>p_state := RUNNING, p_chan := c\<rparr>"
    have "run_ok ((ptable s)[p := ?q]) ((map cproc (cpus (mach s)))[k := Some p])"
      by (rule run_ok_in [OF tab_invD(4) [OF t]]) (use k idle sel in auto)
    moreover have "ctx_ok ?q" using tab_invD(5) [OF t sel(1)] sel(2) by (simp add: ctx_ok_def)
    ultimately have "tab_inv ((ptable s)[p := ?q]) (nextpid s) ini ((map cproc (cpus (mach s)))[k := Some p]) own"
      using t sel by (intro tab_inv_update) auto
    then have "sys_inv (s\<lparr>ptable := (ptable s)[p := ?q], mach := m'\<rparr>, own)"
      using s y(2) by (intro sys_invI) (auto simp: switched_def)
    with y(1) show ?thesis by blast
  qed
qed

lemma sys_inv_step:
  assumes "sys_step x y" and "sys_inv x"
  shows "sys_inv y"
  using assms
proof cases
  case (sys_scheduler k s s' own)
  with sys_inv_scheduler [of s own k] assms(2) show ?thesis by auto
next
  case (sys_yield s k p s' own)
  with sys_inv_yield [of s own k p] assms(2) show ?thesis by auto
next
  case (sys_sleep s k p c lk s' own)
  with sys_inv_sleep [of s own k p c lk] assms(2) show ?thesis by auto
next
  case (sys_exit s k p own s')
  with sys_inv_exit [of s own k p] assms(2) show ?thesis by auto
next
  case (sys_wakeup k s c s' own)
  then show ?thesis using sys_inv_wakeup [of s own k c s'] assms(2) by simp
next
  case (sys_kill k s pid r s' own)
  then show ?thesis using sys_inv_kill [of s own k pid r s'] assms(2) by simp
next
  case (sys_nice k s pid pr r s' own)
  then show ?thesis using sys_inv_nice [of s own k pid pr r s'] assms(2) by simp
next
  case (sys_alloc s k p i s' own)
  then show ?thesis using sys_inv_alloc [of s own k p i s'] assms(2) by simp
next
  case (sys_fork_fail s k p own i)
  then show ?thesis using sys_inv_fork_fail [of s own i p] assms(2) by simp
next
  case (sys_fork_done s k p own i pd files dir ks s')
  then show ?thesis using sys_inv_fork_done [of s own k p i pd files dir ks s'] assms(2) by simp
next
  case (sys_wait s k p i s' own)
  then show ?thesis using sys_inv_wait [of s own k p i s'] assms(2) by simp
qed

lemma sys_inv_start:
  assumes "sys_start s"
  shows "sys_inv (s, \<lambda>_. None)"
proof -
  from assms obtain ini where st: "booted (mach s)" "length (ptable s) = NPROC" "nextpid s = 2"
      "\<forall>k<length (cpus (mach s)). cproc (cpus (mach s) ! k) = None" "ini < NPROC" "initproc s = Some ini"
    and p: "p_state (ptable s ! ini) = RUNNABLE" "p_pid (ptable s ! ini) = 1" "p_parent (ptable s ! ini) = None"
      "p_context (ptable s ! ini) = Some AtForkret" "p_kstack (ptable s ! ini) \<noteq> None" "p_pgdir (ptable s ! ini) \<noteq> None"
    and o: "\<And>i. i < NPROC \<Longrightarrow> i \<noteq> ini \<Longrightarrow> p_state (ptable s ! i) = UNUSED \<and> p_pid (ptable s ! i) = 0 \<and>
           p_parent (ptable s ! i) = None"
    by (auto simp: sys_start_def Let_def)
  have px: "p_pid (ptable s ! i) = (if i = ini then 1 else 0)" "p_parent (ptable s ! i) = None"
    "p_state (ptable s ! i) = (if i = ini then RUNNABLE else UNUSED)" if "i < NPROC" for i
    using p o [OF that] by (cases "i = ini"; simp)+
  have "pids_ok (ptable s) 2" by (simp add: pids_ok_def st(2) px)
  moreover have "tree_ok (ptable s) ini" using st(5) by (simp add: tree_ok_def st(2) px)
  moreover have "run_ok (ptable s) (map cproc (cpus (mach s)))"
    by (rule run_okI) (use st(4) in \<open>auto simp: st(2) px split: if_splits\<close>)
  moreover have "ctx_ok (ptable s ! i)" if "i < NPROC" for i
    using p o [OF that] by (cases "i = ini") (auto simp: ctx_ok_def)
  moreover have "own_ok (ptable s) (\<lambda>_. None)" by (simp add: own_ok_def)
  ultimately show ?thesis
    using st by (intro sys_invI [of s ini]) (auto simp: tab_inv_def)
qed

lemma sys_inv_reach: "sys_reach x \<Longrightarrow> sys_inv x"
  by (induction rule: sys_reach.induct) (auto intro: sys_inv_start sys_inv_step)


subsection \<open>A concrete machine: two processors and the first process\<close>

definition boot_kern :: kern where
  "boot_kern = \<lparr>mach = two_cpus, ptable = first_proc # replicate 63 free_proc, initproc = Some 0,
     nextpid = 2, ticks = 0\<rparr>"

definition boot_running :: kern where
  "boot_running = (case scheduler_round 0 (kon 0 boot_kern) of Ok s \<Rightarrow> s | _ \<Rightarrow> boot_kern)"

lemma boot_table:
  "length (ptable boot_kern) = NPROC" "ptable boot_kern ! 0 = first_proc"
  "0 < i \<Longrightarrow> i < NPROC \<Longrightarrow> ptable boot_kern ! i = free_proc"
  by (auto simp: boot_kern_def NPROC_def nth_Cons')

lemma boot_start: "sys_start boot_kern"
proof -
  have "length (cpus two_cpus) = 2" "cpus two_cpus = [cpus two_cpus ! 0, cpus two_cpus ! 1]"
    "cproc (cpus two_cpus ! 0) = None" "cproc (cpus two_cpus ! 1) = None"
    by (simp_all add: two_cpus_def)
  then have "\<forall>k<length (cpus two_cpus). cproc (cpus two_cpus ! k) = None"
    by (auto simp: less_2_cases_iff)
  then show ?thesis
    unfolding sys_start_def using boot_table booted_two_cpus
    by (auto simp: boot_kern_def Let_def NPROC_def first_proc_def free_proc_def intro!: exI [of _ 0])
qed

lemma boot_reach: "sys_reach (boot_kern, \<lambda>_. None)"
  using boot_start by (rule sys_reach_start)

lemma boot_mach: "mach boot_kern = two_cpus" "length (cpus (mach boot_kern)) = 2" "cproc (cpus (mach boot_kern) ! 0) = None"
  by (simp_all add: boot_kern_def two_cpus_def)

lemma boot_running_eq:
  "scheduler_round 0 (kon 0 boot_kern) = Ok boot_running \<and> running_on boot_running 0 0 \<and>
   (\<exists>c. ptable boot_running = (ptable boot_kern)[0 := first_proc\<lparr>p_state := RUNNING, p_chan := c\<rparr>])"
proof -
  have st: "p_state (ptable boot_kern ! i) = RUNNABLE \<longleftrightarrow> i = 0" if "i < NPROC" for i
    using boot_table(2) boot_table(3) [of i] that by (cases "i = 0") (auto simp: first_proc_def free_proc_def)
  have sel: "scheduler_scan (ptable boot_kern) 0 None = Some 0"
  proof (cases "scheduler_scan (ptable boot_kern) 0 None")
    case None
    then show ?thesis
      using scheduler_scan_best [of "ptable boot_kern"] st [of 0] by (simp add: best_upto_def boot_table(1) NPROC_def)
  next
    case (Some p)
    then show ?thesis using scheduler_scan_SomeD [OF Some] st by (simp add: boot_table(1))
  qed
  have "p_kstack (ptable boot_kern ! p) \<noteq> None \<and> p_pgdir (ptable boot_kern ! p) \<noteq> None \<and>
       (\<exists>x. p_context (ptable boot_kern ! p) = Some x \<and> (\<forall>z. x \<noteq> AtSched z InExit))"
    if "p < length (ptable boot_kern)" "p_state (ptable boot_kern ! p) = RUNNABLE" for p
    using that st [of p] boot_table by (simp add: first_proc_def)
  note ctx = this
  have "booted (mach boot_kern)" "0 < length (cpus (mach boot_kern))"
    by (simp_all only: boot_mach booted_two_cpus two_cpus_fields zero_less_numeral)
  from scheduler_round_eq [OF this ctx] sel
  obtain m' c where r: "scheduler_round 0 (kon 0 boot_kern) = Ok (boot_kern\<lparr>ptable := (ptable boot_kern)
       [0 := (ptable boot_kern ! 0)\<lparr>p_state := RUNNING, p_chan := c\<rparr>], mach := m'\<rparr>)"
    "switched (mach boot_kern) 0 (Some 0) m'" by auto
  have "map cproc (cpus m') ! 0 = Some 0" "length (map cproc (cpus m')) = 2"
    using r(2) boot_mach(2) unfolding switched_def by simp_all
  with r show ?thesis
    by (auto simp: boot_running_def running_on_def boot_table(2))
qed

lemma boot_running_reach: "sys_reach (boot_running, \<lambda>_. None)"
  by (rule sys_reach_step [OF boot_reach sys_scheduler [of 0]])
    (use boot_running_eq boot_mach in auto)

section \<open>Properties\<close>

text \<open>
  C2. In every state the kernel can reach by any interleaving of scheduling, yielding, sleeping,
  waking, killing, forking (with failures), exiting and waiting on any number of processors, as
  long as the 32-bit counter of pids has not overflowed: no two processes in use share a pid, and
  their pids are positive; the parent of a process is a living process with a smaller
  pid; and a process is \<^verbatim>\<open>RUNNING\<close> exactly when one processor, and only one, has it as its
  current process.
\<close>

theorem process_table_invariant:
  assumes "sys_reach (s, own)" and "i < NPROC" and "j < NPROC" and "p_state (ptable s ! i) \<noteq> UNUSED"
  shows "(p_state (ptable s ! j) \<noteq> UNUSED \<longrightarrow> p_pid (ptable s ! i) = p_pid (ptable s ! j) \<longrightarrow> i = j) \<and>
    0 < p_pid (ptable s ! i) \<and> p_pid (ptable s ! i) < 2147483647 \<and>
    (\<forall>q. p_parent (ptable s ! i) = Some q \<longrightarrow>
       q < NPROC \<and> alive (p_state (ptable s ! q)) \<and> p_pid (ptable s ! q) < p_pid (ptable s ! i)) \<and>
    (p_state (ptable s ! i) = RUNNING \<longleftrightarrow>
       (\<exists>!k. k < length (cpus (mach s)) \<and> cproc (cpus (mach s) ! k) = Some i))"
proof -
  from sys_inv_reach [OF assms(1)] obtain ini where
    t: "tab_inv (ptable s) (nextpid s) ini (map cproc (cpus (mach s))) own" by (rule sys_invE)
  note len = tab_invD(1) [OF t]
  have run: "p_state (ptable s ! i) = RUNNING \<longleftrightarrow>
       (\<exists>!k. k < length (cpus (mach s)) \<and> cproc (cpus (mach s) ! k) = Some i)"
  proof
    assume "p_state (ptable s ! i) = RUNNING"
    with run_okD(4) [OF tab_invD(4) [OF t], of i] assms(2) len
    obtain k where k: "k < length (cpus (mach s))" "cproc (cpus (mach s) ! k) = Some i" by auto
    moreover have "l = k" if "l < length (cpus (mach s)) \<and> cproc (cpus (mach s) ! l) = Some i" for l
      using run_okD(3) [OF tab_invD(4) [OF t], of l k i] that k by simp
    ultimately show "\<exists>!k. k < length (cpus (mach s)) \<and> cproc (cpus (mach s) ! k) = Some i" by blast
  next
    assume "\<exists>!k. k < length (cpus (mach s)) \<and> cproc (cpus (mach s) ! k) = Some i"
    then obtain k where "k < length (cpus (mach s))" "cproc (cpus (mach s) ! k) = Some i" by blast
    with run_okD(2) [OF tab_invD(4) [OF t], of k i] show "p_state (ptable s ! i) = RUNNING" by simp
  qed
  have "p_state (ptable s ! j) \<noteq> UNUSED \<longrightarrow> p_pid (ptable s ! i) = p_pid (ptable s ! j) \<longrightarrow> i = j"
    using tab_invD(2) [OF t] assms len by (simp add: pids_ok_def)
  moreover have "0 < p_pid (ptable s ! i) \<and> p_pid (ptable s ! i) < 2147483647"
    using pids_okD(2,3) [OF tab_invD(2) [OF t], of i] pids_ok_counter [OF tab_invD(2) [OF t]] assms(2,4) len by simp
  ultimately show ?thesis using run tree_okD(5-7) [OF tab_invD(3) [OF t], of i] assms(2) len by simp
qed

theorem process_table_invariant_witness:
  "0 < NPROC \<and> p_state (ptable boot_running ! 0) \<noteq> UNUSED \<and>
   (p_state (ptable boot_running ! 0) = RUNNING \<longleftrightarrow>
      (\<exists>!k. k < length (cpus (mach boot_running)) \<and> cproc (cpus (mach boot_running) ! k) = Some 0))"
proof -
  have "0 < NPROC" by (simp add: NPROC_def)
  moreover from this have "p_state (ptable boot_running ! 0) \<noteq> UNUSED"
    using boot_running_eq boot_table(1) by auto
  ultimately show ?thesis
    using process_table_invariant [OF boot_running_reach, of 0 0] by blast
qed

text \<open>
  C3. No context switch panics: in every reachable state the scheduler of an idle processor
  completes its round, and \<^verbatim>\<open>yield\<close>, \<^verbatim>\<open>sleep\<close> and (for any process but init that is not inside
  \<^verbatim>\<open>fork\<close>) \<^verbatim>\<open>exit\<close> reach the scheduler, which releases \<^verbatim>\<open>ptable.lock\<close>. None of the checks of
  \<^verbatim>\<open>sched\<close>, \<^verbatim>\<open>switchuvm\<close>, \<^verbatim>\<open>acquire\<close>, \<^verbatim>\<open>release\<close> and \<^verbatim>\<open>mycpu\<close> fails.
\<close>

theorem context_switch_no_panic:
  assumes "sys_reach (s, own)" and "k < length (cpus (mach s))"
  shows "case cproc (cpus (mach s) ! k) of
      None \<Rightarrow> \<exists>s'. scheduler_round k (kon k s) = Ok s'
    | Some p \<Rightarrow> (\<exists>s'. yield_round k (kon k s) = Ok s') \<and>
        (\<forall>c lk. \<exists>s'. sleep_round k c lk (kon k s) = Ok s') \<and>
        (initproc s \<noteq> Some p \<longrightarrow> (\<forall>i. own i \<noteq> Some p) \<longrightarrow> (\<exists>s'. exit_round k p (kon k s) = Ok s'))"
proof (cases "cproc (cpus (mach s) ! k)")
  case None
  with sys_inv_scheduler [OF sys_inv_reach [OF assms(1)] assms(2)] show ?thesis by auto
next
  case (Some p)
  then have "running_on s k p" using assms(2) by (simp add: running_on_def)
  note on = sys_inv_reach [OF assms(1)] this
  from sys_inv_yield [OF on] sys_inv_sleep [OF on] sys_inv_exit [OF on] show ?thesis
    unfolding Some option.case by meson
qed

theorem context_switch_no_panic_witness:
  "\<exists>s'. scheduler_round 0 (kon 0 boot_kern) = Ok s'"
proof -
  have "0 < length (cpus (mach boot_kern))" by (simp only: boot_mach two_cpus_fields zero_less_numeral)
  with context_switch_no_panic [OF boot_reach, of 0] boot_mach(3) show ?thesis by simp
qed

text \<open>
  C6. \<^verbatim>\<open>getprocinfo\<close> called by the process \<open>p\<close> terminates in every reachable state, although its
  walk along the parents has no bound. It reports on a process exactly when that process is in use
  and is \<open>p\<close> itself or a descendant of \<open>p\<close>; the report carries the pid asked for. Otherwise it
  returns -1 and writes nothing.
\<close>

theorem getprocinfo_descendants_only:
  assumes "sys_reach (s, own)" and "running_on s k p"
  shows "\<exists>s'. ptable s' = ptable s \<and>
    (case first_index (\<lambda>q. p_pid q = pid \<and> p_state q \<noteq> UNUSED) (ptable s) of
       None \<Rightarrow> getprocinfo pid (Some out) (kon k s) = Ok (- 1, Some out, s')
     | Some i \<Rightarrow>
         if (i, p) \<in> (parent_rel (ptable s))\<^sup>*
         then getprocinfo pid (Some out) (kon k s) =
                Ok (0, Some (fill_procinfo (ptable s) (ptable s ! i) out), s') \<and>
              pi_pid (fill_procinfo (ptable s) (ptable s ! i) out) = pid
         else getprocinfo pid (Some out) (kon k s) = Ok (- 1, Some out, s'))"
proof -
  from sys_inv_reach [OF assms(1)] obtain ini where s: "booted (mach s)" and
    t: "tab_inv (ptable s) (nextpid s) ini (map cproc (cpus (mach s))) own" by (rule sys_invE)
  note k = running_onD [OF assms(2)]
  have cur: "curproc (kon k s) = Some p"
    using bootedD(2) [OF s k(1)] k(2) by (simp add: curproc_def)
  have "parents_ok (ptable s)"
    using tree_okD(5,7) [OF tab_invD(3) [OF t]] pids_okD(1) [OF tab_invD(2) [OF t]]
    by (simp add: parents_ok_def)
  then have acc: "can_access_procinfo (ptable s) (Some p) (Some i) = Some ((i, p) \<in> (parent_rel (ptable s))\<^sup>*)"
    if "first_index (\<lambda>q. p_pid q = pid \<and> p_state q \<noteq> UNUSED) (ptable s) = Some i" for i
    using first_index_SomeD(1) [OF that] by (rule can_access_procinfo_terminates)
  show ?thesis
    using getprocinfo_eq [OF table_free_kon [OF s k(1)], of pid "Some out"] cur acc
    by (intro exI [of _ "(kon k s)\<lparr>mach := settle (mach (kon k s))\<rparr>"])
      (auto simp: fill_procinfo_def dest: first_index_SomeD(2) split: option.splits bool.splits)
qed

definition blank_info :: procinfo where
  "blank_info = \<lparr>pi_pid = 0, pi_ppid = 0, pi_state = replicate PSTATE_LEN 0, pi_sz = 0, pi_cputicks = 0,
     pi_name = replicate 16 0, pi_nice = 0, pi_is_privileged = 0\<rparr>"

theorem getprocinfo_descendants_only_witness:
  "running_on boot_running 0 0 \<and>
   (\<exists>s' out. getprocinfo 1 (Some blank_info) (kon 0 boot_running) = Ok (0, Some out, s') \<and> pi_pid out = 1)"
proof -
  have on: "running_on boot_running 0 0" using boot_running_eq by simp
  obtain c where "ptable boot_running = (first_proc\<lparr>p_state := RUNNING, p_chan := c\<rparr>) # replicate 63 free_proc"
    using boot_running_eq by (auto simp: boot_kern_def)
  then have "first_index (\<lambda>q. p_pid q = 1 \<and> p_state q \<noteq> UNUSED) (ptable boot_running) = Some 0"
    by (simp add: first_proc_def)
  with getprocinfo_descendants_only [OF boot_running_reach on, of 1 blank_info] on show ?thesis by auto
qed

text \<open>
  C7. The scheduler picks a runnable process of the least \<^verbatim>\<open>nice\<close> value, and among those the one
  in the lowest slot; it picks none only if none is runnable.
\<close>

theorem scheduler_picks_least_nice:
  "case scheduler_scan tab 0 None of
     None \<Rightarrow> \<forall>j<length tab. p_state (tab ! j) \<noteq> RUNNABLE
   | Some b \<Rightarrow> b < length tab \<and> p_state (tab ! b) = RUNNABLE \<and>
       (\<forall>j<length tab. p_state (tab ! j) = RUNNABLE \<longrightarrow>
          p_nice (tab ! b) < p_nice (tab ! j) \<or> p_nice (tab ! b) = p_nice (tab ! j) \<and> b \<le> j)"
  using scheduler_scan_best [of tab] unfolding best_upto_def
  by (auto split: option.splits)

text \<open>
  C8. \<^verbatim>\<open>nice(pid, priority)\<close> with a negative priority, which marks the process as privileged, does
  not favour it: it stores \<^verbatim>\<open>-priority\<close>, so that the scheduler prefers every runnable process with
  the default \<^verbatim>\<open>nice\<close> value 0. The same value results from the positive priority.
\<close>

theorem nice_negative_not_favoured:
  assumes "table_free s" and "- 20 \<le> pr" and "pr < 0"
    and "first_index (\<lambda>p. p_pid p = pid) (ptable s) = Some i"
    and "j < length (ptable s)" and "j \<noteq> i" and "p_state (ptable s ! j) = RUNNABLE" and "p_nice (ptable s ! j) = 0"
  shows "\<exists>s'. nice pid pr s = Ok (0, s') \<and> p_nice (ptable s' ! i) = - pr \<and> p_is_privileged (ptable s' ! i) = 1 \<and>
    scheduler_scan (ptable s') 0 None \<noteq> Some i"
proof -
  let ?t = "(ptable s)[i := (ptable s ! i)\<lparr>p_nice := \<bar>pr\<bar>, p_is_privileged := (if pr < 0 then 1 else 0)\<rparr>]"
  have i: "i < length (ptable s)" using assms(4) by (rule first_index_SomeD)
  have "nice pid pr s = Ok (0, s\<lparr>mach := settle (mach s), ptable := ?t\<rparr>)"
    using nice_eq [OF assms(1,2), of pid] assms(3,4) by simp
  moreover have "scheduler_scan ?t 0 None \<noteq> Some i"
  proof
    assume "scheduler_scan ?t 0 None = Some i"
    with scheduler_scan_best [of ?t] have
      "\<forall>l<length ?t. p_state (?t ! l) = RUNNABLE \<longrightarrow> p_nice (?t ! i) \<le> p_nice (?t ! l)"
      unfolding best_upto_def by auto
    moreover have "j < length ?t" "p_state (?t ! j) = RUNNABLE" using assms(5-7) by simp_all
    ultimately have "p_nice (?t ! i) \<le> p_nice (?t ! j)" by blast
    then show False using assms(3,6,8) i by simp
  qed
  ultimately show ?thesis using i assms(3) by auto
qed

definition demo_kern :: kern where
  "demo_kern = boot_kern\<lparr>ptable := [first_proc, first_proc\<lparr>p_pid := 2\<rparr>]\<rparr>"

lemma demo_free: "table_free (kon 0 demo_kern)"
proof -
  have "booted (mach demo_kern)" "0 < length (cpus (mach demo_kern))"
    using booted_two_cpus two_cpus_fields(1) by (auto simp: demo_kern_def boot_kern_def)
  then show ?thesis by (rule table_free_kon)
qed

theorem scheduler_picks_least_nice_witness:
  "p_state (ptable demo_kern ! 1) = RUNNABLE \<and> scheduler_scan (ptable demo_kern) 0 None = Some 0"
proof -
  have l: "length (ptable demo_kern) = 2" "p_state (ptable demo_kern ! 0) = RUNNABLE" "p_nice (ptable demo_kern ! 0) = 0"
    "p_state (ptable demo_kern ! 1) = RUNNABLE" "p_nice (ptable demo_kern ! 1) = 0"
    by (simp_all add: demo_kern_def first_proc_def free_proc_def)
  have "scheduler_scan (ptable demo_kern) 0 None = Some 0"
  proof (cases "scheduler_scan (ptable demo_kern) 0 None")
    case None
    then show ?thesis using scheduler_picks_least_nice [of "ptable demo_kern"] l by auto
  next
    case (Some b)
    then have "b < 2" "\<forall>j<2. p_state (ptable demo_kern ! j) = RUNNABLE \<longrightarrow>
        p_nice (ptable demo_kern ! b) < p_nice (ptable demo_kern ! j) \<or> p_nice (ptable demo_kern ! b) = p_nice (ptable demo_kern ! j) \<and> b \<le> j"
      using scheduler_picks_least_nice [of "ptable demo_kern"] unfolding Some l by auto
    then have "b = 0 \<or> b = 1" "p_nice (ptable demo_kern ! b) < 0 \<or> b = 0"
      using l by (auto dest: spec [of _ 0])
    then show ?thesis using Some l by auto
  qed
  then show ?thesis using l by simp
qed

theorem nice_negative_not_favoured_witness:
  "\<exists>s'. nice 1 (- 5) (kon 0 demo_kern) = Ok (0, s') \<and> p_nice (ptable s' ! 0) = 5 \<and>
     p_is_privileged (ptable s' ! 0) = 1 \<and> scheduler_scan (ptable s') 0 None \<noteq> Some 0"
  using nice_negative_not_favoured [OF demo_free, of "- 5" 1 0 1]
  by (simp add: demo_kern_def first_proc_def free_proc_def)

text \<open>
  C9. \<^verbatim>\<open>kill\<close> does not check that the slot it finds is in use. When the first slot with pid 0 is the
  next one \<^verbatim>\<open>allocproc\<close> will hand out, \<^verbatim>\<open>kill(0)\<close> reports success and the next process created there
  starts its life already killed.
\<close>

theorem kill_marks_unused_slot:
  assumes "table_free s" and "first_index (\<lambda>p. p_pid p = 0) (ptable s) = Some i"
    and "first_index (\<lambda>p. p_state p = UNUSED) (ptable s) = Some i"
  shows "\<exists>s1 s2. kill 0 s = Ok (0, s1) \<and> allocproc_slot s1 = Ok (Some i, s2) \<and>
    p_state (ptable s2 ! i) = EMBRYO \<and> p_pid (ptable s2 ! i) = nextpid s \<and> p_killed (ptable s2 ! i)"
proof -
  have i: "i < length (ptable s)" "p_state (ptable s ! i) = UNUSED"
    using first_index_SomeD(1,2) [OF assms(3)] by simp_all
  define s1 where "s1 = s\<lparr>mach := settle (mach s), ptable := (ptable s)[i := (ptable s ! i)\<lparr>p_killed := True, p_state := UNUSED\<rparr>]\<rparr>"
  have k: "kill 0 s = Ok (0, s1)"
    using kill_eq [OF assms(1), of 0] assms(2) i by (simp add: s1_def)
  have tf: "table_free s1" using assms(1) unfolding table_free_def s1_def by simp
  have "first_index (\<lambda>p. p_state p = UNUSED) (ptable s1) = Some i"
    using assms(3) first_index_update_same [of "\<lambda>p. p_state p = UNUSED" "ptable s" i] i by (simp add: s1_def)
  then show ?thesis
    using allocproc_slot_eq [OF tf] k i by (auto simp: s1_def)
qed

theorem kill_marks_unused_slot_witness:
  "\<exists>s1 s2. kill 0 (kon 0 boot_kern) = Ok (0, s1) \<and> allocproc_slot s1 = Ok (Some 1, s2) \<and> p_killed (ptable s2 ! 1)"
proof -
  have f: "table_free (kon 0 boot_kern)"
    by (rule table_free_kon) (simp_all only: boot_mach booted_two_cpus two_cpus_fields zero_less_numeral)
  have "ptable (kon 0 boot_kern) = first_proc # free_proc # replicate 62 free_proc"
    using replicate_Suc [of 62 free_proc] by (simp add: boot_kern_def)
  then have "first_index (\<lambda>p. p_pid p = 0) (ptable (kon 0 boot_kern)) = Some 1"
    "first_index (\<lambda>p. p_state p = UNUSED) (ptable (kon 0 boot_kern)) = Some 1"
    by (simp_all add: first_proc_def free_proc_def)
  from kill_marks_unused_slot [OF f this] show ?thesis by blast
qed

text \<open>
  C10. \<^verbatim>\<open>sleep(chan, lk)\<close> misses no wakeup. A process \<open>p\<close> takes \<open>lk\<close>, finds that it has to wait, and calls
  \<^verbatim>\<open>sleep\<close>. At every moment until it sleeps, that is, after each of the calls that exchange the locks,
  another processor cannot take \<open>lk\<close> (to make the condition true) or has to wait inside
  \<^verbatim>\<open>wakeup\<close>. Once \<open>p\<close> sleeps, \<^verbatim>\<open>wakeup(chan)\<close> on any processor returns with \<open>p\<close> runnable, so that the
  scheduler has a process to pick, and a wakeup of another channel leaves \<open>p\<close> asleep.
\<close>

theorem sleep_misses_no_wakeup:
  assumes "sys_reach (s, own)" and "running_on s k p" and "lk \<noteq> PtableLock"
  shows "\<exists>s1. kacquire lk (kon k s) = Ok s1 \<and>
    (\<forall>n. \<exists>sn. run_calls (take n (sleep_locks lk)) s1 = Ok sn \<and>
       (\<forall>l<length (cpus (mach s)). l \<noteq> k \<longrightarrow> kacquire lk (kon l sn) = Spin lk \<or> wakeup c (kon l sn) = Spin PtableLock)) \<and>
    (\<exists>s2. rbind (sleep c lk s1) (scheduler_resume k) = Ok s2 \<and>
       (\<forall>l<length (cpus (mach s)).
          (\<exists>s3. wakeup c (kon l s2) = Ok s3 \<and> p_state (ptable s3 ! p) = RUNNABLE \<and> scheduler_scan (ptable s3) 0 None \<noteq> None) \<and>
          (\<forall>c'. c' \<noteq> c \<longrightarrow> (\<exists>s3. wakeup c' (kon l s2) = Ok s3 \<and> p_state (ptable s3 ! p) = SLEEPING))))"
proof -
  from sys_inv_reach [OF assms(1)] obtain ini where b: "booted (mach s)" and
    t: "tab_inv (ptable s) (nextpid s) ini (map cproc (cpus (mach s))) own" by (rule sys_invE)
  note k = running_onD [OF assms(2)] and p = tab_inv_run [OF t running_onD(3,4) [OF assms(2)]]
  define s1 where "s1 = s\<lparr>mach := acq lk (on_cpu k (mach s))\<rparr>"
  have a1: "kacquire lk (kon k s) = Ok s1" using bootedD [OF b k(1)] by (simp add: kacquire_def lock_simps s1_def kon_def)
  have locks: "\<exists>sn. run_calls (take n (sleep_locks lk)) s1 = Ok sn \<and>
      (\<forall>l<length (cpus (mach s)). l \<noteq> k \<longrightarrow> kacquire lk (kon l sn) = Spin lk \<or> wakeup c (kon l sn) = Spin PtableLock)" for n
    by (rule exchange_covered [OF b k(1) assms(3)]) (simp add: s1_def)
  obtain m' x where s2: "sleep_round k c lk (kon k s) = Ok (s\<lparr>ptable := (ptable s)
        [p := (ptable s ! p)\<lparr>p_chan := Some c, p_state := SLEEPING, p_context := Some (AtSched x (InSleep lk))\<rparr>], mach := m'\<rparr>)" (is "_ = Ok ?s2")
      "switched (mach s) k None m'"
    using sleep_round_eq [OF b k(1,2) p(1)] by blast
  have "length (map cproc (cpus m')) = length (map cproc (cpus (mach s)))" using s2(2) unfolding switched_def by simp
  then have tf: "table_free (kon l ?s2)" if "l < length (cpus (mach s))" for l
    by (intro table_free_kon) (use s2(2) that in \<open>simp_all add: switched_def\<close>)
  have w: "\<exists>s3. wakeup d (kon l ?s2) = Ok s3 \<and> ptable s3 = wakeup1 (Some d) (ptable ?s2)" if "l < length (cpus (mach s))" for d l
    using wakeup_eq [OF tf [OF that], of d] by simp
  have st: "p_state (wakeup1 (Some d) (ptable ?s2) ! p) = (if d = c then RUNNABLE else SLEEPING)" for d
    using p(1) by (simp add: wakeup1_def)
  have "scheduler_scan (wakeup1 (Some c) (ptable ?s2)) 0 None \<noteq> None"
  proof
    assume none: "scheduler_scan (wakeup1 (Some c) (ptable ?s2)) 0 None = None"
    have "p < length (wakeup1 (Some c) (ptable ?s2))" using p(1) by (simp add: wakeup1_def)
    then show False using scheduler_scan_best [of "wakeup1 (Some c) (ptable ?s2)"] st [of c] unfolding none best_upto_def option.case by fastforce
  qed
  then have "\<forall>l<length (cpus (mach s)).
          (\<exists>s3. wakeup c (kon l ?s2) = Ok s3 \<and> p_state (ptable s3 ! p) = RUNNABLE \<and> scheduler_scan (ptable s3) 0 None \<noteq> None) \<and>
          (\<forall>c'. c' \<noteq> c \<longrightarrow> (\<exists>s3. wakeup c' (kon l ?s2) = Ok s3 \<and> p_state (ptable s3 ! p) = SLEEPING))"
    using w st by metis
  moreover have "rbind (sleep c lk s1) (scheduler_resume k) = Ok ?s2" using s2(1) a1 by (simp add: sleep_round_def)
  ultimately show ?thesis using a1 locks by blast
qed

theorem sleep_misses_no_wakeup_witness:
  "\<exists>s1 s2 s3. kacquire TicksLock (kon 0 boot_running) = Ok s1 \<and> rbind (sleep ChanTicks TicksLock s1) (scheduler_resume 0) = Ok s2 \<and>
     wakeup ChanTicks (kon 0 s2) = Ok s3 \<and> p_state (ptable s3 ! 0) = RUNNABLE"
proof -
  have on: "running_on boot_running 0 0" using boot_running_eq by simp
  with running_onD(1) [OF on] sleep_misses_no_wakeup [OF boot_running_reach on, of TicksLock ChanTicks] show ?thesis by auto
qed

end
