(* ===== verification/Sleeplock.thy ===== *)
theory Sleeplock
  imports Proc_Table
begin

section \<open>Sleep-locks (sleeplock.c, sleeplock.h)\<close>

text \<open>
  A sleep-lock lives inside the structure it protects (a buffer or an inode), so the operations
  take and return its value; its spin-lock is the entry \<open>SleeplockLk l\<close> of the machine. A process
  that finds the lock taken goes to sleep on it: the outcome \<open>Sleep\<close>.

  \<open>env_ok pid s\<close> describes the environment of a system call: the machine is quiet and the
  processor runs a process with that pid. The lemmas compute the three operations there; \<open>sync\<close>
  and \<open>rouse\<close> are all they do to the rest of the state.
\<close>

record sleeplock =
  sl_locked :: bool
  sl_name :: string
  sl_pid :: int

definition initsleeplock :: "slid \<Rightarrow> string \<Rightarrow> 'z kern_scheme \<Rightarrow> sleeplock \<times> 'z kern_scheme" where
  "initsleeplock l nm s =
     (\<lparr>sl_locked = False, sl_name = nm, sl_pid = 0\<rparr>,
      s\<lparr>mach := initlock (SleeplockLk l) ''sleep lock'' (mach s)\<rparr>)"

definition acquiresleep :: "slid \<Rightarrow> sleeplock \<Rightarrow> 'z kern_scheme \<Rightarrow> (sleeplock \<times> 'z kern_scheme) res" where
  "acquiresleep l sl s =
     rbind (kacquire (SleeplockLk l) s) (\<lambda>s.
     if sl_locked sl then Sleep (ChanSleeplock l)
     else rbind (myproc s) (\<lambda>(p, s).
     case p of
       None \<Rightarrow> Panic ''trap''
     | Some p \<Rightarrow>
         let sl = sl\<lparr>sl_locked := True, sl_pid := p_pid (ptable s ! p)\<rparr> in
         rbind (krelease (SleeplockLk l) s) (\<lambda>s. Ok (sl, s))))"

definition releasesleep :: "slid \<Rightarrow> sleeplock \<Rightarrow> 'z kern_scheme \<Rightarrow> (sleeplock \<times> 'z kern_scheme) res" where
  "releasesleep l sl s =
     rbind (kacquire (SleeplockLk l) s) (\<lambda>s.
     let sl = sl\<lparr>sl_locked := False, sl_pid := 0\<rparr> in
     rbind (wakeup (ChanSleeplock l) s) (\<lambda>s.
     rbind (krelease (SleeplockLk l) s) (\<lambda>s. Ok (sl, s))))"

definition holdingsleep :: "slid \<Rightarrow> sleeplock \<Rightarrow> 'z kern_scheme \<Rightarrow> (bool \<times> 'z kern_scheme) res" where
  "holdingsleep l sl s =
     rbind (kacquire (SleeplockLk l) s) (\<lambda>s.
     rbind (if sl_locked sl
            then rbind (myproc s) (\<lambda>(p, s).
                 case p of
                   None \<Rightarrow> Panic ''trap''
                 | Some p \<Rightarrow> Ok (sl_pid sl = p_pid (ptable s ! p), s))
            else Ok (False, s)) (\<lambda>(r, s).
     rbind (krelease (SleeplockLk l) s) (\<lambda>s. Ok (r, s))))"

section \<open>The environment of a system call\<close>

definition env_ok :: "int \<Rightarrow> 'z kern_scheme \<Rightarrow> bool" where
  "env_ok pid s \<longleftrightarrow> quiet (mach s) \<and>
     (\<exists>p. curproc s = Some p \<and> p < length (ptable s) \<and> p_state (ptable s ! p) = RUNNING \<and>
          p_pid (ptable s ! p) = pid)"

definition sync :: "'z kern_scheme \<Rightarrow> 'z kern_scheme" where
  "sync s = s\<lparr>mach := settle (mach s)\<rparr>"

definition rouse :: "chan \<Rightarrow> 'z kern_scheme \<Rightarrow> 'z kern_scheme" where
  "rouse c s = sync (s\<lparr>ptable := wakeup1 (Some c) (ptable s)\<rparr>)"

lemma env_okD: "env_ok pid s \<Longrightarrow> mach_ok (mach s)" "env_ok pid s \<Longrightarrow> lock_free L (mach s)"
  by (simp_all add: env_ok_def quiet_def)

lemma wakeup1_length [simp]: "length (wakeup1 c tab) = length tab"
  by (simp add: wakeup1_def)

lemma wakeup1_running:
  "i < length tab \<Longrightarrow> p_state (tab ! i) = RUNNING \<Longrightarrow> wakeup1 c tab ! i = tab ! i"
  by (simp add: wakeup1_def)

lemma env_ok_sync [simp]: "env_ok pid (sync s) = env_ok pid s"
  by (simp add: env_ok_def sync_def)

lemma env_ok_rouse: "env_ok pid s \<Longrightarrow> env_ok pid (rouse c s)"
  by (auto simp: env_ok_def rouse_def sync_def wakeup1_running curproc_def)

lemma env_ok_upd:
  assumes "env_ok pid s" and "mach s' = mach s" and "ptable s' = ptable s"
  shows "env_ok pid s'"
  using assms by (simp add: env_ok_def curproc_def)

lemma sync_sync [simp]: "sync (sync s) = sync s" "rouse c (sync s) = rouse c s" "sync (rouse c s) = rouse c s"
  by (simp_all add: sync_def rouse_def)

lemma sync_fields [simp]:
  "ptable (sync s) = ptable s" "initproc (sync s) = initproc s" "nextpid (sync s) = nextpid s" "ticks (sync s) = ticks s"
  "kern.more (sync s) = kern.more s"
  by (simp_all add: sync_def)

lemma rouse_fields [simp]:
  "initproc (rouse c s) = initproc s" "nextpid (rouse c s) = nextpid s" "ticks (rouse c s) = ticks s"
  "kern.more (rouse c s) = kern.more s"
  by (simp_all add: rouse_def)

lemma sync_id: "depth (mach s) \<noteq> 0 \<Longrightarrow> sync s = s"
  by (simp add: sync_def depth_pos_settle)

lemma kacquire_eq: "env_ok pid s \<Longrightarrow> kacquire L s = Ok (s\<lparr>mach := acq L (mach s)\<rparr>)"
  by (simp add: kacquire_def acquire_acq env_okD)

text \<open>Releasing what \<open>kacquire_eq\<close> took, after the protected data changed.\<close>

lemma krelease_eq:
  assumes "env_ok pid s" and "mach s' = acq L (mach s)"
  shows "krelease L s' = Ok (s'\<lparr>mach := settle (mach s)\<rparr>)"
  using assms by (simp add: krelease_def release_acq env_okD)

lemma myproc_env:
  assumes "env_ok pid s"
  shows "\<exists>p. myproc s = Ok (Some p, sync s) \<and> p < length (ptable s) \<and> p_pid (ptable s ! p) = pid \<and>
    myproc (s\<lparr>mach := acq L (mach s)\<rparr>) = Ok (Some p, s\<lparr>mach := acq L (mach s)\<rparr>)"
proof -
  from assms obtain p where "curproc s = Some p" "p < length (ptable s)" "p_pid (ptable s ! p) = pid"
    by (auto simp: env_ok_def)
  then show ?thesis
    using env_okD [OF assms]
    by (simp add: myproc_eq sync_def mach_ok_acq settle_acq curproc_acq)
qed

lemma wakeup_env: "env_ok pid s \<Longrightarrow> wakeup c s = Ok (rouse c s)"
  by (simp add: wakeup_eq table_free_def env_okD rouse_def sync_def)

lemma wakeup_acq:
  assumes "env_ok pid s" and "L \<noteq> PtableLock"
  shows "wakeup c (s\<lparr>mach := acq L (mach s)\<rparr>) = Ok (s\<lparr>ptable := wakeup1 (Some c) (ptable s), mach := acq L (mach s)\<rparr>)"
  using assms by (simp add: wakeup_eq table_free_def env_okD mach_ok_acq lock_free_acq settle_acq)

lemma acquiresleep_free:
  assumes "env_ok pid s" and "\<not> sl_locked sl"
  shows "acquiresleep l sl s = Ok (sl\<lparr>sl_locked := True, sl_pid := pid\<rparr>, sync s)"
proof -
  obtain p where "myproc (s\<lparr>mach := acq (SleeplockLk l) (mach s)\<rparr>) = Ok (Some p, s\<lparr>mach := acq (SleeplockLk l) (mach s)\<rparr>)"
    "p_pid (ptable s ! p) = pid" using myproc_env [OF assms(1)] by blast
  with assms show ?thesis
    by (simp add: acquiresleep_def kacquire_eq krelease_eq sync_def Let_def)
qed

lemma acquiresleep_taken:
  "env_ok pid s \<Longrightarrow> sl_locked sl \<Longrightarrow> acquiresleep l sl s = Sleep (ChanSleeplock l)"
  by (simp add: acquiresleep_def kacquire_eq)

lemma releasesleep_eq:
  "env_ok pid s \<Longrightarrow>
   releasesleep l sl s = Ok (sl\<lparr>sl_locked := False, sl_pid := 0\<rparr>, rouse (ChanSleeplock l) s)"
  by (simp add: releasesleep_def kacquire_eq wakeup_acq krelease_eq sync_def rouse_def Let_def)

lemma holdingsleep_eq:
  assumes "env_ok pid s"
  shows "holdingsleep l sl s = Ok (sl_locked sl \<and> sl_pid sl = pid, sync s)"
proof -
  obtain p where "myproc (s\<lparr>mach := acq (SleeplockLk l) (mach s)\<rparr>) = Ok (Some p, s\<lparr>mach := acq (SleeplockLk l) (mach s)\<rparr>)"
    "p_pid (ptable s ! p) = pid" using myproc_env [OF assms(1)] by blast
  with assms show ?thesis
    by (simp add: holdingsleep_def kacquire_eq krelease_eq sync_def Let_def)
qed

lemmas sleeplock_simps = acquiresleep_free releasesleep_eq holdingsleep_eq

subsection \<open>A concrete environment: the first process in a system call\<close>

definition demo_sys :: kern where
  "demo_sys = \<lparr>mach = two_cpus\<lparr>cpus := (cpus two_cpus)[0 := (cpus two_cpus ! 0)\<lparr>cproc := Some 0\<rparr>]\<rparr>,
     ptable = first_proc\<lparr>p_state := RUNNING\<rparr> # replicate 63 free_proc, initproc = Some 0, nextpid = 2, ticks = 0\<rparr>"

lemma demo_sys_env: "env_ok 1 demo_sys"
  by (simp add: env_ok_def demo_sys_def two_cpus_def quiet_def mach_ok_def lock_free_def curproc_def me_def first_proc_def free_proc_def lapicid_def depth_def read_if_def)

end
