(* ===== verification/Kalloc.thy ===== *)
theory Kalloc
  imports Sleeplock
begin

section \<open>The physical page allocator (kalloc.c, memlayout.h, mmu.h)\<close>

text \<open>
  The kernel's memory is a function from (kernel virtual) addresses to bytes; the free list of
  \<^verbatim>\<open>kalloc.c\<close> lives in it, each free page holding in its first word the address of the next one.
  Addresses are 32-bit words, the null pointer is 0. \<open>kend\<close> and \<open>kdata\<close> are the symbols \<^verbatim>\<open>end\<close>
  and \<^verbatim>\<open>data\<close> of the linker script, \<open>kpgdir\<close> is the kernel page table of \<^verbatim>\<open>vm.c\<close>.

  \<open>free_list s xs\<close> says that the list in memory is \<open>xs\<close>: distinct, page-aligned pages between
  \<^verbatim>\<open>end\<close> and \<^verbatim>\<open>PHYSTOP\<close>. \<open>kalloc\<close> and \<open>kfree\<close> are a stack over it, and neither touches a page
  that is in use. The locale \<open>page_allocator\<close> states this contract and derives from it that no
  page is handed out twice.
\<close>

subsection \<open>Layout\<close>

definition EXTMEM :: uint where "EXTMEM = 0x100000"

definition PHYSTOP :: uint where "PHYSTOP = 0xE000000"

definition DEVSPACE :: uint where "DEVSPACE = 0xFE000000"

definition KERNBASE :: uint where "KERNBASE = 0x80000000"

definition KERNLINK :: uint where "KERNLINK = KERNBASE + EXTMEM"

definition V2P :: "uint \<Rightarrow> uint" where "V2P a = a - KERNBASE"

definition P2V :: "uint \<Rightarrow> uint" where "P2V a = a + KERNBASE"

definition PGSIZE :: uint where "PGSIZE = 4096"

definition PGROUNDUP :: "uint \<Rightarrow> uint" where "PGROUNDUP sz = (sz + PGSIZE - 1) AND NOT (PGSIZE - 1)"

definition PGROUNDDOWN :: "uint \<Rightarrow> uint" where "PGROUNDDOWN a = a AND NOT (PGSIZE - 1)"

subsection \<open>State\<close>

record mem_st = kern +
  use_lock :: bool
  freelist :: uint
  memory :: mem
  kend :: uint
  kdata :: uint
  kpgdir :: uint

text \<open>A word in memory.\<close>

definition ld32 :: "mem \<Rightarrow> nat \<Rightarrow> uint" where
  "ld32 m a = of_le32 [m a, m (a + 1), m (a + 2), m (a + 3)]"

definition st32 :: "nat \<Rightarrow> uint \<Rightarrow> mem \<Rightarrow> mem" where
  "st32 a w m = m(a := ucast w, a + 1 := ucast (drop_bit 8 w), a + 2 := ucast (drop_bit 16 w), a + 3 := ucast (drop_bit 24 w))"

subsection \<open>Operations\<close>

definition kfree :: "uint \<Rightarrow> 'z mem_st_scheme \<Rightarrow> 'z mem_st_scheme res" where
  "kfree v s =
     (if v mod PGSIZE \<noteq> 0 \<or> v < kend s \<or> V2P v \<ge> PHYSTOP then Panic ''kfree''
      else let s = s\<lparr>memory := memset (memory s) (unat v) 1 (unat PGSIZE)\<rparr> in
        rbind (if use_lock s then kacquire KmemLock s else Ok s) (\<lambda>s.
        let s = s\<lparr>memory := st32 (unat v) (freelist s) (memory s), freelist := v\<rparr> in
        if use_lock s then krelease KmemLock s else Ok s))"

definition kalloc :: "'z mem_st_scheme \<Rightarrow> (uint \<times> 'z mem_st_scheme) res" where
  "kalloc s =
     rbind (if use_lock s then kacquire KmemLock s else Ok s) (\<lambda>s.
     let r = freelist s;
         s = (if r \<noteq> 0 then s\<lparr>freelist := ld32 (memory s) (unat r)\<rparr> else s) in
     rbind (if use_lock s then krelease KmemLock s else Ok s) (\<lambda>s. Ok (r, s)))"

lemma kfree_Ok_range: "kfree v s = Ok s' \<Longrightarrow> v mod PGSIZE = 0 \<and> kend s \<le> v \<and> V2P v < PHYSTOP"
  by (auto simp: kfree_def not_less split: if_splits)

lemma in_range_unat: "V2P v < PHYSTOP \<longleftrightarrow> unat KERNBASE \<le> unat v \<and> unat v < unat KERNBASE + unat PHYSTOP"
  unfolding V2P_def PHYSTOP_def KERNBASE_def word_less_nat_alt unat_sub_if_size
  using unsigned_less [of v] by (auto simp: word_size)

function freerange_from :: "uint \<Rightarrow> uint \<Rightarrow> 'z mem_st_scheme \<Rightarrow> 'z mem_st_scheme res" where
  "freerange_from p vend s =
     (if p + PGSIZE \<le> vend then rbind (kfree p s) (freerange_from (p + PGSIZE) vend) else Ok s)"
  by auto

termination
proof (relation "measure (\<lambda>(p, vend, s). 2 ^ 32 - unat p)")
  fix p vend s and s' :: "'z mem_st_scheme"
  assume "kfree p s = Ok s'"
  from kfree_Ok_range [OF this] have "unat p < 0x8E000000"
    by (simp only: in_range_unat) (simp add: KERNBASE_def PHYSTOP_def)
  then have "unat (p + PGSIZE) = unat p + 4096"
    by (simp add: PGSIZE_def unat_word_ariths)
  then show "((p + PGSIZE, vend, s'), p, vend, s) \<in> measure (\<lambda>(p, vend, s). 2 ^ 32 - unat p)"
    using \<open>unat p < 0x8E000000\<close> by simp
qed simp

declare freerange_from.simps [simp del]

definition freerange :: "uint \<Rightarrow> uint \<Rightarrow> 'z mem_st_scheme \<Rightarrow> 'z mem_st_scheme res" where
  "freerange vstart vend s = freerange_from (PGROUNDUP vstart) vend s"

definition kinit1 :: "uint \<Rightarrow> uint \<Rightarrow> 'z mem_st_scheme \<Rightarrow> 'z mem_st_scheme res" where
  "kinit1 vstart vend s =
     (let s = s\<lparr>mach := initlock KmemLock ''kmem'' (mach s)\<rparr>;
          s = s\<lparr>use_lock := False\<rparr>
      in freerange vstart vend s)"

definition kinit2 :: "uint \<Rightarrow> uint \<Rightarrow> 'z mem_st_scheme \<Rightarrow> 'z mem_st_scheme res" where
  "kinit2 vstart vend s = rbind (freerange vstart vend s) (\<lambda>s. Ok (s\<lparr>use_lock := True\<rparr>))"

section \<open>Words in memory\<close>

lemma ld32_st32 [simp]: "ld32 (st32 a w m) a = w"
  using of_le32_le32 [of w] by (simp add: ld32_def st32_def le32_def)

lemma ld32_cong: "(\<And>i. a \<le> i \<Longrightarrow> i < a + 4 \<Longrightarrow> m' i = m i) \<Longrightarrow> ld32 m' a = ld32 m a"
  by (simp add: ld32_def)

lemma st32_other: "i < a \<or> a + 4 \<le> i \<Longrightarrow> st32 a w m i = m i"
  by (auto simp: st32_def)

section \<open>Pages\<close>

text \<open>An address \<^verbatim>\<open>kfree\<close> accepts.\<close>

definition page_ok :: "uint \<Rightarrow> uint \<Rightarrow> bool" where
  "page_ok e v \<longleftrightarrow> v mod PGSIZE = 0 \<and> e \<le> v \<and> V2P v < PHYSTOP"

lemma page_okD:
  assumes "page_ok e v"
  shows "unat v mod 4096 = 0" and "2147483648 \<le> unat v" and "unat v + 4096 \<le> 2147483648 + 234881024" and "v \<noteq> 0"
proof -
  have m: "unat v mod 4096 = 0"
  proof -
    have "unat (v mod PGSIZE) = 0" using assms by (simp add: page_ok_def)
    then show ?thesis by (simp only: unat_mod_distrib) (simp add: PGSIZE_def)
  qed
  have "unat KERNBASE \<le> unat v \<and> unat v < unat KERNBASE + unat PHYSTOP"
    using assms by (simp add: page_ok_def in_range_unat)
  then have b: "2147483648 \<le> unat v" "unat v < 2147483648 + 234881024" by (simp_all add: KERNBASE_def PHYSTOP_def)
  then show "unat v mod 4096 = 0" "2147483648 \<le> unat v" "unat v + 4096 \<le> 2147483648 + 234881024" "v \<noteq> 0"
    using m by auto
qed

text \<open>The addresses of a page; two pages are equal or disjoint.\<close>

definition page :: "uint \<Rightarrow> nat set" where
  "page v = {unat v ..< unat v + 4096}"

lemma pages_disjoint:
  assumes "unat v mod 4096 = 0" and "unat w mod 4096 = 0" and "v \<noteq> w"
  shows "page v \<inter> page w = {}"
proof -
  obtain j k where "unat v = 4096 * j" "unat w = 4096 * k" using assms(1,2) by (metis mod_0_imp_dvd dvdE)
  moreover have "unat v \<noteq> unat w" using assms(3) by (simp add: word_unat_eq_iff)
  ultimately show ?thesis by (auto simp: page_def)
qed

section \<open>The free list\<close>

fun run_list :: "mem \<Rightarrow> uint \<Rightarrow> uint list \<Rightarrow> bool" where
  "run_list m p [] \<longleftrightarrow> p = 0"
| "run_list m p (x # xs) \<longleftrightarrow> p = x \<and> p \<noteq> 0 \<and> run_list m (ld32 m (unat p)) xs"

definition free_list :: "'z mem_st_scheme \<Rightarrow> uint list \<Rightarrow> bool" where
  "free_list s xs \<longleftrightarrow> run_list (memory s) (freelist s) xs \<and> distinct xs \<and> (\<forall>x\<in>set xs. page_ok (kend s) x)"

lemma run_list_cong:
  assumes "\<And>x. x \<in> set xs \<Longrightarrow> \<forall>i\<in>page x. m' i = m i"
  shows "run_list m' p xs = run_list m p xs"
  using assms
proof (induction xs arbitrary: p)
  case (Cons x xs)
  have "ld32 m' (unat x) = ld32 m (unat x)"
    using Cons.prems [of x] by (intro ld32_cong) (auto simp: page_def)
  moreover have "run_list m' q xs = run_list m q xs" for q by (rule Cons.IH) (rule Cons.prems, simp)
  ultimately show ?case by (cases "p = x") simp_all
next
  case Nil
  show ?case by simp
qed

text \<open>The list is a property of the free pages and the list head alone.\<close>

lemma free_list_frame:
  assumes "free_list s xs" and "freelist s' = freelist s" and "kend s' = kend s"
    and "\<And>x i. x \<in> set xs \<Longrightarrow> i \<in> page x \<Longrightarrow> memory s' i = memory s i"
  shows "free_list s' xs"
proof -
  have "run_list (memory s') (freelist s) xs = run_list (memory s) (freelist s) xs" using assms(4) by (intro run_list_cong) blast
  then show ?thesis using assms(1-3) by (simp add: free_list_def)
qed

text \<open>\<open>ksync\<close>: the effect on the processor of one critical section of the allocator; \<open>kmem_ready\<close>:
  the allocator may be called, either still without lock or in a process that holds no lock.\<close>

definition ksync :: "'z mem_st_scheme \<Rightarrow> 'z mem_st_scheme" where
  "ksync s = (if use_lock s then sync s else s)"

definition kmem_ready :: "int \<Rightarrow> 'z mem_st_scheme \<Rightarrow> bool" where
  "kmem_ready pid s \<longleftrightarrow> (use_lock s \<longrightarrow> env_ok pid s)"

lemma mach_outermost_mem [simp]:
  "s\<lparr>mach := m, use_lock := a\<rparr> = s\<lparr>use_lock := a, mach := m\<rparr>" "s\<lparr>mach := m, freelist := b\<rparr> = s\<lparr>freelist := b, mach := m\<rparr>"
  "s\<lparr>mach := m, memory := c\<rparr> = s\<lparr>memory := c, mach := m\<rparr>" "s\<lparr>mach := m, kpgdir := b\<rparr> = s\<lparr>kpgdir := b, mach := m\<rparr>"
  by simp_all

lemma mem_sync [simp]:
  "use_lock (sync s) = use_lock s" "freelist (sync s) = freelist s" "memory (sync s) = memory s" "kend (sync s) = kend s"
  "kdata (sync s) = kdata s" "kpgdir (sync s) = kpgdir s" "mem_st.more (sync s) = mem_st.more s"
  by (simp_all add: sync_def)

lemma mem_rouse [simp]:
  "use_lock (rouse c s) = use_lock s" "freelist (rouse c s) = freelist s" "memory (rouse c s) = memory s" "kend (rouse c s) = kend s"
  "kdata (rouse c s) = kdata s" "kpgdir (rouse c s) = kpgdir s" "mem_st.more (rouse c s) = mem_st.more s"
  by (simp_all add: rouse_def)

text \<open>Nothing of the memory changed.\<close>

definition mem_same :: "'z mem_st_scheme \<Rightarrow> 'y mem_st_scheme \<Rightarrow> bool" where
  "mem_same s s' \<longleftrightarrow> use_lock s' = use_lock s \<and> freelist s' = freelist s \<and> memory s' = memory s \<and> kend s' = kend s \<and>
     kdata s' = kdata s \<and> kpgdir s' = kpgdir s"

lemma mem_same_simps [simp]:
  "mem_same s s" "mem_same s (sync s') = mem_same s s'" "mem_same s (rouse c s') = mem_same s s'"
  "mem_same s (s'\<lparr>mach := m\<rparr>) = mem_same s s'" "mem_same s (s'\<lparr>ptable := t\<rparr>) = mem_same s s'"
  by (simp_all add: mem_same_def)

lemma mem_same_trans: "mem_same s s' \<Longrightarrow> mem_same s' s'' \<Longrightarrow> mem_same s s''"
  by (simp add: mem_same_def)

lemma mem_ksync [simp]:
  "use_lock (ksync s) = use_lock s" "freelist (ksync s) = freelist s" "memory (ksync s) = memory s" "kend (ksync s) = kend s"
  "kdata (ksync s) = kdata s" "kpgdir (ksync s) = kpgdir s" "mem_st.more (ksync s) = mem_st.more s" "ptable (ksync s) = ptable s"
  by (simp_all add: ksync_def)

lemma env_ok_mem [simp]:
  "env_ok pid (s\<lparr>freelist := a\<rparr>) = env_ok pid s" "env_ok pid (s\<lparr>memory := c\<rparr>) = env_ok pid s"
  "env_ok pid (s\<lparr>use_lock := u\<rparr>) = env_ok pid s" "env_ok pid (s\<lparr>kpgdir := a\<rparr>) = env_ok pid s"
  by (simp_all add: env_ok_def curproc_def)

lemma kmem_ready_simps [simp]:
  "kmem_ready pid (s\<lparr>freelist := a\<rparr>) = kmem_ready pid s" "kmem_ready pid (s\<lparr>memory := c\<rparr>) = kmem_ready pid s"
  "kmem_ready pid (ksync s) = kmem_ready pid s"
  by (simp_all add: kmem_ready_def ksync_def)

lemma kalloc_run:
  assumes "kmem_ready pid s"
  shows "kalloc s = Ok (freelist s, (ksync s)\<lparr>freelist := (if freelist s \<noteq> 0 then ld32 (memory s) (unat (freelist s)) else freelist s)\<rparr>)"
  using assms by (cases "use_lock s") (simp_all add: kalloc_def kmem_ready_def ksync_def kacquire_eq krelease_eq sync_def Let_def)

lemma kfree_run:
  assumes "kmem_ready pid s" and "page_ok (kend s) v"
  shows "kfree v s = Ok ((ksync s)\<lparr>memory := st32 (unat v) (freelist s) (memset (memory s) (unat v) 1 4096), freelist := v\<rparr>)"
proof -
  have g: "\<not> (v mod PGSIZE \<noteq> 0 \<or> v < kend s \<or> V2P v \<ge> PHYSTOP)" using assms(2) by (auto simp: page_ok_def not_less not_le)
  have p: "unat PGSIZE = 4096" by (simp add: PGSIZE_def)
  show ?thesis
  proof (cases "use_lock s")
    case True
    then have e: "env_ok pid (s\<lparr>memory := memset (memory s) (unat v) 1 4096\<rparr>)" using assms(1) by (simp add: kmem_ready_def)
    show ?thesis
      unfolding kfree_def if_not_P [OF g] p Let_def
      using True by (simp add: kacquire_eq [OF e] krelease_eq [OF e] ksync_def sync_def)
  next
    case False
    then show ?thesis unfolding kfree_def if_not_P [OF g] p Let_def by (simp add: ksync_def)
  qed
qed

text \<open>\<open>kalloc\<close> pops the list; with the list empty it returns the null pointer.\<close>

lemma kalloc_pop:
  assumes "kmem_ready pid s" and "free_list s (x # xs)"
  shows "\<exists>s'. kalloc s = Ok (x, s') \<and> free_list s' xs \<and> kmem_ready pid s' \<and> memory s' = memory s \<and> s' = (ksync s)\<lparr>freelist := freelist s'\<rparr>"
  using assms by (auto simp: kalloc_run [OF assms(1)] free_list_def)

lemma kalloc_empty:
  assumes "kmem_ready pid s" and "free_list s []"
  shows "kalloc s = Ok (0, ksync s)"
  using assms(2) by (simp add: kalloc_run [OF assms(1)] free_list_def)

text \<open>\<open>kfree\<close> pushes a page that is in use, and changes no byte of another page.\<close>

lemma kfree_push:
  assumes r: "kmem_ready pid s" and f: "free_list s xs" and v: "page_ok (kend s) v" "v \<notin> set xs"
  shows "\<exists>s'. kfree v s = Ok s' \<and> free_list s' (v # xs) \<and> kmem_ready pid s' \<and> (\<forall>i. i \<notin> page v \<longrightarrow> memory s' i = memory s i) \<and>
    s' = (ksync s)\<lparr>memory := memory s', freelist := v\<rparr>"
proof -
  define s' where "s' = (ksync s)\<lparr>memory := st32 (unat v) (freelist s) (memset (memory s) (unat v) 1 4096), freelist := v\<rparr>"
  have m: "memory s' i = memory s i" if "i \<notin> page v" for i
    using that by (auto simp: s'_def page_def st32_other memset_apply not_le not_less)
  have "run_list (memory s') (freelist s) xs"
  proof -
    have "\<forall>i\<in>page x. memory s' i = memory s i" if "x \<in> set xs" for x
    proof -
      have "page_ok (kend s) x" "x \<noteq> v" using f v that by (auto simp: free_list_def)
      then have "page x \<inter> page v = {}" by (intro pages_disjoint page_okD(1) [OF v(1)]) (auto dest: page_okD)
      then show ?thesis using m by blast
    qed
    then show ?thesis using f run_list_cong [of xs "memory s'" "memory s"] by (simp add: free_list_def)
  qed
  then have "free_list s' (v # xs)"
    using f v page_okD(4) [OF v(1)] by (simp add: free_list_def s'_def)
  then show ?thesis using kfree_run [OF r v(1)] m r by (auto simp: s'_def)
qed

lemma kfree_panics: "\<not> page_ok (kend s) v \<Longrightarrow> kfree v s = Panic ''kfree''"
  by (auto simp: kfree_def page_ok_def not_less not_le)

unbundle bit_operations_syntax

lemma and_not_4095: "unat ((a::uint) AND NOT 4095) = unat a div 4096 * 4096"
proof -
  have "a AND NOT 4095 = push_bit 12 (drop_bit 12 a)"
  proof (rule bit_word_eqI)
    fix n
    assume "n < LENGTH(32)"
    moreover have "(4095::uint) = mask 12" by (simp add: mask_eq_exp_minus_1)
    then have "bit (4095::uint) n \<longleftrightarrow> n < 12" by (simp only: bit_mask_iff) auto
    ultimately show "bit (a AND NOT 4095) n \<longleftrightarrow> bit (push_bit 12 (drop_bit 12 a)) n" by (auto simp: bit_simps)
  qed
  then have "unat (a AND NOT 4095) = take_bit 32 (push_bit 12 (drop_bit 12 (take_bit 32 (unat a))))"
    by (simp add: unsigned_push_bit_eq unsigned_drop_bit_eq)
  also have "\<dots> = unat a div 4096 * 4096"
  proof -
    have "unat a < 2 ^ 32" using unsigned_less [of a] by simp
    moreover then have "unat a div 4096 * 4096 < 2 ^ 32" using div_times_less_eq_dividend [of "unat a" 4096] by linarith
    ultimately show ?thesis by (simp add: take_bit_eq_mod push_bit_eq_mult drop_bit_eq_div)
  qed
  finally show ?thesis .
qed

lemma unat_PGROUNDUP:
  assumes "unat a + 4095 < 2 ^ 32"
  shows "unat (PGROUNDUP a) = (unat a + 4095) div 4096 * 4096"
proof -
  have "unat (a + 4095) = unat a + 4095" using assms by (simp add: unat_word_ariths)
  then show ?thesis using and_not_4095 [of "a + 4095"] by (simp add: PGROUNDUP_def PGSIZE_def add.commute)
qed

lemma unat_PGROUNDDOWN: "unat (PGROUNDDOWN a) = unat a div 4096 * 4096"
  using and_not_4095 [of a] by (simp add: PGROUNDDOWN_def PGSIZE_def)

subsection \<open>The contract of a page allocator\<close>

primrec alloc_many :: "('s \<Rightarrow> ('p \<times> 's) res) \<Rightarrow> nat \<Rightarrow> 's \<Rightarrow> ('p list \<times> 's) res" where
  "alloc_many alloc 0 s = Ok ([], s)"
| "alloc_many alloc (Suc n) s =
     rbind (alloc s) (\<lambda>(p, s). rbind (alloc_many alloc n s) (\<lambda>(ps, s). Ok (p # ps, s)))"

locale page_allocator =
  fixes alloc :: "'s \<Rightarrow> ('p \<times> 's) res" and free :: "'p \<Rightarrow> 's \<Rightarrow> 's res"
    and avail :: "'s \<Rightarrow> 'p list \<Rightarrow> bool" and ready :: "'s \<Rightarrow> bool" and valid :: "'s \<Rightarrow> 'p \<Rightarrow> bool" and null :: 'p
  assumes alloc_pop: "ready s \<Longrightarrow> avail s (x # xs) \<Longrightarrow> \<exists>s'. alloc s = Ok (x, s') \<and> avail s' xs \<and> ready s'"
    and alloc_none: "ready s \<Longrightarrow> avail s [] \<Longrightarrow> \<exists>s'. alloc s = Ok (null, s') \<and> avail s' [] \<and> ready s'"
    and free_push: "ready s \<Longrightarrow> avail s xs \<Longrightarrow> valid s v \<Longrightarrow> v \<notin> set xs \<Longrightarrow>
      \<exists>s'. free v s = Ok s' \<and> avail s' (v # xs) \<and> ready s'"
    and avail_pages: "avail s xs \<Longrightarrow> distinct xs \<and> null \<notin> set xs"
begin

text \<open>A run of allocations hands out the available pages in order, then only the null pointer.\<close>

lemma alloc_run:
  "ready s \<Longrightarrow> avail s xs \<Longrightarrow>
   \<exists>s'. alloc_many alloc n s = Ok (take n xs @ replicate (n - length xs) null, s') \<and> avail s' (drop n xs) \<and> ready s'"
proof (induction n arbitrary: s xs)
  case (Suc n)
  show ?case
  proof (cases xs)
    case Nil
    with Suc.prems alloc_none obtain s1 where s1: "alloc s = Ok (null, s1)" "avail s1 []" "ready s1" by blast
    from Suc.IH [OF s1(3,2)] obtain s2 where "alloc_many alloc n s1 = Ok (replicate n null, s2)" "avail s2 []" "ready s2" by auto
    with s1 Nil show ?thesis by simp
  next
    case (Cons x ys)
    with Suc.prems alloc_pop obtain s1 where s1: "alloc s = Ok (x, s1)" "avail s1 ys" "ready s1" by blast
    from Suc.IH [OF s1(3,2)] obtain s2 where "alloc_many alloc n s1 = Ok (take n ys @ replicate (n - length ys) null, s2)"
      "avail s2 (drop n ys)" "ready s2" by blast
    with s1 Cons show ?thesis by simp
  qed
qed simp

lemma alloc_distinct:
  assumes "ready s" and "avail s xs"
  shows "\<exists>ps s'. alloc_many alloc n s = Ok (ps, s') \<and> distinct (filter (\<lambda>p. p \<noteq> null) ps) \<and>
    set (filter (\<lambda>p. p \<noteq> null) ps) \<inter> set (drop n xs) = {} \<and> avail s' (drop n xs)"
proof -
  obtain s' where s': "alloc_many alloc n s = Ok (take n xs @ replicate (n - length xs) null, s')" "avail s' (drop n xs)"
    using alloc_run [OF assms] by blast
  have d: "distinct xs" "null \<notin> set xs" using avail_pages [OF assms(2)] by auto
  then have "filter (\<lambda>p. p \<noteq> null) (take n xs @ replicate (n - length xs) null) = take n xs"
    by (auto simp: filter_id_conv dest: in_set_takeD)
  moreover have "distinct (take n xs)" "set (take n xs) \<inter> set (drop n xs) = {}"
    using d by (auto simp: set_take_disj_set_drop_if_distinct)
  ultimately show ?thesis using s' by auto
qed

lemma free_alloc:
  assumes "ready s" and "avail s xs" and "valid s v" and "v \<notin> set xs"
  shows "\<exists>s1 s2. free v s = Ok s1 \<and> alloc s1 = Ok (v, s2) \<and> avail s2 xs"
proof -
  obtain s1 where s1: "free v s = Ok s1" "avail s1 (v # xs)" "ready s1" using free_push [OF assms] by blast
  with alloc_pop [OF s1(3,2)] show ?thesis by blast
qed

end

interpretation km: page_allocator kalloc kfree free_list "kmem_ready pid" "\<lambda>s. page_ok (kend s)" 0
proof
  show "\<exists>s'. kalloc s = Ok (x, s') \<and> free_list s' xs \<and> kmem_ready pid s'" if "kmem_ready pid s" "free_list s (x # xs)"
    for s :: "'a mem_st_scheme" and x xs using kalloc_pop [OF that] by blast
  show "\<exists>s'. kalloc s = Ok (0, s') \<and> free_list s' [] \<and> kmem_ready pid s'" if "kmem_ready pid s" "free_list s []"
    for s :: "'a mem_st_scheme" using kalloc_empty [OF that] that by (simp add: free_list_def)
  show "\<exists>s'. kfree v s = Ok s' \<and> free_list s' (v # xs) \<and> kmem_ready pid s'"
    if "kmem_ready pid s" "free_list s xs" "page_ok (kend s) v" "v \<notin> set xs" for s :: "'a mem_st_scheme" and v xs
    using kfree_push [OF that] by blast
  show "distinct xs \<and> 0 \<notin> set xs" if "free_list s xs" for s :: "'a mem_st_scheme" and xs
    using that page_okD(4) by (auto simp: free_list_def)
qed

subsection \<open>freerange\<close>

text \<open>The pages that lie between two addresses.\<close>

definition pages_between :: "nat \<Rightarrow> nat \<Rightarrow> uint set" where
  "pages_between a b = {v. unat v mod 4096 = 0 \<and> a \<le> unat v \<and> unat v + 4096 \<le> b}"

lemma page_okI:
  assumes "unat v mod 4096 = 0" and "unat e \<le> unat v" and "2147483648 \<le> unat v" and "unat v < 2147483648 + 234881024"
  shows "page_ok e v"
proof -
  have "v mod PGSIZE = 0" using assms(1) by (simp add: word_unat_eq_iff unat_mod_distrib PGSIZE_def)
  moreover have "V2P v < PHYSTOP" using assms(3,4) by (simp only: in_range_unat) (simp add: KERNBASE_def PHYSTOP_def)
  ultimately show ?thesis using assms(2) by (simp add: page_ok_def word_le_nat_alt)
qed

lemma freerange_from_spec:
  assumes "kmem_ready pid s" and "free_list s xs" and "unat p mod 4096 = 0" and "unat (kend s) \<le> unat p" and "2147483648 \<le> unat p"
    and "unat vend \<le> 2147483648 + 234881024" and "unat p < 2 ^ 32 - 4096" and "set xs \<inter> pages_between (unat p) (unat vend) = {}"
  shows "\<exists>s' ys. freerange_from p vend s = Ok s' \<and> free_list s' ys \<and> set ys = set xs \<union> pages_between (unat p) (unat vend) \<and>
    kmem_ready pid s' \<and> use_lock s' = use_lock s \<and> kend s' = kend s"
  using assms
proof (induction "unat vend - unat p" arbitrary: p s xs rule: less_induct)
  case less
  have np: "unat (p + PGSIZE) = unat p + 4096" using less.prems(7) by (simp add: PGSIZE_def unat_word_ariths)
  show ?case
  proof (cases "p + PGSIZE \<le> vend")
    case True
    then have le: "unat p + 4096 \<le> unat vend" using np by (simp add: word_le_nat_alt)
    have v: "page_ok (kend s) p" using less.prems le by (intro page_okI) auto
    have pin: "p \<in> pages_between (unat p) (unat vend)" using less.prems(3) le by (simp add: pages_between_def)
    then have "p \<notin> set xs" using less.prems(8) by blast
    from kfree_push [OF less.prems(1,2) v this] obtain s1 where
      s1: "kfree p s = Ok s1" "free_list s1 (p # xs)" "kmem_ready pid s1" "s1 = (ksync s)\<lparr>memory := memory s1, freelist := p\<rparr>" by blast
    have k1: "kend s1 = kend s" "use_lock s1 = use_lock s" by (subst s1(4), simp)+
    have split: "pages_between (unat p) (unat vend) = insert p (pages_between (unat p + 4096) (unat vend))"
    proof (rule set_eqI)
      fix v
      have "v = p \<or> unat p + 4096 \<le> unat v" if v: "unat v mod 4096 = 0" "unat p \<le> unat v"
      proof (rule ccontr)
        assume a: "\<not> (v = p \<or> unat p + 4096 \<le> unat v)"
        note q = mult_div_mod_eq [of 4096 "unat v"] mult_div_mod_eq [of 4096 "unat p"] v less.prems(3)
        have "unat v div 4096 < unat p div 4096 + 1" "unat p div 4096 < unat v div 4096 + 1" using q a by linarith+
        then have "unat v = unat p" using q by linarith
        then show False using a by (simp add: word_unat_eq_iff)
      qed
      then show "v \<in> pages_between (unat p) (unat vend) \<longleftrightarrow> v \<in> insert p (pages_between (unat p + 4096) (unat vend))"
        using pin by (auto simp: pages_between_def not_le)
    qed
    have pn: "p \<notin> pages_between (unat p + 4096) (unat vend)" by (simp add: pages_between_def)
    have "\<exists>s' ys. freerange_from (p + PGSIZE) vend s1 = Ok s' \<and> free_list s' ys \<and> set ys = set (p # xs) \<union> pages_between (unat (p + PGSIZE)) (unat vend) \<and>
      kmem_ready pid s' \<and> use_lock s' = use_lock s1 \<and> kend s' = kend s1"
    proof (rule less.hyps)
      show "unat vend - unat (p + PGSIZE) < unat vend - unat p" using le np by simp
      show "set (p # xs) \<inter> pages_between (unat (p + PGSIZE)) (unat vend) = {}"
        using less.prems(8) pn unfolding np split by auto
    qed (use less.prems s1 np k1 le in auto)
    then obtain s' ys where "freerange_from (p + PGSIZE) vend s1 = Ok s'" "free_list s' ys" "set ys = set (p # xs) \<union> pages_between (unat (p + PGSIZE)) (unat vend)"
      "kmem_ready pid s'" "use_lock s' = use_lock s1" "kend s' = kend s1" by blast
    then show ?thesis unfolding np split using s1(1) True k1 by (subst freerange_from.simps) auto
  next
    case False
    then have "unat vend < unat p + 4096" using np by (simp add: word_le_nat_alt)
    then have "pages_between (unat p) (unat vend) = {}" by (auto simp: pages_between_def)
    then show ?thesis using False less.prems by (subst freerange_from.simps) auto
  qed
qed

definition demo_mem :: mem_st where
  "demo_mem = kern.extend demo_sys \<lparr>use_lock = True, freelist = 0x80101000, memory = st32 0x80101000 0x80103000 (\<lambda>_. 0),
     kend = 0x80100000, kdata = 0x80108000, kpgdir = 0\<rparr>"

lemma demo_mem_fields:
  "use_lock demo_mem" "freelist demo_mem = 0x80101000" "kend demo_mem = 0x80100000" "kmem_ready 1 demo_mem"
proof -
  have "env_ok 1 demo_mem" using demo_sys_env by (simp add: env_ok_def curproc_def demo_mem_def kern.defs)
  then show "use_lock demo_mem" "freelist demo_mem = 0x80101000" "kend demo_mem = 0x80100000" "kmem_ready 1 demo_mem"
    by (simp_all add: demo_mem_def kern.defs kmem_ready_def)
qed

lemma demo_mem_list: "free_list demo_mem [0x80101000, 0x80103000]"
proof -
  have "memory demo_mem = st32 0x80101000 0x80103000 (\<lambda>_. 0)" by (simp add: demo_mem_def kern.defs)
  moreover have "ld32 (st32 0x80101000 0x80103000 (\<lambda>_. 0)) 0x80103000 = 0"
    by (simp add: ld32_def st32_def of_le32_def)
  moreover have "page_ok 0x80100000 0x80101000" "page_ok 0x80100000 0x80103000"
    by (simp_all add: page_okI)
  ultimately show ?thesis using demo_mem_fields by (simp add: free_list_def)
qed

section \<open>Properties\<close>

text \<open>
  C17. However many pages are requested, \<^verbatim>\<open>kalloc\<close> hands out pairwise different pages, none of
  which is still on the free list, and returns the null pointer once the list is exhausted; every
  call returns.
\<close>

theorem kalloc_hands_out_distinct:
  assumes "kmem_ready pid s" and "free_list s xs"
  shows "\<exists>ps s'. alloc_many kalloc n s = Ok (ps, s') \<and> ps = take n xs @ replicate (n - length xs) 0 \<and>
    distinct (filter (\<lambda>p. p \<noteq> 0) ps) \<and> set (filter (\<lambda>p. p \<noteq> 0) ps) \<inter> set (drop n xs) = {} \<and> free_list s' (drop n xs)"
  using km.alloc_run [OF assms, of n] km.alloc_distinct [OF assms, of n] by auto

theorem kalloc_hands_out_distinct_witness:
  "\<exists>s'. alloc_many kalloc 3 demo_mem = Ok ([0x80101000, 0x80103000, 0], s')"
  using kalloc_hands_out_distinct [OF demo_mem_fields(4) demo_mem_list, of 3] by (auto simp: eval_nat_numeral)

text \<open>
  C18. \<^verbatim>\<open>kfree\<close> of a page that is in use returns; it changes no byte outside that page, and the
  next \<^verbatim>\<open>kalloc\<close> hands out this page and restores the free list. On any other address (unaligned,
  inside the kernel image, above \<^verbatim>\<open>PHYSTOP\<close> or below \<^verbatim>\<open>KERNBASE\<close>) it panics.
\<close>

theorem kfree_kalloc_roundtrip:
  assumes "kmem_ready pid s" and "free_list s xs" and "v \<notin> set xs"
  shows "if page_ok (kend s) v
    then \<exists>s1 s2. kfree v s = Ok s1 \<and> (\<forall>i. i \<notin> page v \<longrightarrow> memory s1 i = memory s i) \<and> kalloc s1 = Ok (v, s2) \<and> free_list s2 xs
    else kfree v s = Panic ''kfree''"
proof (cases "page_ok (kend s) v")
  case True
  then obtain s1 where s1: "kfree v s = Ok s1" "\<forall>i. i \<notin> page v \<longrightarrow> memory s1 i = memory s i"
    using kfree_push [OF assms(1,2) True assms(3)] by blast
  moreover obtain s2 where "kalloc s1 = Ok (v, s2)" "free_list s2 xs"
    using km.free_alloc [OF assms(1,2) True assms(3)] s1(1) by auto
  ultimately show ?thesis using True by auto
qed (simp add: kfree_panics)

theorem kfree_kalloc_roundtrip_witness:
  "(\<exists>s1 s2. kfree 0x80104000 demo_mem = Ok s1 \<and> kalloc s1 = Ok (0x80104000, s2)) \<and> kfree 0x80100800 demo_mem = Panic ''kfree''"
proof -
  have "page_ok 0x80100000 0x80104000" by (simp add: page_okI)
  moreover have "\<not> page_ok 0x80100000 0x80100800" using page_okD(1) [where e = "0x80100000" and v = "0x80100800"] by auto
  ultimately show ?thesis
    using kfree_kalloc_roundtrip [OF demo_mem_fields(4) demo_mem_list, where v = "0x80104000"]
      kfree_kalloc_roundtrip [OF demo_mem_fields(4) demo_mem_list, where v = "0x80100800"] by (auto simp: demo_mem_fields)
qed

text \<open>
  C19. \<^verbatim>\<open>kinit1(vstart, vend)\<close> with an empty free list puts exactly the pages that lie completely
  between the two addresses on the free list, each once. The loop of \<^verbatim>\<open>freerange\<close> ends.
\<close>

theorem kinit1_frees_range:
  assumes "freelist s = 0" and "unat (kend s) \<le> unat vstart" and "2147483648 \<le> unat vstart"
    and "unat vstart \<le> unat vend" and "unat vend \<le> 2147483648 + 234881024"
  shows "\<exists>s' ys. kinit1 vstart vend s = Ok s' \<and> free_list s' ys \<and> set ys = pages_between (unat vstart) (unat vend)"
proof -
  let ?s = "s\<lparr>mach := initlock KmemLock ''kmem'' (mach s), use_lock := False\<rparr>" and ?p = "PGROUNDUP vstart"
  have r: "kmem_ready 0 ?s" "free_list ?s []" using assms(1) by (simp_all add: kmem_ready_def free_list_def)
  have up: "unat ?p = (unat vstart + 4095) div 4096 * 4096" using assms(4,5) by (intro unat_PGROUNDUP) simp
  have ge: "unat vstart \<le> unat ?p" "unat ?p \<le> unat vstart + 4095"
    using mult_div_mod_eq [of 4096 "unat vstart + 4095"] mod_less_divisor [of 4096 "unat vstart + 4095", simplified] up by linarith+
  have pb: "pages_between (unat ?p) (unat vend) = pages_between (unat vstart) (unat vend)"
  proof -
    have "unat ?p \<le> x \<longleftrightarrow> unat vstart \<le> x" if "x mod 4096 = 0" for x
    proof
      show "unat vstart \<le> x" if "unat ?p \<le> x" using that ge(1) by simp
      assume "unat vstart \<le> x"
      then have "(unat vstart + 4095) div 4096 < x div 4096 + 1"
        using mult_div_mod_eq [of 4096 x] mult_div_mod_eq [of 4096 "unat vstart + 4095"] \<open>x mod 4096 = 0\<close> by linarith
      then show "unat ?p \<le> x" using mult_div_mod_eq [of 4096 x] \<open>x mod 4096 = 0\<close> up by linarith
    qed
    then show ?thesis by (auto simp: pages_between_def)
  qed
  obtain s' ys where "freerange_from ?p vend ?s = Ok s'" "free_list s' ys" "set ys = pages_between (unat vstart) (unat vend)"
    using freerange_from_spec [OF r, of ?p vend] assms ge up pb by auto
  then show ?thesis by (auto simp: kinit1_def freerange_def Let_def)
qed

theorem kinit1_frees_range_witness:
  "\<exists>s' ys. kinit1 0x80100001 0x80103000 (demo_mem\<lparr>freelist := 0\<rparr>) = Ok s' \<and> free_list s' ys \<and> 0x80101000 \<in> set ys \<and> 0x80100000 \<notin> set ys"
proof -
  obtain s' ys where y: "kinit1 0x80100001 0x80103000 (demo_mem\<lparr>freelist := 0\<rparr>) = Ok s'" "free_list s' ys"
    "set ys = pages_between (unat (0x80100001 :: uint)) (unat (0x80103000 :: uint))"
    using kinit1_frees_range [of "demo_mem\<lparr>freelist := 0\<rparr>" "0x80100001" "0x80103000"] by (auto simp: demo_mem_fields)
  then have "0x80101000 \<in> set ys" "0x80100000 \<notin> set ys" by (simp_all add: pages_between_def)
  with y show ?thesis by blast
qed

end
