(* ===== verification/Bio.thy ===== *)
theory Bio
  imports Kalloc
begin

section \<open>The buffer cache and the memory disk (bio.c, buf.h, memide.c)\<close>

text \<open>
  \<open>bcache\<close> is the array \<^verbatim>\<open>bcache.buf\<close> followed by \<^verbatim>\<open>bcache.head\<close>: a \<^verbatim>\<open>struct buf *\<close> is an index, the
  list head is the index \<open>HEAD\<close>. The doubly linked list of buffers is modelled with its pointers;
  \<open>dlist\<close> says which sequence of buffers it represents, and the two loops of \<^verbatim>\<open>bget\<close> and the pointer
  surgery of \<^verbatim>\<open>brelse\<close> are proved to be a search in that sequence and a move to its front.

  The disk is the one of memide.c, \<^verbatim>\<open>disksize\<close> blocks in memory. \<open>dtrace\<close> is not part of the code:
  it records the writes to the disk in their order, which is what a crash can cut off.

  Block numbers, device numbers and reference counts are natural numbers and integers: they count
  objects of the file system and do not come near \<open>2 ^ 32\<close>.
\<close>

type_synonym block = "uchar list"

definition BSIZE :: nat where "BSIZE = 512"

definition NBUF :: nat where "NBUF = 30"

definition HEAD :: nat where "HEAD = NBUF"

record buf =
  b_valid :: bool
  b_dirty :: bool
  b_dev :: nat
  b_blockno :: nat
  b_lock :: sleeplock
  b_refcnt :: int
  b_prev :: nat
  b_next :: nat
  b_data :: block

record bio_st = mem_st +
  bcache :: "buf list"
  disk :: "nat \<Rightarrow> block"
  disksize :: nat
  dtrace :: "(nat \<times> block) list"

definition upd_buf :: "nat \<Rightarrow> (buf \<Rightarrow> buf) \<Rightarrow> 'z bio_st_scheme \<Rightarrow> 'z bio_st_scheme" where
  "upd_buf i f s = s\<lparr>bcache := (bcache s)[i := f (bcache s ! i)]\<rparr>"

text \<open>The assignment \<^verbatim>\<open>b->data = d\<close> that the clients of the cache perform bytewise.\<close>

definition bset :: "nat \<Rightarrow> block \<Rightarrow> 'z bio_st_scheme \<Rightarrow> 'z bio_st_scheme" where
  "bset i d s = upd_buf i (\<lambda>b. b\<lparr>b_data := d\<rparr>) s"

subsection \<open>The doubly linked list\<close>

text \<open>\<^verbatim>\<open>b->next = head.next; b->prev = &head; head.next->prev = b; head.next = b\<close>.\<close>

definition link_front :: "nat \<Rightarrow> buf list \<Rightarrow> buf list" where
  "link_front b bs =
     (let bs = bs[b := (bs ! b)\<lparr>b_next := b_next (bs ! HEAD)\<rparr>];
          bs = bs[b := (bs ! b)\<lparr>b_prev := HEAD\<rparr>];
          f = b_next (bs ! HEAD);
          bs = bs[f := (bs ! f)\<lparr>b_prev := b\<rparr>]
      in bs[HEAD := (bs ! HEAD)\<lparr>b_next := b\<rparr>])"

text \<open>\<^verbatim>\<open>b->next->prev = b->prev; b->prev->next = b->next\<close>.\<close>

definition unlink_buf :: "nat \<Rightarrow> buf list \<Rightarrow> buf list" where
  "unlink_buf b bs =
     (let n = b_next (bs ! b);
          bs = bs[n := (bs ! n)\<lparr>b_prev := b_prev (bs ! b)\<rparr>];
          p = b_prev (bs ! b)
      in bs[p := (bs ! p)\<lparr>b_next := b_next (bs ! b)\<rparr>])"

fun binit_loop :: "nat \<Rightarrow> nat \<Rightarrow> 'z bio_st_scheme \<Rightarrow> 'z bio_st_scheme" where
  "binit_loop b 0 s = s"
| "binit_loop b (Suc n) s =
     (case initsleeplock (BufSleeplock b) ''buffer'' s of (sl, s) \<Rightarrow>
      binit_loop (Suc b) n
        (s\<lparr>bcache := link_front b ((bcache s)[b := (bcache s ! b)\<lparr>b_lock := sl\<rparr>])\<rparr>))"

definition binit :: "'z bio_st_scheme \<Rightarrow> 'z bio_st_scheme" where
  "binit s =
     (let s = s\<lparr>mach := initlock BcacheLock ''bcache'' (mach s)\<rparr>;
          s = upd_buf HEAD (\<lambda>h. h\<lparr>b_prev := HEAD, b_next := HEAD\<rparr>) s
      in binit_loop 0 NBUF s)"

subsection \<open>bget, bread, bwrite, brelse\<close>

text \<open>The two loops of \<^verbatim>\<open>bget\<close>, from the buffer \<open>b\<close> on; they end at the list head.\<close>

partial_function (option) bget_lookup :: "nat \<Rightarrow> nat \<Rightarrow> buf list \<Rightarrow> nat \<Rightarrow> nat option option" where
  "bget_lookup dev blockno bs b =
     (if b = HEAD then Some None
      else if b_dev (bs ! b) = dev \<and> b_blockno (bs ! b) = blockno then Some (Some b)
      else bget_lookup dev blockno bs (b_next (bs ! b)))"

partial_function (option) bget_recycle :: "buf list \<Rightarrow> nat \<Rightarrow> nat option option" where
  "bget_recycle bs b =
     (if b = HEAD then Some None
      else if b_refcnt (bs ! b) = 0 \<and> \<not> b_dirty (bs ! b) then Some (Some b)
      else bget_recycle bs (b_prev (bs ! b)))"

definition lock_buf :: "nat \<Rightarrow> 'z bio_st_scheme \<Rightarrow> (nat \<times> 'z bio_st_scheme) res" where
  "lock_buf b s =
     rbind (acquiresleep (BufSleeplock b) (b_lock (bcache s ! b)) s) (\<lambda>(sl, s).
     Ok (b, upd_buf b (\<lambda>x. x\<lparr>b_lock := sl\<rparr>) s))"

definition bget :: "nat \<Rightarrow> nat \<Rightarrow> 'z bio_st_scheme \<Rightarrow> (nat \<times> 'z bio_st_scheme) res" where
  "bget dev blockno s =
     rbind (kacquire BcacheLock s) (\<lambda>s.
     case bget_lookup dev blockno (bcache s) (b_next (bcache s ! HEAD)) of
       None \<Rightarrow> Diverge
     | Some (Some b) \<Rightarrow>
         rbind (krelease BcacheLock (upd_buf b (\<lambda>x. x\<lparr>b_refcnt := b_refcnt x + 1\<rparr>) s)) (lock_buf b)
     | Some None \<Rightarrow>
         (case bget_recycle (bcache s) (b_prev (bcache s ! HEAD)) of
            None \<Rightarrow> Diverge
          | Some (Some b) \<Rightarrow>
              rbind (krelease BcacheLock (upd_buf b (\<lambda>x. x\<lparr>b_dev := dev, b_blockno := blockno,
                       b_valid := False, b_dirty := False, b_refcnt := 1\<rparr>) s)) (lock_buf b)
          | Some None \<Rightarrow> Panic ''bget: no buffers''))"

text \<open>memide.c\<close>

definition iderw :: "nat \<Rightarrow> 'z bio_st_scheme \<Rightarrow> 'z bio_st_scheme res" where
  "iderw b s =
     rbind (holdingsleep (BufSleeplock b) (b_lock (bcache s ! b)) s) (\<lambda>(h, s).
     let x = bcache s ! b in
     if \<not> h then Panic ''iderw: buf not locked''
     else if b_valid x \<and> \<not> b_dirty x then Panic ''iderw: nothing to do''
     else if b_dev x \<noteq> 1 then Panic ''iderw: request not for disk 1''
     else if b_blockno x \<ge> disksize s then Panic ''iderw: block out of range''
     else if b_dirty x
     then Ok (upd_buf b (\<lambda>x. x\<lparr>b_dirty := False, b_valid := True\<rparr>)
                (s\<lparr>disk := (disk s)(b_blockno x := b_data x),
                   dtrace := dtrace s @ [(b_blockno x, b_data x)]\<rparr>))
     else Ok (upd_buf b (\<lambda>x. x\<lparr>b_data := disk s (b_blockno x), b_valid := True\<rparr>) s))"

definition bread :: "nat \<Rightarrow> nat \<Rightarrow> 'z bio_st_scheme \<Rightarrow> (nat \<times> 'z bio_st_scheme) res" where
  "bread dev blockno s =
     rbind (bget dev blockno s) (\<lambda>(b, s).
     if \<not> b_valid (bcache s ! b)
     then rbind (iderw b s) (\<lambda>s. Ok (b, s))
     else Ok (b, s))"

definition bwrite :: "nat \<Rightarrow> 'z bio_st_scheme \<Rightarrow> 'z bio_st_scheme res" where
  "bwrite b s =
     rbind (holdingsleep (BufSleeplock b) (b_lock (bcache s ! b)) s) (\<lambda>(h, s).
     if \<not> h then Panic ''bwrite''
     else iderw b (upd_buf b (\<lambda>x. x\<lparr>b_dirty := True\<rparr>) s))"

definition brelse :: "nat \<Rightarrow> 'z bio_st_scheme \<Rightarrow> 'z bio_st_scheme res" where
  "brelse b s =
     rbind (holdingsleep (BufSleeplock b) (b_lock (bcache s ! b)) s) (\<lambda>(h, s).
     if \<not> h then Panic ''brelse''
     else rbind (releasesleep (BufSleeplock b) (b_lock (bcache s ! b)) s) (\<lambda>(sl, s).
     let s = upd_buf b (\<lambda>x. x\<lparr>b_lock := sl\<rparr>) s in
     rbind (kacquire BcacheLock s) (\<lambda>s.
     let s = upd_buf b (\<lambda>x. x\<lparr>b_refcnt := b_refcnt x - 1\<rparr>) s;
         s = (if b_refcnt (bcache s ! b) = 0
              then s\<lparr>bcache := link_front b (unlink_buf b (bcache s))\<rparr> else s)
     in krelease BcacheLock s)))"

section \<open>The list behind the pointers\<close>

text \<open>\<open>dlist nx pv xs\<close>: following \<open>nx\<close> from the head gives \<open>xs\<close> and the head again, following
  \<open>pv\<close> the same backwards.\<close>

definition dlist :: "(nat \<Rightarrow> nat) \<Rightarrow> (nat \<Rightarrow> nat) \<Rightarrow> nat list \<Rightarrow> bool" where
  "dlist nx pv xs \<longleftrightarrow> distinct (HEAD # xs) \<and>
     map nx (HEAD # xs) = xs @ [HEAD] \<and> map pv (xs @ [HEAD]) = HEAD # xs"

definition bnext :: "buf list \<Rightarrow> nat \<Rightarrow> nat" where
  "bnext bs i = b_next (bs ! i)"

definition bprev :: "buf list \<Rightarrow> nat \<Rightarrow> nat" where
  "bprev bs i = b_prev (bs ! i)"

lemma map_upd_notin: "x \<notin> set xs \<Longrightarrow> map (f(x := y)) xs = map f xs"
  by (induction xs) auto

lemma map_fun_upd_append:
  "distinct (us @ b # vs) \<Longrightarrow> map (f(b := y)) (us @ b # vs) = map f us @ y # map f vs"
  by (simp add: map_upd_notin)

lemma dlist_front:
  assumes "dlist nx pv xs" and "b \<notin> set (HEAD # xs)"
  shows "dlist ((nx(b := nx HEAD))(HEAD := b)) ((pv(b := HEAD))(nx HEAD := b)) (b # xs)"
proof (cases xs)
  case Nil
  then show ?thesis using assms by (auto simp: dlist_def)
next
  case (Cons x ys)
  then have "nx HEAD = x" "x \<noteq> HEAD" "x \<noteq> b" "x \<notin> set ys" "HEAD \<notin> set ys" "b \<notin> set ys"
    using assms by (auto simp: dlist_def)
  then show ?thesis using assms Cons by (auto simp: dlist_def map_upd_notin)
qed

lemma dlist_remove:
  assumes d: "dlist nx pv (us @ b # vs)"
  shows "dlist (nx(pv b := nx b)) (pv(nx b := pv b)) (us @ vs)"
proof -
  have ne: "b \<noteq> HEAD" and dist: "distinct (HEAD # us @ b # vs)" using d by (auto simp: dlist_def)
  have nx: "map nx (HEAD # us) @ nx b # map nx vs = us @ b # vs @ [HEAD]"
    using d by (simp add: dlist_def)
  have pv: "map pv us @ pv b # map pv (vs @ [HEAD]) = HEAD # us @ b # vs"
    using d by (simp add: dlist_def)
  have n1: "map nx (HEAD # us) = us @ [b]" "nx b # map nx vs = vs @ [HEAD]"
    using nx append_eq_append_conv [of "map nx (HEAD # us)" "us @ [b]" "nx b # map nx vs" "vs @ [HEAD]"] by auto
  have p1: "map pv us @ [pv b] = HEAD # us" "map pv (vs @ [HEAD]) = b # vs"
    using pv append_eq_append_conv [of "map pv us @ [pv b]" "HEAD # us" "map pv (vs @ [HEAD])" "b # vs"] by auto
  have pb: "pv b = last (HEAD # us)" using p1(1) by (metis last_snoc)
  have nb: "nx b = hd (vs @ [HEAD])" using n1(2) by (metis list.sel(1))
  obtain ws where ws: "HEAD # us = ws @ [pv b]" using pb append_butlast_last_id [of "HEAD # us"] by (metis list.distinct(1))
  obtain zs where zs: "vs @ [HEAD] = nx b # zs" using nb by (cases "vs @ [HEAD]") auto
  have dws: "distinct (ws @ pv b # vs)" using dist unfolding append_Cons [symmetric] append_assoc [symmetric] ws by simp
  have dzs: "distinct (us @ nx b # zs)" using dist unfolding zs [symmetric] by auto
  have "map (nx(pv b := nx b)) (HEAD # us @ vs) = map nx ws @ nx b # map nx vs"
    using map_fun_upd_append [OF dws, of nx "nx b"] ws by (metis append_Cons append_assoc append_Nil)
  also have "map nx ws = us"
    using n1(1) unfolding ws by simp
  also have "us @ nx b # map nx vs = us @ vs @ [HEAD]" using n1(2) by simp
  finally have N: "map (nx(pv b := nx b)) (HEAD # us @ vs) = us @ vs @ [HEAD]" .
  have "map (pv(nx b := pv b)) (us @ vs @ [HEAD]) = map pv us @ pv b # map pv zs"
    using map_fun_upd_append [OF dzs, of pv "pv b"] zs by simp
  also have "map pv zs = vs"
    using p1(2) unfolding zs by simp
  also have "map pv us @ pv b # vs = HEAD # us @ vs"
    using p1(1) by (metis append_Cons append_assoc append_Nil)
  finally have P: "map (pv(nx b := pv b)) (us @ vs @ [HEAD]) = HEAD # us @ vs" .
  have "distinct (HEAD # us @ vs)" using dist by auto
  with N P show ?thesis unfolding dlist_def append_assoc by blast
qed

lemma bnext_upd:
  "i < length bs \<Longrightarrow> bnext (bs[i := x]) = (bnext bs)(i := b_next x)"
  "i < length bs \<Longrightarrow> bprev (bs[i := x]) = (bprev bs)(i := b_prev x)"
  by (auto simp: bnext_def bprev_def fun_eq_iff)

lemma bnext_upd_same:
  "b_next x = b_next (bs ! i) \<Longrightarrow> bnext (bs[i := x]) = bnext bs"
  "b_prev x = b_prev (bs ! i) \<Longrightarrow> bprev (bs[i := x]) = bprev bs"
proof -
  have "b_next (bs[i := x] ! j) = b_next (bs ! j)" if "b_next x = b_next (bs ! i)" for j
    using that by (cases "i < length bs"; cases "j = i") (simp_all add: list_update_beyond)
  then show "b_next x = b_next (bs ! i) \<Longrightarrow> bnext (bs[i := x]) = bnext bs"
    by (simp add: bnext_def fun_eq_iff)
  have "b_prev (bs[i := x] ! j) = b_prev (bs ! j)" if "b_prev x = b_prev (bs ! i)" for j
    using that by (cases "i < length bs"; cases "j = i") (simp_all add: list_update_beyond)
  then show "b_prev x = b_prev (bs ! i) \<Longrightarrow> bprev (bs[i := x]) = bprev bs"
    by (simp add: bprev_def fun_eq_iff)
qed

text \<open>The buffers of the array form the list, in most-recently-used order \<open>xs\<close>.\<close>

definition cache_list :: "buf list \<Rightarrow> nat list \<Rightarrow> bool" where
  "cache_list bs xs \<longleftrightarrow> length bs = Suc NBUF \<and> dlist (bnext bs) (bprev bs) xs \<and> set xs \<subseteq> {..<NBUF}"

text \<open>A buffer without its links.\<close>

definition bcore :: "buf \<Rightarrow> buf" where
  "bcore x = x\<lparr>b_prev := 0, b_next := 0\<rparr>"

lemma bcore_links [simp]:
  "bcore (x\<lparr>b_prev := p\<rparr>) = bcore x" "bcore (x\<lparr>b_next := p\<rparr>) = bcore x"
  by (simp_all add: bcore_def)

lemma bcore_eq:
  "bcore x = bcore y \<longleftrightarrow> b_valid x = b_valid y \<and> b_dirty x = b_dirty y \<and> b_dev x = b_dev y \<and>
     b_blockno x = b_blockno y \<and> b_lock x = b_lock y \<and> b_refcnt x = b_refcnt y \<and> b_data x = b_data y"
  by (cases x; cases y) (auto simp: bcore_def)

lemma bcore_upd_same: "bcore x = bcore (bs ! i) \<Longrightarrow> map bcore (bs[i := x]) = map bcore bs"
  by (cases "i < length bs") (auto simp: map_update list_update_beyond intro!: nth_equalityI simp: nth_list_update)

lemma link_front_core: "map bcore (link_front b bs) = map bcore bs"
  unfolding link_front_def Let_def by (simp add: bcore_upd_same del: map_update list_update_overwrite)

lemma unlink_core: "map bcore (unlink_buf b bs) = map bcore bs"
  unfolding unlink_buf_def Let_def by (simp add: bcore_upd_same del: map_update)

lemma length_link [simp]: "length (link_front b bs) = length bs" "length (unlink_buf b bs) = length bs"
  by (simp_all add: link_front_def unlink_buf_def Let_def)

lemma HEAD_NBUF: "HEAD < Suc NBUF" "\<not> HEAD < NBUF" by (simp_all add: HEAD_def)

lemma dlist_in:
  assumes "dlist nx pv xs" and "i \<in> set xs"
  shows "nx i \<in> insert HEAD (set xs)" and "pv i \<in> insert HEAD (set xs)" and "nx HEAD \<in> insert HEAD (set xs)"
proof -
  from assms have m: "map nx (HEAD # xs) = xs @ [HEAD]" "map pv (xs @ [HEAD]) = HEAD # xs" by (auto simp: dlist_def)
  from arg_cong [OF m(1), of set] arg_cong [OF m(2), of set] assms(2)
  show "nx i \<in> insert HEAD (set xs)" "pv i \<in> insert HEAD (set xs)" "nx HEAD \<in> insert HEAD (set xs)"
    by (auto simp: image_subset_iff set_eq_iff)
qed

lemma dlist_head: "dlist nx pv xs \<Longrightarrow> nx HEAD = hd (xs @ [HEAD])"
  unfolding dlist_def by (metis list.map_disc_iff list.sel(1) list.simps(9))

lemma link_front_list:
  assumes c: "cache_list bs xs" and b: "b < NBUF" "b \<notin> set xs"
  shows "cache_list (link_front b bs) (b # xs)"
proof -
  have d: "dlist (bnext bs) (bprev bs) xs" and len: "length bs = Suc NBUF" and sub: "set xs \<subseteq> {..<NBUF}"
    using c by (auto simp: cache_list_def)
  let ?f = "bnext bs HEAD"
  have f: "?f = hd (xs @ [HEAD])" using d by (rule dlist_head)
  have flt: "?f < Suc NBUF" "?f \<noteq> b"
    using f sub b HEAD_NBUF by (cases xs; auto)+
  have hb: "HEAD \<noteq> b" using b HEAD_NBUF by auto
  have "bnext (link_front b bs) = ((bnext bs)(b := ?f))(HEAD := b)"
    unfolding link_front_def Let_def
    using len b hb flt HEAD_NBUF(1) by (auto simp: bnext_upd fun_eq_iff nth_list_update bnext_def)
  moreover have "bprev (link_front b bs) = ((bprev bs)(b := HEAD))(?f := b)"
    unfolding link_front_def Let_def
    using len b hb flt HEAD_NBUF(1) by (auto simp: bnext_upd fun_eq_iff nth_list_update bnext_def bprev_def)
  moreover have "b \<notin> set (HEAD # xs)" using b hb by auto
  ultimately show ?thesis
    using dlist_front [OF d, of b] len sub b by (simp add: cache_list_def)
qed

lemma unlink_list:
  assumes c: "cache_list bs (us @ b # vs)"
  shows "cache_list (unlink_buf b bs) (us @ vs)"
proof -
  have d: "dlist (bnext bs) (bprev bs) (us @ b # vs)" and len: "length bs = Suc NBUF" and sub: "set (us @ b # vs) \<subseteq> {..<NBUF}"
    using c by (auto simp: cache_list_def)
  let ?n = "bnext bs b" and ?p = "bprev bs b"
  have lt: "?n < Suc NBUF" "?p < Suc NBUF" "b < NBUF"
    using dlist_in(1,2) [OF d, of b] sub HEAD_NBUF(1) by auto
  have "?n \<noteq> b" "?p \<noteq> b"
  proof -
    have di: "distinct (HEAD # us @ b # vs)" using d by (simp add: dlist_def)
    have "map (bnext bs) (HEAD # us @ b # vs) = us @ b # vs @ [HEAD]" "map (bprev bs) (us @ b # vs @ [HEAD]) = HEAD # us @ b # vs"
      using d by (auto simp: dlist_def)
    then have "map (bnext bs) (HEAD # us @ b # vs) ! Suc (length us) = (us @ b # vs @ [HEAD]) ! Suc (length us)"
      "map (bprev bs) (us @ b # vs @ [HEAD]) ! length us = (HEAD # us @ b # vs) ! length us" by simp_all
    then have "?n = (vs @ [HEAD]) ! 0" "?p = (HEAD # us) ! length us"
      by (simp_all add: nth_append nth_Cons')
    moreover have "(vs @ [HEAD]) ! 0 \<in> set (vs @ [HEAD])" by (rule nth_mem) simp
    moreover have "(HEAD # us) ! length us \<in> set (HEAD # us)" by (rule nth_mem) simp
    ultimately have "?n \<in> insert HEAD (set vs)" "?p \<in> insert HEAD (set us)" by auto
    then show "?n \<noteq> b" "?p \<noteq> b" using di by auto
  qed
  then have "bnext (unlink_buf b bs) = (bnext bs)(?p := ?n)" "bprev (unlink_buf b bs) = (bprev bs)(?n := ?p)"
    unfolding unlink_buf_def Let_def
    using len lt by (auto simp: bnext_upd fun_eq_iff nth_list_update bnext_def bprev_def)
  then show ?thesis
    using dlist_remove [OF d] len sub by (auto simp: cache_list_def)
qed

lemma mach_outermost_bio [simp]:
  "bcache_update f (mach_update g s) = mach_update g (bcache_update f s)"
  "disk_update f1 (mach_update g s) = mach_update g (disk_update f1 s)"
  "disksize_update f2 (mach_update g s) = mach_update g (disksize_update f2 s)"
  "dtrace_update f3 (mach_update g s) = mach_update g (dtrace_update f3 s)"
  by simp_all

lemma bget_lookup_walk:
  assumes "HEAD \<notin> set ys" and "map (bnext bs) ys = tl (ys @ [HEAD])"
  shows "bget_lookup dev bn bs (hd (ys @ [HEAD])) =
    Some (find (\<lambda>b. b_dev (bs ! b) = dev \<and> b_blockno (bs ! b) = bn) ys)"
  using assms
proof (induction ys)
  case Nil
  then show ?case by (subst bget_lookup.simps) simp
next
  case (Cons y ys)
  then have nx: "bnext bs y = hd (ys @ [HEAD])" and tl: "map (bnext bs) ys = tl (ys @ [HEAD])"
    by (cases ys; auto)+
  have y: "y \<noteq> HEAD" "HEAD \<notin> set ys" using Cons.prems(1) by auto
  show ?case
    using y(1) nx Cons.IH [OF y(2) tl] by (subst bget_lookup.simps) (simp add: bnext_def)
qed

lemma bget_recycle_walk:
  assumes "HEAD \<notin> set ys" and "map (bprev bs) ys = tl (ys @ [HEAD])"
  shows "bget_recycle bs (hd (ys @ [HEAD])) = Some (find (\<lambda>b. b_refcnt (bs ! b) = 0 \<and> \<not> b_dirty (bs ! b)) ys)"
  using assms
proof (induction ys)
  case Nil
  then show ?case by (subst bget_recycle.simps) simp
next
  case (Cons y ys)
  then have pv: "bprev bs y = hd (ys @ [HEAD])" and tl: "map (bprev bs) ys = tl (ys @ [HEAD])"
    by (cases ys; auto)+
  have y: "y \<noteq> HEAD" "HEAD \<notin> set ys" using Cons.prems(1) by auto
  show ?case
    using y(1) pv Cons.IH [OF y(2) tl] by (subst bget_recycle.simps) (simp add: bprev_def)
qed

lemma bget_lookup_find:
  assumes "cache_list bs xs"
  shows "bget_lookup dev bn bs (b_next (bs ! HEAD)) =
    Some (find (\<lambda>b. b_dev (bs ! b) = dev \<and> b_blockno (bs ! b) = bn) xs)"
proof -
  have d: "dlist (bnext bs) (bprev bs) xs" using assms by (simp add: cache_list_def)
  then have "map (bnext bs) (HEAD # xs) = xs @ [HEAD]" "HEAD \<notin> set xs" by (auto simp: dlist_def)
  moreover from this have "bnext bs HEAD = hd (xs @ [HEAD])" "map (bnext bs) xs = tl (xs @ [HEAD])"
    by (metis list.sel(1) list.simps(9), metis list.sel(3) list.simps(9))
  ultimately show ?thesis using bget_lookup_walk [of xs bs] by (simp add: bnext_def)
qed

lemma bget_recycle_find:
  assumes "cache_list bs xs"
  shows "bget_recycle bs (b_prev (bs ! HEAD)) =
    Some (find (\<lambda>b. b_refcnt (bs ! b) = 0 \<and> \<not> b_dirty (bs ! b)) (rev xs))"
proof -
  have d: "dlist (bnext bs) (bprev bs) xs" using assms by (simp add: cache_list_def)
  then have "map (bprev bs) (xs @ [HEAD]) = HEAD # xs" "HEAD \<notin> set (rev xs)" by (auto simp: dlist_def)
  moreover from this(1) have "map (bprev bs) (HEAD # rev xs) = rev xs @ [HEAD]"
    by (metis rev.simps(2) rev_append rev_map rev_singleton_conv append_Cons append_Nil)
  moreover from this have "bprev bs HEAD = hd (rev xs @ [HEAD])" "map (bprev bs) (rev xs) = tl (rev xs @ [HEAD])"
    by (metis list.sel(1) list.simps(9), metis list.sel(3) list.simps(9))
  ultimately show ?thesis using bget_recycle_walk [of "rev xs" bs] by (simp add: bprev_def)
qed

section \<open>The invariant of the cache and the blocks it shows\<close>

definition buf_ok :: "(nat \<Rightarrow> block) \<Rightarrow> nat \<Rightarrow> buf \<Rightarrow> bool" where
  "buf_ok d n x \<longleftrightarrow> 0 \<le> b_refcnt x \<and> (sl_locked (b_lock x) \<longrightarrow> b_refcnt x \<noteq> 0) \<and>
     (b_valid x \<longrightarrow> b_dev x = 1 \<and> b_blockno x < n \<and> length (b_data x) = BSIZE) \<and>
     (b_dirty x \<longrightarrow> b_valid x) \<and>
     (b_valid x \<and> \<not> b_dirty x \<and> b_refcnt x = 0 \<longrightarrow> b_data x = d (b_blockno x))"

definition bufs_uniq :: "buf list \<Rightarrow> bool" where
  "bufs_uniq bs \<longleftrightarrow> (\<forall>i j. i < NBUF \<and> j < NBUF \<and> b_dev (bs ! i) = 1 \<and> b_dev (bs ! j) = 1 \<and>
     b_blockno (bs ! i) = b_blockno (bs ! j) \<longrightarrow> i = j)"

definition bio_inv :: "'z bio_st_scheme \<Rightarrow> bool" where
  "bio_inv s \<longleftrightarrow> (\<exists>xs. cache_list (bcache s) xs \<and> set xs = {..<NBUF}) \<and>
     (\<forall>i<NBUF. buf_ok (disk s) (disksize s) (bcache s ! i)) \<and> bufs_uniq (bcache s) \<and>
     (\<forall>b<disksize s. length (disk s b) = BSIZE)"

text \<open>The contents of block \<open>b\<close> as the cache presents them: the cached copy if there is a valid one.\<close>

definition bview :: "'z bio_st_scheme \<Rightarrow> nat \<Rightarrow> block" where
  "bview s b = (case first_index (\<lambda>x. b_valid x \<and> b_dev x = 1 \<and> b_blockno x = b) (take NBUF (bcache s)) of
     Some i \<Rightarrow> b_data (bcache s ! i) | None \<Rightarrow> disk s b)"

lemma bio_invD:
  assumes "bio_inv s"
  shows "length (bcache s) = Suc NBUF" and "i < NBUF \<Longrightarrow> buf_ok (disk s) (disksize s) (bcache s ! i)"
    and "i < NBUF \<Longrightarrow> j < NBUF \<Longrightarrow> b_dev (bcache s ! i) = 1 \<Longrightarrow> b_dev (bcache s ! j) = 1 \<Longrightarrow>
      b_blockno (bcache s ! i) = b_blockno (bcache s ! j) \<Longrightarrow> i = j"
    and "b < disksize s \<Longrightarrow> length (disk s b) = BSIZE"
  using assms unfolding bio_inv_def cache_list_def bufs_uniq_def by blast+

lemma bview_cached:
  assumes inv: "bio_inv s" and i: "i < NBUF" "b_valid (bcache s ! i)" "b_blockno (bcache s ! i) = b"
  shows "bview s b = b_data (bcache s ! i)"
proof -
  have len: "length (bcache s) = Suc NBUF" using inv by (rule bio_invD)
  have dev: "b_dev (bcache s ! i) = 1" using bio_invD(2) [OF inv i(1)] i(2) by (simp add: buf_ok_def)
  have "first_index (\<lambda>x. b_valid x \<and> b_dev x = 1 \<and> b_blockno x = b) (take NBUF (bcache s)) = Some i"
    unfolding first_index_Some_iff
  proof (intro conjI allI impI)
    fix j
    assume "j < i"
    then show "\<not> (b_valid (take NBUF (bcache s) ! j) \<and> b_dev (take NBUF (bcache s) ! j) = 1 \<and>
        b_blockno (take NBUF (bcache s) ! j) = b)"
      using bio_invD(3) [OF inv _ i(1) _ dev, of j] i by auto
  qed (use i dev len in auto)
  then show ?thesis by (simp add: bview_def)
qed

lemma bview_disk:
  assumes "length (bcache s) = Suc NBUF"
    and "\<And>i. i < NBUF \<Longrightarrow> b_valid (bcache s ! i) \<Longrightarrow> b_dev (bcache s ! i) = 1 \<Longrightarrow> b_blockno (bcache s ! i) \<noteq> b"
  shows "bview s b = disk s b"
proof -
  have "first_index (\<lambda>x. b_valid x \<and> b_dev x = 1 \<and> b_blockno x = b) (take NBUF (bcache s)) = None"
    unfolding first_index_None_iff
  proof
    fix x
    assume "x \<in> set (take NBUF (bcache s))"
    then obtain i where "i < NBUF" "x = bcache s ! i" using assms(1) by (auto simp: set_conv_nth)
    with assms(2) [of i] show "\<not> (b_valid x \<and> b_dev x = 1 \<and> b_blockno x = b)" by blast
  qed
  then show ?thesis by (simp add: bview_def)
qed

lemma bview_cases:
  assumes "bio_inv s"
  shows "(\<exists>i<NBUF. b_valid (bcache s ! i) \<and> b_blockno (bcache s ! i) = b \<and> bview s b = b_data (bcache s ! i)) \<or>
    ((\<forall>i<NBUF. b_valid (bcache s ! i) \<longrightarrow> b_blockno (bcache s ! i) \<noteq> b) \<and> bview s b = disk s b)"
  using bview_cached [OF assms] bview_disk [OF bio_invD(1) [OF assms]] by blast

lemma length_bview:
  assumes "bio_inv s" and "b < disksize s"
  shows "length (bview s b) = BSIZE"
  using bview_cases [OF assms(1), of b] bio_invD(2) [OF assms(1)] bio_invD(4) [OF assms]
  by (auto simp: buf_ok_def)

text \<open>Two caches that differ in one slot only show the same blocks except through that slot.\<close>

lemma bview_other:
  assumes inv: "bio_inv s" "bio_inv s'" and same: "\<And>j. j < NBUF \<Longrightarrow> j \<noteq> i \<Longrightarrow> bcore (bcache s' ! j) = bcore (bcache s ! j)"
    and d: "disk s' b = disk s b"
    and i: "b_valid (bcache s ! i) \<Longrightarrow> b_blockno (bcache s ! i) \<noteq> b" "b_valid (bcache s' ! i) \<Longrightarrow> b_blockno (bcache s' ! i) \<noteq> b"
  shows "bview s' b = bview s b"
proof (cases "\<exists>j<NBUF. b_valid (bcache s ! j) \<and> b_blockno (bcache s ! j) = b")
  case True
  then obtain j where j: "j < NBUF" "b_valid (bcache s ! j)" "b_blockno (bcache s ! j) = b" by blast
  then have "j \<noteq> i" using i by auto
  with same [OF j(1)] j have "b_valid (bcache s' ! j)" "b_blockno (bcache s' ! j) = b" "b_data (bcache s' ! j) = b_data (bcache s ! j)"
    by (simp_all add: bcore_eq)
  with j show ?thesis using bview_cached [OF inv(1) j] bview_cached [OF inv(2) j(1)] by simp
next
  case False
  then have "\<not> (\<exists>j<NBUF. b_valid (bcache s' ! j) \<and> b_blockno (bcache s' ! j) = b)"
    using same i by (metis bcore_eq)
  with False have "bview s b = disk s b" "bview s' b = disk s' b"
    using bview_disk bio_invD(1) [OF inv(1)] bio_invD(1) [OF inv(2)] by blast+
  with d show ?thesis by simp
qed

section \<open>What the operations do\<close>

text \<open>The buffer \<open>i\<close> is locked by the process \<open>pid\<close> and holds block \<open>b\<close>.\<close>

definition holds_buf :: "int \<Rightarrow> 'z bio_st_scheme \<Rightarrow> nat \<Rightarrow> nat \<Rightarrow> bool" where
  "holds_buf pid s i b \<longleftrightarrow> i < NBUF \<and> b_valid (bcache s ! i) \<and> b_dev (bcache s ! i) = 1 \<and> b_blockno (bcache s ! i) = b \<and>
     sl_locked (b_lock (bcache s ! i)) \<and> sl_pid (b_lock (bcache s ! i)) = pid"

text \<open>Block \<open>b\<close> is not locked, and a buffer for it can be had.\<close>

definition block_free :: "'z bio_st_scheme \<Rightarrow> nat \<Rightarrow> bool" where
  "block_free s b \<longleftrightarrow> (\<forall>i<NBUF. b_dev (bcache s ! i) = 1 \<and> b_blockno (bcache s ! i) = b \<longrightarrow>
     \<not> sl_locked (b_lock (bcache s ! i)))"

definition idle_bufs :: "'z bio_st_scheme \<Rightarrow> nat set" where
  "idle_bufs s = {i. i < NBUF \<and> b_refcnt (bcache s ! i) = 0 \<and> \<not> b_dirty (bcache s ! i)}"

lemma upd_buf_fields [simp]:
  "bcache (upd_buf i f s) = (bcache s)[i := f (bcache s ! i)]" "disk (upd_buf i f s) = disk s"
  "disksize (upd_buf i f s) = disksize s" "dtrace (upd_buf i f s) = dtrace s" "mach (upd_buf i f s) = mach s"
  "ptable (upd_buf i f s) = ptable s" "bio_st.more (upd_buf i f s) = bio_st.more s"
  by (simp_all add: upd_buf_def)

lemma env_ok_bio [simp]:
  "env_ok pid (upd_buf i f s) = env_ok pid s" "env_ok pid (s\<lparr>bcache := x\<rparr>) = env_ok pid s"
  "env_ok pid (s\<lparr>disk := d\<rparr>) = env_ok pid s" "env_ok pid (s\<lparr>dtrace := tr\<rparr>) = env_ok pid s"
  by (simp_all add: env_ok_def curproc_def)

lemma sync_bio: "sync (upd_buf i f s) = upd_buf i f (sync s)" "sync (s\<lparr>bcache := x\<rparr>) = (sync s)\<lparr>bcache := x\<rparr>"
  "rouse c (upd_buf i f s) = upd_buf i f (rouse c s)" "rouse c (s\<lparr>bcache := x\<rparr>) = (rouse c s)\<lparr>bcache := x\<rparr>"
  by (simp_all add: rouse_def sync_def upd_buf_def)

lemma bio_sync [simp]:
  "bcache (sync s) = bcache s" "disk (sync s) = disk s" "disksize (sync s) = disksize s" "dtrace (sync s) = dtrace s"
  "bio_st.more (sync s) = bio_st.more s"
  by (simp_all add: sync_def)

lemma bio_rouse [simp]:
  "bcache (rouse c s) = bcache s" "disk (rouse c s) = disk s" "disksize (rouse c s) = disksize s" "dtrace (rouse c s) = dtrace s"
  "bio_st.more (rouse c s) = bio_st.more s"
  by (simp_all add: rouse_def)

lemma mem_same_bio [simp]:
  "mem_same s (upd_buf i f s') = mem_same s s'" "mem_same s (s'\<lparr>bcache := x\<rparr>) = mem_same s s'"
  "mem_same s (s'\<lparr>disk := d\<rparr>) = mem_same s s'" "mem_same s (s'\<lparr>dtrace := tr\<rparr>) = mem_same s s'"
  by (simp_all add: mem_same_def upd_buf_def)

lemma find_SomeD: "find P xs = Some x \<Longrightarrow> x \<in> set xs \<and> P x"
  by (induction xs) (auto split: if_splits)

text \<open>The buffer \<^verbatim>\<open>bget\<close> prepares, before it is locked.\<close>

definition got :: "nat \<Rightarrow> nat \<Rightarrow> buf \<Rightarrow> buf" where
  "got dev b x = (if b_dev x = dev \<and> b_blockno x = b then x\<lparr>b_refcnt := b_refcnt x + 1\<rparr>
     else x\<lparr>b_dev := dev, b_blockno := b, b_valid := False, b_dirty := False, b_refcnt := 1\<rparr>)"

lemma bget_spec:
  assumes inv: "bio_inv s" and env: "env_ok pid s" and free: "block_free s b"
    and room: "idle_bufs s \<noteq> {} \<or> (\<exists>i<NBUF. b_dev (bcache s ! i) = 1 \<and> b_blockno (bcache s ! i) = b)"
  shows "\<exists>i<NBUF. bget 1 b s = Ok (i, (sync s)\<lparr>bcache := (bcache s)[i := (got 1 b (bcache s ! i))
        \<lparr>b_lock := (b_lock (bcache s ! i))\<lparr>sl_locked := True, sl_pid := pid\<rparr>\<rparr>]\<rparr>) \<and>
      \<not> sl_locked (b_lock (bcache s ! i)) \<and>
      (b_dev (bcache s ! i) = 1 \<and> b_blockno (bcache s ! i) = b \<or>
       i \<in> idle_bufs s \<and> (\<forall>j<NBUF. b_dev (bcache s ! j) = 1 \<longrightarrow> b_blockno (bcache s ! j) \<noteq> b))"
proof -
  from inv obtain xs where xs: "cache_list (bcache s) xs" "set xs = {..<NBUF}" by (auto simp: bio_inv_def)
  have len: "length (bcache s) = Suc NBUF" using inv by (rule bio_invD)
  note look = bget_lookup_find [OF xs(1), of 1 b] and rec = bget_recycle_find [OF xs(1)]
  have fin: "rbind (krelease BcacheLock (upd_buf i (\<lambda>_. x) (s\<lparr>mach := acq BcacheLock (mach s)\<rparr>))) (lock_buf i) =
      Ok (i, (sync s)\<lparr>bcache := (bcache s)[i := x\<lparr>b_lock := (b_lock x)\<lparr>sl_locked := True, sl_pid := pid\<rparr>\<rparr>]\<rparr>)"
    if "i < NBUF" "\<not> sl_locked (b_lock x)" for i x
  proof -
    have "krelease BcacheLock (upd_buf i (\<lambda>_. x) (s\<lparr>mach := acq BcacheLock (mach s)\<rparr>)) = Ok (upd_buf i (\<lambda>_. x) (sync s))"
      using krelease_eq [OF env, of "upd_buf i (\<lambda>_. x) (s\<lparr>mach := acq BcacheLock (mach s)\<rparr>)" BcacheLock]
      by (simp add: upd_buf_def sync_def)
    moreover have "env_ok pid (upd_buf i (\<lambda>_. x) (sync s))"
      using env by simp
    moreover have "sync (upd_buf i (\<lambda>_. x) (sync s)) = upd_buf i (\<lambda>_. x) (sync s)"
      by (simp add: sync_def upd_buf_def)
    ultimately show ?thesis
      using that len by (simp add: lock_buf_def acquiresleep_free) (simp add: upd_buf_def)
  qed
  show ?thesis
  proof (cases "find (\<lambda>j. b_dev (bcache s ! j) = 1 \<and> b_blockno (bcache s ! j) = b) xs")
    case (Some i)
    then have i: "i < NBUF" "b_dev (bcache s ! i) = 1" "b_blockno (bcache s ! i) = b"
      using find_SomeD [OF Some] xs(2) by auto
    with free have "\<not> sl_locked (b_lock (bcache s ! i))" by (simp add: block_free_def)
    with i fin [of i "(bcache s ! i)\<lparr>b_refcnt := b_refcnt (bcache s ! i) + 1\<rparr>"] show ?thesis
      using look Some by (auto simp: bget_def kacquire_eq [OF env] got_def upd_buf_def intro!: exI [of _ i])
  next
    case None
    then have none: "\<forall>j<NBUF. b_dev (bcache s ! j) = 1 \<longrightarrow> b_blockno (bcache s ! j) \<noteq> b"
      using xs(2) by (auto simp: find_None_iff)
    then obtain j where j: "j \<in> idle_bufs s" using room by auto
    have "find (\<lambda>b. b_refcnt (bcache s ! b) = 0 \<and> \<not> b_dirty (bcache s ! b)) (rev xs) \<noteq> None"
      using j xs(2) by (auto simp: find_None_iff idle_bufs_def)
    then obtain i where f: "find (\<lambda>b. b_refcnt (bcache s ! b) = 0 \<and> \<not> b_dirty (bcache s ! b)) (rev xs) = Some i" by auto
    then have i: "i < NBUF" "b_refcnt (bcache s ! i) = 0" "\<not> b_dirty (bcache s ! i)"
      using find_SomeD [OF f] xs(2) by auto
    have "\<not> sl_locked (b_lock (bcache s ! i))"
      using bio_invD(2) [OF inv i(1)] i(2) by (auto simp: buf_ok_def)
    with i fin [of i "(bcache s ! i)\<lparr>b_dev := 1, b_blockno := b, b_valid := False, b_dirty := False, b_refcnt := 1\<rparr>"]
    show ?thesis
      using look None rec f none
      by (auto simp: bget_def kacquire_eq [OF env] got_def upd_buf_def idle_bufs_def intro!: exI [of _ i])
  qed
qed


text \<open>\<^verbatim>\<open>iderw\<close> on a locked buffer.\<close>

lemma iderw_read:
  assumes "env_ok pid s" and "sl_locked (b_lock (bcache s ! i))" and "sl_pid (b_lock (bcache s ! i)) = pid"
    and "\<not> b_valid (bcache s ! i)" and "\<not> b_dirty (bcache s ! i)" and "b_dev (bcache s ! i) = 1"
    and "b_blockno (bcache s ! i) < disksize s"
  shows "iderw i s = Ok (upd_buf i (\<lambda>x. x\<lparr>b_data := disk s (b_blockno x), b_valid := True\<rparr>) (sync s))"
  using assms by (simp add: iderw_def holdingsleep_eq Let_def)

lemma iderw_write:
  assumes "env_ok pid s" and "sl_locked (b_lock (bcache s ! i))" and "sl_pid (b_lock (bcache s ! i)) = pid"
    and "b_dirty (bcache s ! i)" and "b_dev (bcache s ! i) = 1" and "b_blockno (bcache s ! i) < disksize s"
  shows "iderw i s = Ok (upd_buf i (\<lambda>x. x\<lparr>b_dirty := False, b_valid := True\<rparr>)
     ((sync s)\<lparr>disk := (disk s)(b_blockno (bcache s ! i) := b_data (bcache s ! i)),
        dtrace := dtrace s @ [(b_blockno (bcache s ! i), b_data (bcache s ! i))]\<rparr>))"
  using assms by (simp add: iderw_def holdingsleep_eq Let_def)

text \<open>What an operation on the cache may change: this one slot, links, and nothing of the rest of
  the kernel but \<open>sync\<close> and woken processes.\<close>

definition bio_frame :: "'z bio_st_scheme \<Rightarrow> nat \<Rightarrow> 'z bio_st_scheme \<Rightarrow> bool" where
  "bio_frame s i s' \<longleftrightarrow> disksize s' = disksize s \<and> bio_st.more s' = bio_st.more s \<and> mem_same s s' \<and>
     (\<forall>j<NBUF. j \<noteq> i \<longrightarrow> bcore (bcache s' ! j) = bcore (bcache s ! j))"

lemma cache_list_upd:
  assumes "cache_list bs xs" and "b_next x = b_next (bs ! i)" and "b_prev x = b_prev (bs ! i)"
  shows "cache_list (bs[i := x]) xs"
  using assms by (simp add: cache_list_def bnext_upd_same)

lemma bio_inv_upd:
  assumes inv: "bio_inv s" and i: "i < NBUF"
    and s': "bcache s' = (bcache s)[i := x]" "disksize s' = disksize s"
    and d: "\<And>b. b \<noteq> b_blockno x \<Longrightarrow> disk s' b = disk s b" "length (disk s' (b_blockno x)) = length (disk s (b_blockno x))"
    and x: "buf_ok (disk s') (disksize s) x" "b_next x = b_next (bcache s ! i)" "b_prev x = b_prev (bcache s ! i)"
    and u: "\<And>j. j < NBUF \<Longrightarrow> j \<noteq> i \<Longrightarrow> b_dev (bcache s ! j) = 1 \<Longrightarrow> b_dev x = 1 \<and> b_blockno (bcache s ! j) \<noteq> b_blockno x"
  shows "bio_inv s'"
proof -
  have len: "length (bcache s) = Suc NBUF" using inv by (rule bio_invD)
  from inv obtain xs where "cache_list (bcache s) xs" "set xs = {..<NBUF}" by (auto simp: bio_inv_def)
  with x(2,3) have "\<exists>xs. cache_list (bcache s') xs \<and> set xs = {..<NBUF}"
    unfolding s' using cache_list_upd by blast
  moreover have "buf_ok (disk s') (disksize s') (bcache s' ! j)" if j: "j < NBUF" for j
  proof (cases "j = i")
    case True
    then show ?thesis using x(1) i len s' by simp
  next
    case False
    have ok: "buf_ok (disk s) (disksize s) (bcache s ! j)" using bio_invD(2) [OF inv j] .
    moreover have "b_valid (bcache s ! j) \<Longrightarrow> disk s' (b_blockno (bcache s ! j)) = disk s (b_blockno (bcache s ! j))"
      using ok u [OF j False] d(1) by (auto simp: buf_ok_def)
    ultimately show ?thesis using False s' by (auto simp: buf_ok_def)
  qed
  moreover have "bufs_uniq (bcache s')"
    unfolding bufs_uniq_def s'
  proof (intro allI impI)
    fix j l
    assume a: "j < NBUF \<and> l < NBUF \<and> b_dev ((bcache s)[i := x] ! j) = 1 \<and> b_dev ((bcache s)[i := x] ! l) = 1 \<and>
      b_blockno ((bcache s)[i := x] ! j) = b_blockno ((bcache s)[i := x] ! l)"
    then show "j = l"
      using u [of j] u [of l] bio_invD(3) [OF inv, of j l] len
      by (cases "j = i"; cases "l = i") (auto simp: nth_upd)
  qed
  moreover have "length (disk s' b) = BSIZE" if "b < disksize s'" for b
    using bio_invD(4) [OF inv, of b] d that s'(2) by (cases "b = b_blockno x") auto
  ultimately show ?thesis by (simp add: bio_inv_def)
qed

definition dirty_blocks :: "'z bio_st_scheme \<Rightarrow> nat set" where
  "dirty_blocks s = {b. \<exists>j<NBUF. b_dirty (bcache s ! j) \<and> b_blockno (bcache s ! j) = b}"

lemma bread_spec:
  assumes inv: "bio_inv s" and env: "env_ok pid s" and free: "block_free s b" and b: "b < disksize s"
    and room: "idle_bufs s \<noteq> {} \<or> (\<exists>i<NBUF. b_dev (bcache s ! i) = 1 \<and> b_blockno (bcache s ! i) = b)"
  shows "\<exists>i s'. bread 1 b s = Ok (i, s') \<and> bio_inv s' \<and> env_ok pid s' \<and> bio_frame s i s' \<and> holds_buf pid s' i b \<and>
    \<not> sl_locked (b_lock (bcache s ! i)) \<and> b_data (bcache s' ! i) = bview s b \<and> bview s' = bview s \<and>
    disk s' = disk s \<and> dtrace s' = dtrace s \<and> (b_dirty (bcache s' ! i) \<or> b_refcnt (bcache s' ! i) \<noteq> 1 \<or> b_data (bcache s' ! i) = disk s b) \<and>
    (b_dirty (bcache s' ! i) \<longleftrightarrow> b \<in> dirty_blocks s) \<and> dirty_blocks s' = dirty_blocks s \<and>
    idle_bufs s' = idle_bufs s - {i} \<and> (i \<in> idle_bufs s \<longleftrightarrow> b_refcnt (bcache s' ! i) = 1 \<and> b \<notin> dirty_blocks s)"
proof -
  have len: "length (bcache s) = Suc NBUF" using inv by (rule bio_invD)
  obtain i where i: "i < NBUF" and g: "bget 1 b s = Ok (i, (sync s)\<lparr>bcache := (bcache s)[i := (got 1 b (bcache s ! i))
        \<lparr>b_lock := (b_lock (bcache s ! i))\<lparr>sl_locked := True, sl_pid := pid\<rparr>\<rparr>]\<rparr>)"
    and unl: "\<not> sl_locked (b_lock (bcache s ! i))"
    and alt: "b_dev (bcache s ! i) = 1 \<and> b_blockno (bcache s ! i) = b \<or>
       i \<in> idle_bufs s \<and> (\<forall>j<NBUF. b_dev (bcache s ! j) = 1 \<longrightarrow> b_blockno (bcache s ! j) \<noteq> b)"
    using bget_spec [OF inv env free room] by auto
  let ?x = "bcache s ! i"
  define x1 where "x1 = (got 1 b ?x)\<lparr>b_lock := (b_lock ?x)\<lparr>sl_locked := True, sl_pid := pid\<rparr>\<rparr>"
  define s1 where "s1 = (sync s)\<lparr>bcache := (bcache s)[i := x1]\<rparr>"
  define x2 where "x2 = (if b_valid x1 then x1 else x1\<lparr>b_data := disk s b, b_valid := True\<rparr>)"
  define s2 where "s2 = (sync s)\<lparr>bcache := (bcache s)[i := x2]\<rparr>"
  have okx: "buf_ok (disk s) (disksize s) ?x" using bio_invD(2) [OF inv i] .
  have s1i: "bcache s1 ! i = x1" using i len by (simp add: s1_def)
  have x1: "b_dev x1 = 1" "b_blockno x1 = b" "sl_locked (b_lock x1)" "sl_pid (b_lock x1) = pid"
    "b_next x1 = b_next ?x" "b_prev x1 = b_prev ?x"
    by (auto simp: x1_def got_def)
  have dx1: "b_dirty x1 \<Longrightarrow> b_valid x1" using okx by (auto simp: x1_def got_def buf_ok_def split: if_splits)
  have lens1: "length (bcache s1) = Suc NBUF" "disksize s1 = disksize s" using len by (simp_all add: s1_def)
  have env1: "env_ok pid s1" using env by (simp add: s1_def)
  have g1: "bget 1 b s = Ok (i, s1)" using g unfolding s1_def x1_def .
  have rd: "bread 1 b s = Ok (i, s2)"
  proof (cases "b_valid x1")
    case True
    then show ?thesis using s1i unfolding bread_def g1 by (simp add: x2_def s1_def s2_def)
  next
    case False
    then have "iderw i s1 = Ok (upd_buf i (\<lambda>x. x\<lparr>b_data := disk s1 (b_blockno x), b_valid := True\<rparr>) (sync s1))"
      using x1 dx1 b by (intro iderw_read [OF env1]) (auto simp: s1i i lens1)
    moreover have "upd_buf i (\<lambda>x. x\<lparr>b_data := disk s1 (b_blockno x), b_valid := True\<rparr>) (sync s1) = s2"
      using False x1(2) i len by (simp add: upd_buf_def s1_def s2_def x2_def sync_bio)
    ultimately show ?thesis using s1i False unfolding bread_def g1 by simp
  qed
  have len2: "length (bcache s2) = Suc NBUF" using len by (simp add: s2_def)
  have s2i: "bcache s2 ! i = x2" using i len by (simp add: s2_def)
  have oth: "bcache s2 ! j = bcache s ! j" if "j \<noteq> i" for j using that by (simp add: s2_def)
  have matched: "b_valid ?x \<and> b_dev ?x = 1 \<and> b_blockno ?x = b" if "b_valid x1"
    using that okx by (auto simp: x1_def got_def buf_ok_def split: if_splits)
  have x2: "b_valid x2" "b_dev x2 = 1" "b_blockno x2 = b" "sl_locked (b_lock x2)" "sl_pid (b_lock x2) = pid"
    "b_next x2 = b_next ?x" "b_prev x2 = b_prev ?x" "b_refcnt x2 = b_refcnt x1" "b_dirty x2 = b_dirty x1"
    using x1 by (auto simp: x2_def)
  have ref: "1 \<le> b_refcnt x1" "b_dev ?x = 1 \<and> b_blockno ?x = b \<Longrightarrow> b_refcnt x1 = b_refcnt ?x + 1"
    "\<not> (b_dev ?x = 1 \<and> b_blockno ?x = b) \<Longrightarrow> b_refcnt x1 = 1 \<and> \<not> b_dirty x1"
    "b_dev ?x = 1 \<and> b_blockno ?x = b \<Longrightarrow> b_dirty x1 = b_dirty ?x"
    using okx by (auto simp: x1_def got_def buf_ok_def)
  have ok2: "buf_ok (disk s) (disksize s) x2"
  proof -
    have "length (b_data x2) = BSIZE"
    proof (cases "b_valid x1")
      case True
      then have "b_data x2 = b_data ?x" by (simp add: x2_def x1_def got_def)
      then show ?thesis using matched [OF True] okx by (simp add: buf_ok_def)
    next
      case False
      then show ?thesis using bio_invD(4) [OF inv b] by (simp add: x2_def)
    qed
    then show ?thesis unfolding buf_ok_def using x2 ref(1) b by simp
  qed
  have nomatch: "b_blockno (bcache s ! j) \<noteq> b" if "j < NBUF" "j \<noteq> i" "b_dev (bcache s ! j) = 1" for j
    using alt that bio_invD(3) [OF inv that(1) i] by auto
  have inv2: "bio_inv s2"
    by (rule bio_inv_upd [OF inv i, of s2 x2]) (use x2 ok2 nomatch in \<open>auto simp: s2_def\<close>)
  have view_b: "bview s b = b_data x2" "bview s2 b = b_data x2"
  proof -
    show "bview s2 b = b_data x2" using bview_cached [OF inv2 i] s2i x2 by simp
    show "bview s b = b_data x2"
    proof (cases "b_valid x1")
      case True
      then have "b_data x2 = b_data ?x" by (simp add: x2_def x1_def got_def)
      then show ?thesis using bview_cached [OF inv i] matched [OF True] by simp
    next
      case False
      have "b_valid (bcache s ! j) \<Longrightarrow> b_dev (bcache s ! j) = 1 \<Longrightarrow> b_blockno (bcache s ! j) \<noteq> b" if "j < NBUF" for j
        using nomatch [OF that] False alt by (cases "j = i") (auto simp: x1_def got_def)
      then have "bview s b = disk s b" by (intro bview_disk [OF len])
      then show ?thesis using False by (simp add: x2_def)
    qed
  qed
  have view: "bview s2 c = bview s c" for c
  proof (cases "c = b")
    case True
    then show ?thesis using view_b by simp
  next
    case False
    show ?thesis
    proof (cases "b_valid ?x \<and> b_blockno ?x = c")
      case True
      then have idle: "i \<in> idle_bufs s" using alt False by auto
      have "bview s c = disk s c"
        using bview_cached [OF inv i] True okx idle by (auto simp: buf_ok_def idle_bufs_def)
      moreover have "bview s2 c = disk s2 c"
      proof (rule bview_disk [OF len2])
        fix j
        assume j: "j < NBUF" "b_valid (bcache s2 ! j)" "b_dev (bcache s2 ! j) = 1"
        show "b_blockno (bcache s2 ! j) \<noteq> c"
        proof (cases "j = i")
          case True
          then show ?thesis using s2i x2 False by simp
        next
          case ne: False
          then show ?thesis using bio_invD(3) [OF inv j(1) i] j oth [OF ne] True okx by (auto simp: buf_ok_def)
        qed
      qed
      ultimately show ?thesis by (simp add: s2_def)
    next
      case nt: False
      show ?thesis
        by (rule bview_other [OF inv inv2, where i = i]) (use nt x2 s2i False in \<open>auto simp: s2_def\<close>)
    qed
  qed
  have dirty_eq: "dirty_blocks s2 = dirty_blocks s" and db: "b_dirty x2 \<longleftrightarrow> b \<in> dirty_blocks s"
  proof -
    have j1: "b_dirty (bcache s ! j) \<Longrightarrow> b_dev (bcache s ! j) = 1" if "j < NBUF" for j
      using bio_invD(2) [OF inv that] by (auto simp: buf_ok_def)
    show db: "b_dirty x2 \<longleftrightarrow> b \<in> dirty_blocks s"
    proof
      assume "b_dirty x2"
      then have "b_dirty ?x" "b_blockno ?x = b" using ref(3,4) x2(9) by auto
      then show "b \<in> dirty_blocks s" using i by (auto simp: dirty_blocks_def)
    next
      assume "b \<in> dirty_blocks s"
      then obtain j where j: "j < NBUF" "b_dirty (bcache s ! j)" "b_blockno (bcache s ! j) = b" by (auto simp: dirty_blocks_def)
      then have "j = i" using nomatch j1 by blast
      then show "b_dirty x2" using j j1 ref(4) x2(9) i by auto
    qed
    show "dirty_blocks s2 = dirty_blocks s"
    proof (rule set_eqI)
      fix c
      have "c \<in> dirty_blocks s2 \<longleftrightarrow> (b_dirty x2 \<and> c = b) \<or> (\<exists>j<NBUF. j \<noteq> i \<and> b_dirty (bcache s ! j) \<and> b_blockno (bcache s ! j) = c)"
        unfolding dirty_blocks_def using i s2i oth x2(3) by force
      moreover have "c \<in> dirty_blocks s \<longleftrightarrow> (b_dirty ?x \<and> c = b_blockno ?x) \<or> (\<exists>j<NBUF. j \<noteq> i \<and> b_dirty (bcache s ! j) \<and> b_blockno (bcache s ! j) = c)"
        unfolding dirty_blocks_def using i by force
      moreover have "b_dirty x2 \<and> c = b \<longleftrightarrow> b_dirty ?x \<and> c = b_blockno ?x"
        using ref(3,4) x2(9) alt by (auto simp: idle_bufs_def)
      ultimately show "c \<in> dirty_blocks s2 \<longleftrightarrow> c \<in> dirty_blocks s" by simp
    qed
  qed
  have idle: "idle_bufs s2 = idle_bufs s - {i}"
  proof (rule set_eqI)
    fix j
    show "j \<in> idle_bufs s2 \<longleftrightarrow> j \<in> idle_bufs s - {i}"
      using s2i oth [of j] x2(8) ref(1) by (cases "j = i") (auto simp: idle_bufs_def)
  qed
  have idle_i: "i \<in> idle_bufs s \<longleftrightarrow> b_refcnt x2 = 1 \<and> b \<notin> dirty_blocks s"
    unfolding db [symmetric] using alt ref x2(8,9) i by (auto simp: idle_bufs_def)
  have clean: "b_dirty x2 \<or> b_refcnt x2 \<noteq> 1 \<or> b_data x2 = disk s b"
  proof (cases "b_valid x1")
    case True
    then show ?thesis using matched [OF True] okx ref(2,4) x2(8,9) by (auto simp: x2_def x1_def got_def buf_ok_def)
  qed (simp add: x2_def)
  have "env_ok pid s2" using env by (simp add: s2_def)
  moreover have "bio_frame s i s2" using oth by (simp add: bio_frame_def s2_def)
  moreover have "holds_buf pid s2 i b" using i s2i x2 by (simp add: holds_buf_def)
  moreover have "disk s2 = disk s" "dtrace s2 = dtrace s" by (simp_all add: s2_def)
  ultimately show ?thesis
    using rd inv2 unl view view_b s2i dirty_eq db idle idle_i clean by (intro exI [of _ i] exI [of _ s2]) (auto simp: fun_eq_iff)
qed

lemma core_nth: "map bcore bs' = map bcore bs \<Longrightarrow> j < length bs \<Longrightarrow> bcore (bs' ! j) = bcore (bs ! j)"
  by (metis length_map nth_map)

text \<open>A state that differs in the links of the list only.\<close>

lemma bio_inv_core:
  assumes inv: "bio_inv s" and core: "map bcore (bcache s') = map bcore (bcache s)"
    and d: "disk s' = disk s" "disksize s' = disksize s" and l: "cache_list (bcache s') xs" "set xs = {..<NBUF}"
  shows "bio_inv s'"
proof -
  have len: "length (bcache s) = Suc NBUF" using inv by (rule bio_invD)
  have c: "bcore (bcache s' ! j) = bcore (bcache s ! j)" if "j < NBUF" for j using core_nth [OF core] that len by simp
  have "buf_ok (disk s') (disksize s') (bcache s' ! j)" if "j < NBUF" for j
    using c [OF that] bio_invD(2) [OF inv that] by (simp add: bcore_eq buf_ok_def d)
  moreover have "bufs_uniq (bcache s')"
    unfolding bufs_uniq_def
  proof (intro allI impI)
    fix i j
    assume a: "i < NBUF \<and> j < NBUF \<and> b_dev (bcache s' ! i) = 1 \<and> b_dev (bcache s' ! j) = 1 \<and> b_blockno (bcache s' ! i) = b_blockno (bcache s' ! j)"
    then have "bcore (bcache s' ! i) = bcore (bcache s ! i)" "bcore (bcache s' ! j) = bcore (bcache s ! j)" using c by blast+
    then have e: "b_dev (bcache s ! i) = 1" "b_dev (bcache s ! j) = 1" "b_blockno (bcache s ! i) = b_blockno (bcache s ! j)"
      using a by (simp_all add: bcore_eq)
    show "i = j" by (rule bio_invD(3) [OF inv _ _ e]) (use a in simp_all)
  qed
  ultimately show ?thesis using bio_invD(4) [OF inv] unfolding bio_inv_def d by (intro conjI allI impI exI [of _ xs]) (use l in auto)
qed

lemma first_index_map: "first_index P (map f xs) = first_index (\<lambda>x. P (f x)) xs"
proof -
  have "first_index_from i P (map f xs) = first_index_from i (\<lambda>x. P (f x)) xs" for i
    by (induction xs arbitrary: i) auto
  then show ?thesis by (simp add: first_index_def)
qed

lemma core_sets:
  assumes inv: "bio_inv s" "bio_inv s'" and core: "map bcore (bcache s') = map bcore (bcache s)" and d: "disk s' = disk s"
  shows "bview s' = bview s" and "dirty_blocks s' = dirty_blocks s" and "idle_bufs s' = idle_bufs s"
proof -
  have len: "length (bcache s) = Suc NBUF" using inv(1) by (rule bio_invD)
  have c: "j < NBUF \<Longrightarrow> bcore (bcache s' ! j) = bcore (bcache s ! j)" for j using core_nth [OF core] len by simp
  show "bview s' = bview s"
  proof
    fix b
    show "bview s' b = bview s b"
    proof (cases "\<exists>j<NBUF. b_valid (bcache s ! j) \<and> b_blockno (bcache s ! j) = b")
      case True
      then obtain j where j: "j < NBUF" "b_valid (bcache s ! j)" "b_blockno (bcache s ! j) = b" by blast
      then show ?thesis using bview_cached [OF inv(1) j] bview_cached [OF inv(2) j(1)] c [OF j(1)] by (simp add: bcore_eq)
    next
      case False
      then have "\<not> (\<exists>j<NBUF. b_valid (bcache s' ! j) \<and> b_blockno (bcache s' ! j) = b)" using c by (auto simp: bcore_eq)
      then show ?thesis using False bview_cases [OF inv(1), of b] bview_cases [OF inv(2), of b] d by auto
    qed
  qed
  show "dirty_blocks s' = dirty_blocks s" unfolding dirty_blocks_def using c by (auto simp: bcore_eq)
  show "idle_bufs s' = idle_bufs s" unfolding idle_bufs_def using c by (auto simp: bcore_eq)
qed

text \<open>A held buffer whose contents, flags, reference count or lock change.\<close>

lemma held_upd:
  assumes inv: "bio_inv s" and h: "holds_buf pid s i b" and s': "bcache s' = (bcache s)[i := x]" "disksize s' = disksize s"
    and d: "\<And>c. c \<noteq> b \<Longrightarrow> disk s' c = disk s c" "length (disk s' b) = length (disk s b)"
    and x: "buf_ok (disk s') (disksize s) x" "b_next x = b_next (bcache s ! i)" "b_prev x = b_prev (bcache s ! i)"
      "b_blockno x = b" "b_valid x" "b_dev x = 1"
  shows "bio_inv s'" and "bview s' = (bview s)(b := b_data x)"
    and "dirty_blocks s' = (if b_dirty x then insert b (dirty_blocks s) else dirty_blocks s - {b})"
    and "idle_bufs s' = (if b_dirty x \<or> b_refcnt x \<noteq> 0 then idle_bufs s - {i} else insert i (idle_bufs s))"
proof -
  have len: "length (bcache s) = Suc NBUF" using inv by (rule bio_invD)
  have i: "i < NBUF" "b_blockno (bcache s ! i) = b" "b_dev (bcache s ! i) = 1" "b_valid (bcache s ! i)" using h by (auto simp: holds_buf_def)
  have u: "b_blockno (bcache s ! j) \<noteq> b" if "j < NBUF" "j \<noteq> i" "b_dev (bcache s ! j) = 1" for j
    using bio_invD(3) [OF inv that(1) i(1)] that i by auto
  show inv': "bio_inv s'" by (rule bio_inv_upd [OF inv i(1) s']) (use d x u in auto)
  have ci: "bcache s' ! i = x" using i len s' by simp
  have oth: "bcache s' ! j = bcache s ! j" if "j \<noteq> i" for j using that s' by simp
  show "bview s' = (bview s)(b := b_data x)"
  proof
    fix c
    show "bview s' c = ((bview s)(b := b_data x)) c"
    proof (cases "c = b")
      case True
      then show ?thesis using bview_cached [OF inv' i(1), of b] ci x by simp
    next
      case False
      then show ?thesis using bview_other [OF inv inv', of i c] oth d(1) [OF False] i ci x by simp
    qed
  qed
  have dev: "b_dirty (bcache s ! j) \<Longrightarrow> b_dev (bcache s ! j) = 1" if "j < NBUF" for j
    using bio_invD(2) [OF inv that] by (auto simp: buf_ok_def)
  show "dirty_blocks s' = (if b_dirty x then insert b (dirty_blocks s) else dirty_blocks s - {b})"
  proof (rule set_eqI)
    fix c
    have "c \<in> dirty_blocks s' \<longleftrightarrow> (b_dirty x \<and> c = b) \<or> (\<exists>j<NBUF. j \<noteq> i \<and> b_dirty (bcache s ! j) \<and> b_blockno (bcache s ! j) = c)"
      unfolding dirty_blocks_def using i ci oth x(4) by force
    moreover have "c \<noteq> b \<and> c \<in> dirty_blocks s \<longleftrightarrow> (\<exists>j<NBUF. j \<noteq> i \<and> b_dirty (bcache s ! j) \<and> b_blockno (bcache s ! j) = c)"
      unfolding dirty_blocks_def using i u dev by force
    ultimately show "c \<in> dirty_blocks s' \<longleftrightarrow> c \<in> (if b_dirty x then insert b (dirty_blocks s) else dirty_blocks s - {b})" by auto
  qed
  show "idle_bufs s' = (if b_dirty x \<or> b_refcnt x \<noteq> 0 then idle_bufs s - {i} else insert i (idle_bufs s))"
  proof (rule set_eqI)
    fix j
    show "j \<in> idle_bufs s' \<longleftrightarrow> j \<in> (if b_dirty x \<or> b_refcnt x \<noteq> 0 then idle_bufs s - {i} else insert i (idle_bufs s))"
      using ci oth [of j] i by (cases "j = i") (auto simp: idle_bufs_def)
  qed
qed

lemma holds_ok: "bio_inv s \<Longrightarrow> holds_buf pid s i b \<Longrightarrow> buf_ok (disk s) (disksize s) (bcache s ! i) \<and> b < disksize s \<and>
    1 \<le> b_refcnt (bcache s ! i) \<and> i \<notin> idle_bufs s"
  using bio_invD(2) [of s i] by (auto simp: holds_buf_def buf_ok_def idle_bufs_def)

lemma held_dirty:
  assumes inv: "bio_inv s" and h: "holds_buf pid s i b"
  shows "b \<in> dirty_blocks s \<longleftrightarrow> b_dirty (bcache s ! i)"
proof -
  have "j = i" if "j < NBUF" "b_dirty (bcache s ! j)" "b_blockno (bcache s ! j) = b" for j
    by (rule bio_invD(3) [OF inv that(1)]) (use bio_invD(2) [OF inv that(1)] h that in \<open>simp_all add: buf_ok_def holds_buf_def\<close>)
  then show ?thesis using h by (auto simp: dirty_blocks_def holds_buf_def)
qed

lemma bset_spec:
  assumes inv: "bio_inv s" and h: "holds_buf pid s i b" and d: "length d = BSIZE"
  shows "bio_inv (bset i d s)" and "bview (bset i d s) = (bview s)(b := d)" and "holds_buf pid (bset i d s) i b"
    and "bio_frame s i (bset i d s)" and "disk (bset i d s) = disk s" and "dtrace (bset i d s) = dtrace s"
    and "dirty_blocks (bset i d s) = dirty_blocks s" and "idle_bufs (bset i d s) = idle_bufs s"
    and "env_ok pid (bset i d s) = env_ok pid s"
    and "b_data (bcache (bset i d s) ! i) = d" and "b_dirty (bcache (bset i d s) ! i) = b_dirty (bcache s ! i)"
    and "b_refcnt (bcache (bset i d s) ! i) = b_refcnt (bcache s ! i)"
proof -
  note ok = holds_ok [OF inv h]
  have hb: "i < NBUF" "b_blockno (bcache s ! i) = b" "b_dev (bcache s ! i) = 1" "b_valid (bcache s ! i)" using h by (auto simp: holds_buf_def)
  have len: "length (bcache s) = Suc NBUF" using inv by (rule bio_invD)
  let ?x = "(bcache s ! i)\<lparr>b_data := d\<rparr>"
  have x: "buf_ok (disk (bset i d s)) (disksize s) ?x"
    using ok d by (auto simp: buf_ok_def bset_def)
  note u = held_upd [OF inv h, where s' = "bset i d s" and x = ?x, OF _ _ _ _ x]
  show "bio_inv (bset i d s)" "bview (bset i d s) = (bview s)(b := d)"
    using u(1,2) hb by (simp_all add: bset_def)
  show "dirty_blocks (bset i d s) = dirty_blocks s"
    using u(3) hb held_dirty [OF inv h] by (auto simp: bset_def)
  show "idle_bufs (bset i d s) = idle_bufs s"
    using u(4) hb ok by (simp add: bset_def)
  show "holds_buf pid (bset i d s) i b" "b_data (bcache (bset i d s) ! i) = d"
    "b_dirty (bcache (bset i d s) ! i) = b_dirty (bcache s ! i)" "b_refcnt (bcache (bset i d s) ! i) = b_refcnt (bcache s ! i)"
    using h len by (simp_all add: holds_buf_def bset_def)
  show "bio_frame s i (bset i d s)" by (simp add: bio_frame_def bset_def)
  show "disk (bset i d s) = disk s" "dtrace (bset i d s) = dtrace s" "env_ok pid (bset i d s) = env_ok pid s" by (simp_all add: bset_def)
qed

lemma bwrite_spec:
  assumes inv: "bio_inv s" and env: "env_ok pid s" and h: "holds_buf pid s i b"
  shows "\<exists>s'. bwrite i s = Ok s' \<and> bio_inv s' \<and> env_ok pid s' \<and> bio_frame s i s' \<and> holds_buf pid s' i b \<and>
    disk s' = (disk s)(b := b_data (bcache s ! i)) \<and> dtrace s' = dtrace s @ [(b, b_data (bcache s ! i))] \<and>
    bview s' = bview s \<and> dirty_blocks s' = dirty_blocks s - {b} \<and> idle_bufs s' = idle_bufs s \<and>
    \<not> b_dirty (bcache s' ! i) \<and> b_data (bcache s' ! i) = b_data (bcache s ! i) \<and> b_refcnt (bcache s' ! i) = b_refcnt (bcache s ! i)"
proof -
  note ok = holds_ok [OF inv h]
  have hb: "i < NBUF" "b_blockno (bcache s ! i) = b" "b_dev (bcache s ! i) = 1" "b_valid (bcache s ! i)"
    "sl_locked (b_lock (bcache s ! i))" "sl_pid (b_lock (bcache s ! i)) = pid" using h by (auto simp: holds_buf_def)
  have len: "length (bcache s) = Suc NBUF" using inv by (rule bio_invD)
  let ?x = "bcache s ! i"
  define x where "x = ?x\<lparr>b_dirty := False, b_valid := True\<rparr>"
  define s' where "s' = (sync s)\<lparr>bcache := (bcache s)[i := x], disk := (disk s)(b := b_data ?x), dtrace := dtrace s @ [(b, b_data ?x)]\<rparr>"
  define s1 where "s1 = upd_buf i (\<lambda>x. x\<lparr>b_dirty := True\<rparr>) (sync s)"
  have s1i: "bcache s1 ! i = ?x\<lparr>b_dirty := True\<rparr>" using hb(1) len by (simp add: s1_def)
  have "env_ok pid s1" "disksize s1 = disksize s" using env by (simp_all add: s1_def)
  then have "iderw i s1 = Ok s'"
    using iderw_write [of pid s1 i] hb ok len unfolding s1i
    by (simp add: s1_def s'_def x_def upd_buf_def sync_def)
  then have run: "bwrite i s = Ok s'"
    using hb by (simp add: bwrite_def holdingsleep_eq [OF env] s1_def)
  have xs: "buf_ok (disk s') (disksize s) x" using ok hb by (auto simp: buf_ok_def s'_def x_def)
  have dl: "length (disk s' b) = length (disk s b)" using ok hb bio_invD(4) [OF inv] by (simp add: s'_def buf_ok_def)
  note u = held_upd [OF inv h, where s' = s' and x = x, OF _ _ _ dl xs]
  have "bio_inv s'" using u(1) hb by (simp add: s'_def x_def)
  moreover have "bview s' = bview s"
    using u(2) hb bview_cached [OF inv hb(1) hb(4)] by (simp add: s'_def x_def fun_upd_idem_iff)
  moreover have "dirty_blocks s' = dirty_blocks s - {b}" "idle_bufs s' = idle_bufs s"
    using u(3,4) hb ok by (simp_all add: s'_def x_def)
  moreover have "holds_buf pid s' i b" "env_ok pid s'" "bio_frame s i s'"
    using h len env by (simp_all add: holds_buf_def s'_def x_def bio_frame_def)
  ultimately show ?thesis using run hb(1) len by (intro exI [of _ s']) (simp add: s'_def x_def)
qed

lemma link_unlink_list:
  assumes "cache_list bs xs" and "set xs = {..<NBUF}" and "i < NBUF"
  shows "\<exists>ys. cache_list (link_front i (unlink_buf i bs)) (i # ys) \<and> xs = (takeWhile (\<lambda>j. j \<noteq> i) xs) @ i # (tl (dropWhile (\<lambda>j. j \<noteq> i) xs)) \<and>
    ys = remove1 i xs \<and> set (i # ys) = {..<NBUF}"
proof -
  have "i \<in> set xs" using assms by simp
  then obtain us vs where s: "xs = us @ i # vs" "i \<notin> set us" by (metis split_list_first)
  have d: "distinct xs" using assms(1) by (simp add: cache_list_def dlist_def)
  have r: "remove1 i xs = us @ vs" using s by (simp add: remove1_append)
  have "cache_list (unlink_buf i bs) (us @ vs)" using unlink_list assms(1) s by simp
  then have "cache_list (link_front i (unlink_buf i bs)) (i # us @ vs)"
    using s d assms(3) by (intro link_front_list) auto
  moreover have "set (i # us @ vs) = {..<NBUF}" using assms(2) s by auto
  moreover have "takeWhile (\<lambda>j. j \<noteq> i) xs = us" "tl (dropWhile (\<lambda>j. j \<noteq> i) xs) = vs" using s by (auto simp: takeWhile_append dropWhile_append)
  ultimately show ?thesis using s r by auto
qed

text \<open>What the second half of \<^verbatim>\<open>brelse\<close> does to the list of buffers.\<close>

definition mru :: "nat \<Rightarrow> buf list \<Rightarrow> buf list" where
  "mru i bs = (if b_refcnt (bs ! i) = 0 then link_front i (unlink_buf i bs) else bs)"

definition released :: "buf \<Rightarrow> buf" where
  "released x = x\<lparr>b_lock := (b_lock x)\<lparr>sl_locked := False, sl_pid := 0\<rparr>, b_refcnt := b_refcnt x - 1\<rparr>"

lemma brelse_run:
  assumes env: "env_ok pid s" and i: "i < length (bcache s)" and l: "sl_locked (b_lock (bcache s ! i))" "sl_pid (b_lock (bcache s ! i)) = pid"
  shows "brelse i s = Ok ((rouse (ChanSleeplock (BufSleeplock i)) s)\<lparr>bcache := mru i ((bcache s)[i := released (bcache s ! i)])\<rparr>)"
proof -
  let ?s1 = "upd_buf i (\<lambda>x. x\<lparr>b_lock := (b_lock (bcache s ! i))\<lparr>sl_locked := False, sl_pid := 0\<rparr>\<rparr>) (rouse (ChanSleeplock (BufSleeplock i)) s)"
  have e1: "env_ok pid ?s1" using env_ok_rouse [OF env] by simp
  have kr: "krelease BcacheLock s' = Ok (s'\<lparr>mach := settle (mach s)\<rparr>)" if "mach s' = acq BcacheLock (settle (mach s))" for s' :: "'a bio_st_scheme"
    using krelease_eq [OF e1, of s'] that by (simp add: rouse_def sync_def)
  have e0: "env_ok pid (sync s)" using env by simp
  have "brelse i s = rbind (kacquire BcacheLock ?s1) (\<lambda>s.
     let s = upd_buf i (\<lambda>x. x\<lparr>b_refcnt := b_refcnt x - 1\<rparr>) s;
         s = (if b_refcnt (bcache s ! i) = 0 then s\<lparr>bcache := link_front i (unlink_buf i (bcache s))\<rparr> else s)
     in krelease BcacheLock s)"
    using l by (simp add: brelse_def holdingsleep_eq [OF env] releasesleep_eq [OF e0] Let_def)
  also have "\<dots> = Ok ((rouse (ChanSleeplock (BufSleeplock i)) s)\<lparr>bcache := mru i ((bcache s)[i := released (bcache s ! i)])\<rparr>)"
    unfolding kacquire_eq [OF e1]
    using i by (simp add: kr Let_def mru_def released_def upd_buf_def rouse_def sync_def)
  finally show ?thesis .
qed

lemma mru_list:
  assumes "cache_list bs xs" and "set xs = {..<NBUF}" and "i < NBUF"
  shows "cache_list (mru i bs) (if b_refcnt (bs ! i) = 0 then i # remove1 i xs else xs)"
    and "set (if b_refcnt (bs ! i) = 0 then i # remove1 i xs else xs) = {..<NBUF}" and "map bcore (mru i bs) = map bcore bs"
  using link_unlink_list [OF assms] assms(1,2) by (auto simp: mru_def link_front_core unlink_core)

lemma brelse_spec:
  assumes inv: "bio_inv s" and env: "env_ok pid s" and h: "holds_buf pid s i b"
    and cl: "b_dirty (bcache s ! i) \<or> b_refcnt (bcache s ! i) \<noteq> 1 \<or> b_data (bcache s ! i) = disk s b"
  shows "\<exists>s'. brelse i s = Ok s' \<and> bio_inv s' \<and> env_ok pid s' \<and> bio_frame s i s' \<and>
    disk s' = disk s \<and> dtrace s' = dtrace s \<and> bview s' = bview s \<and> dirty_blocks s' = dirty_blocks s \<and>
    idle_bufs s' = (if b_dirty (bcache s ! i) \<or> b_refcnt (bcache s ! i) \<noteq> 1 then idle_bufs s else insert i (idle_bufs s)) \<and>
    \<not> sl_locked (b_lock (bcache s' ! i)) \<and> b_blockno (bcache s' ! i) = b"
proof -
  note ok = holds_ok [OF inv h]
  have hb: "i < NBUF" "b_blockno (bcache s ! i) = b" "b_dev (bcache s ! i) = 1" "b_valid (bcache s ! i)"
    "sl_locked (b_lock (bcache s ! i))" "sl_pid (b_lock (bcache s ! i)) = pid" using h by (auto simp: holds_buf_def)
  have len: "length (bcache s) = Suc NBUF" using inv by (rule bio_invD)
  let ?c = "ChanSleeplock (BufSleeplock i)" and ?x = "released (bcache s ! i)"
  define s1 where "s1 = (rouse ?c s)\<lparr>bcache := (bcache s)[i := ?x]\<rparr>"
  define s2 where "s2 = (rouse ?c s)\<lparr>bcache := mru i ((bcache s)[i := ?x])\<rparr>"
  have run: "brelse i s = Ok s2" using brelse_run [OF env _ hb(5,6)] hb(1) len by (simp add: s2_def)
  have x: "buf_ok (disk s1) (disksize s) ?x" using ok hb cl by (auto simp: buf_ok_def s1_def released_def)
  note u = held_upd [OF inv h, where s' = s1 and x = ?x, OF _ _ _ _ x]
  have inv1: "bio_inv s1" using u(1) hb by (simp add: s1_def released_def)
  have v1: "bview s1 = bview s" using u(2) hb bview_cached [OF inv hb(1,4)] by (simp add: s1_def released_def fun_upd_idem_iff)
  have d1: "dirty_blocks s1 = dirty_blocks s" using u(3) hb held_dirty [OF inv h] by (auto simp: s1_def released_def)
  have i1: "idle_bufs s1 = (if b_dirty (bcache s ! i) \<or> b_refcnt (bcache s ! i) \<noteq> 1 then idle_bufs s else insert i (idle_bufs s))"
    using u(4) hb ok by (simp add: s1_def released_def)
  from inv1 obtain xs where xs: "cache_list (bcache s1) xs" "set xs = {..<NBUF}" by (auto simp: bio_inv_def)
  have c2: "bcache s2 = mru i (bcache s1)" "disk s2 = disk s1" "disksize s2 = disksize s1" by (simp_all add: s1_def s2_def)
  note m = mru_list [OF xs hb(1), folded c2(1)]
  have inv2: "bio_inv s2" by (rule bio_inv_core [OF inv1 m(3) c2(2,3) m(1,2)])
  note cs = core_sets [OF inv1 inv2 m(3) c2(2)]
  have cj: "bcore (bcache s2 ! j) = bcore (bcache s1 ! j)" if "j < NBUF" for j using core_nth [OF m(3)] that len by (simp add: s1_def)
  have "bio_frame s i s2" using cj by (simp add: bio_frame_def) (simp add: s1_def s2_def)
  moreover have "\<not> sl_locked (b_lock (bcache s2 ! i))" "b_blockno (bcache s2 ! i) = b"
    using cj [OF hb(1)] hb(1,2) len by (simp_all add: bcore_eq s1_def released_def)
  moreover have "env_ok pid s2" using env_ok_rouse [OF env] by (simp add: s2_def)
  ultimately show ?thesis using run inv2 cs v1 d1 i1 by (intro exI [of _ s2]) (simp add: s2_def)
qed

section \<open>binit\<close>

lemma env_ok_initlock: "env_ok pid s \<Longrightarrow> mach s' = initlock L nm (mach s) \<Longrightarrow> ptable s' = ptable s \<Longrightarrow> env_ok pid s'"
  by (auto simp: env_ok_def quiet_def mach_ok_def lock_free_def initlock_def curproc_def me_def lapicid_def depth_def read_if_def)

lemma upd_buf_mem [simp]:
  "use_lock (upd_buf i f s) = use_lock s" "freelist (upd_buf i f s) = freelist s" "memory (upd_buf i f s) = memory s"
  "kend (upd_buf i f s) = kend s" "kdata (upd_buf i f s) = kdata s" "kpgdir (upd_buf i f s) = kpgdir s"
  by (simp_all add: upd_buf_def)

definition zero_buf :: buf where
  "zero_buf = \<lparr>b_valid = False, b_dirty = False, b_dev = 0, b_blockno = 0,
     b_lock = \<lparr>sl_locked = False, sl_name = '''', sl_pid = 0\<rparr>, b_refcnt = 0, b_prev = 0, b_next = 0, b_data = replicate BSIZE 0\<rparr>"

definition fresh_buf :: "buf \<Rightarrow> bool" where
  "fresh_buf x \<longleftrightarrow> \<not> b_valid x \<and> \<not> b_dirty x \<and> b_dev x = 0 \<and> b_refcnt x = 0 \<and> \<not> sl_locked (b_lock x)"

lemma fresh_core: "bcore x = bcore y \<Longrightarrow> fresh_buf x = fresh_buf y"
  by (simp add: bcore_eq fresh_buf_def)

lemma fresh_link: "length bs = Suc NBUF \<Longrightarrow> (\<forall>j<NBUF. fresh_buf (link_front b bs ! j)) = (\<forall>j<NBUF. fresh_buf (bs ! j))"
  using core_nth [OF link_front_core] fresh_core by (metis less_SucI)

lemma binit_loop_spec:
  assumes "cache_list (bcache s) xs" and "set xs = {..<b}" and "b + n = NBUF" and "\<forall>j<NBUF. fresh_buf (bcache s ! j)"
    and "env_ok pid s"
  shows "\<exists>ys. cache_list (bcache (binit_loop b n s)) ys \<and> set ys = {..<NBUF} \<and> (\<forall>j<NBUF. fresh_buf (bcache (binit_loop b n s) ! j)) \<and>
    disk (binit_loop b n s) = disk s \<and> disksize (binit_loop b n s) = disksize s \<and> dtrace (binit_loop b n s) = dtrace s \<and>
    mem_same s (binit_loop b n s) \<and> bio_st.more (binit_loop b n s) = bio_st.more s \<and> env_ok pid (binit_loop b n s)"
  using assms
proof (induction n arbitrary: b s xs)
  case (Suc n)
  let ?sl = "\<lparr>sl_locked = False, sl_name = ''buffer'', sl_pid = 0\<rparr>"
  define bs where "bs = (bcache s)[b := (bcache s ! b)\<lparr>b_lock := ?sl\<rparr>]"
  define s1 where "s1 = s\<lparr>mach := initlock (SleeplockLk (BufSleeplock b)) ''sleep lock'' (mach s), bcache := link_front b bs\<rparr>"
  have run: "binit_loop b (Suc n) s = binit_loop (Suc b) n s1"
    by (simp add: initsleeplock_def s1_def bs_def)
  have len: "length (bcache s) = Suc NBUF" using Suc.prems(1) by (simp add: cache_list_def)
  have "cache_list bs xs" unfolding bs_def by (rule cache_list_upd [OF Suc.prems(1)]) simp_all
  then have c1: "cache_list (bcache s1) (b # xs)" using Suc.prems(2,3) by (simp add: s1_def link_front_list)
  have "\<forall>j<NBUF. fresh_buf (bs ! j)"
    using Suc.prems(4) len by (auto simp: bs_def fresh_buf_def nth_upd)
  then have f1: "\<forall>j<NBUF. fresh_buf (bcache s1 ! j)" using fresh_link [of bs b] len by (simp add: s1_def bs_def)
  have e1: "env_ok pid s1" by (rule env_ok_initlock [OF Suc.prems(5)]) (simp_all add: s1_def)
  have sb: "set (b # xs) = {..<Suc b}" "Suc b + n = NBUF" using Suc.prems(2,3) by (simp_all add: lessThan_Suc)
  have k: "mem_same s s1 \<and> disk s1 = disk s \<and> disksize s1 = disksize s \<and> dtrace s1 = dtrace s \<and> bio_st.more s1 = bio_st.more s"
    by (simp add: s1_def)
  obtain ys where "cache_list (bcache (binit_loop (Suc b) n s1)) ys" "set ys = {..<NBUF}" "mem_same s1 (binit_loop (Suc b) n s1)"
    and r: "\<forall>j<NBUF. fresh_buf (bcache (binit_loop (Suc b) n s1) ! j)" "disk (binit_loop (Suc b) n s1) = disk s1"
      "disksize (binit_loop (Suc b) n s1) = disksize s1" "dtrace (binit_loop (Suc b) n s1) = dtrace s1"
      "bio_st.more (binit_loop (Suc b) n s1) = bio_st.more s1" "env_ok pid (binit_loop (Suc b) n s1)"
    using Suc.IH [OF c1 sb f1 e1] by blast
  then show ?case unfolding run using k mem_same_trans by (intro exI [of _ ys]) auto
next
  case 0
  then show ?case by (intro exI [of _ xs]) simp
qed

lemma binit_spec:
  assumes len: "length (bcache s) = Suc NBUF" and f: "\<forall>j<NBUF. fresh_buf (bcache s ! j)" and d: "\<forall>b<disksize s. length (disk s b) = BSIZE"
    and env: "env_ok pid s"
  shows "bio_inv (binit s)" and "bview (binit s) = disk s" and "idle_bufs (binit s) = {..<NBUF}" and "dirty_blocks (binit s) = {}"
    and "disk (binit s) = disk s" and "disksize (binit s) = disksize s" and "env_ok pid (binit s)"
    and "mem_same s (binit s)" and "bio_st.more (binit s) = bio_st.more s" and "dtrace (binit s) = dtrace s"
    and "\<forall>b. block_free (binit s) b" and "\<forall>i<NBUF. b_dev (bcache (binit s) ! i) = 0"
proof -
  let ?s = "upd_buf HEAD (\<lambda>h. h\<lparr>b_prev := HEAD, b_next := HEAD\<rparr>) (s\<lparr>mach := initlock BcacheLock ''bcache'' (mach s)\<rparr>)"
  have "cache_list (bcache ?s) []" using len by (simp add: cache_list_def dlist_def bnext_def bprev_def HEAD_def)
  moreover have "\<forall>j<NBUF. fresh_buf (bcache ?s ! j)" using f len by (simp add: HEAD_def)
  moreover have "env_ok pid ?s" by (rule env_ok_initlock [OF env]) simp_all
  ultimately obtain ys where ys: "cache_list (bcache (binit s)) ys" "set ys = {..<NBUF}" "\<forall>j<NBUF. fresh_buf (bcache (binit s) ! j)"
    "disk (binit s) = disk s" "disksize (binit s) = disksize s" "env_ok pid (binit s)" "mem_same s (binit s)" "bio_st.more (binit s) = bio_st.more s"
    "dtrace (binit s) = dtrace s"
    using binit_loop_spec [of ?s "[]" 0 NBUF pid] by (auto simp: binit_def Let_def mem_same_def)
  have fr: "\<not> b_valid (bcache (binit s) ! j) \<and> \<not> b_dirty (bcache (binit s) ! j) \<and> b_dev (bcache (binit s) ! j) = 0 \<and> b_refcnt (bcache (binit s) ! j) = 0 \<and>
     \<not> sl_locked (b_lock (bcache (binit s) ! j))" if "j < NBUF" for j
    using ys(3) that by (simp add: fresh_buf_def)
  have "\<forall>j<NBUF. buf_ok (disk (binit s)) (disksize (binit s)) (bcache (binit s) ! j)" using fr by (simp add: buf_ok_def)
  moreover have "bufs_uniq (bcache (binit s))" using fr by (auto simp: bufs_uniq_def)
  ultimately show "bio_inv (binit s)" using ys d unfolding bio_inv_def by auto
  show "bview (binit s) = disk s" using bview_disk [of "binit s"] fr ys(1,4) by (intro ext) (auto simp: cache_list_def)
  show "idle_bufs (binit s) = {..<NBUF}" "dirty_blocks (binit s) = {}" using fr by (auto simp: idle_bufs_def dirty_blocks_def)
  show "\<forall>b. block_free (binit s) b" "\<forall>i<NBUF. b_dev (bcache (binit s) ! i) = 0" using fr by (auto simp: block_free_def)
  show "disk (binit s) = disk s" "disksize (binit s) = disksize s" "env_ok pid (binit s)"
    "mem_same s (binit s)" "bio_st.more (binit s) = bio_st.more s" "dtrace (binit s) = dtrace s" using ys by auto
qed

definition demo_bio :: bio_st where
  "demo_bio = binit (mem_st.extend demo_mem \<lparr>bcache = replicate (Suc NBUF) zero_buf, disk = (\<lambda>b. replicate BSIZE (if b = 7 then 7 else 0)),
     disksize = 1000, dtrace = []\<rparr>)"

lemma demo_bio_spec:
  "bio_inv demo_bio" "bview demo_bio = (\<lambda>b. replicate BSIZE (if b = 7 then 7 else 0))" "idle_bufs demo_bio = {..<NBUF}" "env_ok 1 demo_bio"
  "disksize demo_bio = 1000" "block_free demo_bio b" "idle_bufs demo_bio \<noteq> {}" "i < NBUF \<Longrightarrow> b_dev (bcache demo_bio ! i) = 0"
proof -
  let ?s = "mem_st.extend demo_mem \<lparr>bcache = replicate (Suc NBUF) zero_buf, disk = (\<lambda>b. replicate BSIZE (if b = 7 then 7 else 0)), disksize = 1000, dtrace = []\<rparr>"
  have f: "length (bcache ?s) = Suc NBUF" "\<forall>j<NBUF. fresh_buf (bcache ?s ! j)" "\<forall>b<disksize ?s. length (disk ?s b) = BSIZE"
    "disk ?s = (\<lambda>b. replicate BSIZE (if b = 7 then 7 else 0))" "disksize ?s = 1000"
    by (simp_all add: mem_st.defs fresh_buf_def zero_buf_def del: replicate_Suc)
  have "env_ok 1 ?s" using demo_sys_env by (simp add: env_ok_def curproc_def mem_st.defs demo_mem_def kern.defs)
  note b = binit_spec [OF f(1-3) this, folded demo_bio_def]
  show "bio_inv demo_bio" "idle_bufs demo_bio = {..<NBUF}" "env_ok 1 demo_bio" "block_free demo_bio b" "i < NBUF \<Longrightarrow> b_dev (bcache demo_bio ! i) = 0" using b by auto
  have "0 \<in> idle_bufs demo_bio" using b(3) by (simp add: NBUF_def)
  then show "idle_bufs demo_bio \<noteq> {}" by blast
  show "bview demo_bio = (\<lambda>b. replicate BSIZE (if b = 7 then 7 else 0))" using b(2) f(4) by simp
  show "disksize demo_bio = 1000" using b(6) f(5) by simp
qed

section \<open>Properties\<close>

text \<open>
  C14. The buffer cache is transparent. In every state that satisfies the invariant of the cache
  (which \<^verbatim>\<open>binit\<close> establishes and all operations preserve), \<^verbatim>\<open>bread\<close> of a block that nobody has locked,
  with a recyclable buffer left, returns a buffer locked by the caller with the current contents
  of the block, and changes the contents of no block, neither in the view of the cache nor on disk.
\<close>

theorem bread_current_contents:
  assumes "bio_inv s" and "env_ok pid s" and "block_free s b" and "b < disksize s" and "idle_bufs s \<noteq> {}"
  shows "\<exists>i s'. bread 1 b s = Ok (i, s') \<and> holds_buf pid s' i b \<and> b_data (bcache s' ! i) = bview s b \<and> bio_inv s' \<and>
    bview s' = bview s \<and> disk s' = disk s \<and> mem_same s s'"
  using bread_spec [OF assms(1-4) disjI1 [OF assms(5)]] unfolding bio_frame_def by blast

theorem bread_current_contents_witness:
  "\<exists>i s'. bread 1 7 demo_bio = Ok (i, s') \<and> b_data (bcache s' ! i) = replicate BSIZE 7"
proof -
  have "7 < disksize demo_bio" by (simp add: demo_bio_spec)
  from bread_current_contents [OF demo_bio_spec(1,4,6) this demo_bio_spec(7)] show ?thesis by (auto simp: demo_bio_spec(2))
qed

text \<open>
  C15. A block written through the cache is what the disk and every later reader see: reading block
  \<open>b\<close>, replacing the data of the buffer, \<^verbatim>\<open>bwrite\<close> and \<^verbatim>\<open>brelse\<close> return, leave \<open>d\<close> on the disk, leave
  all other blocks alone, unlock the buffer and cost no buffer: as many are recyclable as before.
\<close>

definition overwrite_block :: "nat \<Rightarrow> block \<Rightarrow> 'z bio_st_scheme \<Rightarrow> 'z bio_st_scheme res" where
  "overwrite_block b d s =
     rbind (bread 1 b s) (\<lambda>(i, s).
     rbind (bwrite i (bset i d s)) (\<lambda>s.
     brelse i s))"

lemma overwrite_block_spec:
  assumes inv: "bio_inv s" and env: "env_ok pid s" and fr: "block_free s b" and b: "b < disksize s" and ne: "idle_bufs s \<noteq> {}" and d: "length d = BSIZE"
  shows "\<exists>s'. overwrite_block b d s = Ok s' \<and> bio_inv s' \<and> env_ok pid s' \<and> disk s' = (disk s)(b := d) \<and> bview s' = (bview s)(b := d) \<and>
    dtrace s' = dtrace s @ [(b, d)] \<and> block_free s' b \<and> (\<forall>c. block_free s c \<longrightarrow> block_free s' c) \<and>
    dirty_blocks s' = dirty_blocks s - {b} \<and> idle_bufs s \<subseteq> idle_bufs s' \<and> disksize s' = disksize s \<and> mem_same s s' \<and> bio_st.more s' = bio_st.more s"
proof -
  from bread_spec [OF inv env fr b disjI1 [OF ne]] obtain i s1 where
    s1: "bread 1 b s = Ok (i, s1)" "bio_inv s1" "env_ok pid s1" "bio_frame s i s1" "holds_buf pid s1 i b" "bview s1 = bview s" "disk s1 = disk s"
    "dtrace s1 = dtrace s" "dirty_blocks s1 = dirty_blocks s" "idle_bufs s1 = idle_bufs s - {i}"
    "i \<in> idle_bufs s \<longleftrightarrow> b_refcnt (bcache s1 ! i) = 1 \<and> b \<notin> dirty_blocks s" by blast
  note s2 = bset_spec [OF s1(2,5) d]
  have e2: "env_ok pid (bset i d s1)" using s1(3) s2(9) by simp
  from bwrite_spec [OF s2(1) e2 s2(3)] obtain s3 where
    s3: "bwrite i (bset i d s1) = Ok s3" "bio_inv s3" "env_ok pid s3" "bio_frame (bset i d s1) i s3" "holds_buf pid s3 i b" "disk s3 = (disk s1)(b := d)"
    "dtrace s3 = dtrace s1 @ [(b, d)]" "bview s3 = (bview s1)(b := d)" "dirty_blocks s3 = dirty_blocks s1 - {b}" "idle_bufs s3 = idle_bufs s1"
    "\<not> b_dirty (bcache s3 ! i)" "b_data (bcache s3 ! i) = d" "b_refcnt (bcache s3 ! i) = b_refcnt (bcache s1 ! i)"
    using s2 by auto
  have "b_dirty (bcache s3 ! i) \<or> b_refcnt (bcache s3 ! i) \<noteq> 1 \<or> b_data (bcache s3 ! i) = disk s3 b" using s3(6,12) by simp
  from brelse_spec [OF s3(2,3,5) this] obtain s4 where
    s4: "brelse i s3 = Ok s4" "bio_inv s4" "env_ok pid s4" "bio_frame s3 i s4" "disk s4 = disk s3" "dtrace s4 = dtrace s3" "bview s4 = bview s3"
    "dirty_blocks s4 = dirty_blocks s3" "idle_bufs s4 = (if b_refcnt (bcache s3 ! i) \<noteq> 1 then idle_bufs s3 else insert i (idle_bufs s3))"
    "\<not> sl_locked (b_lock (bcache s4 ! i))" "b_blockno (bcache s4 ! i) = b" using s3(11) by auto
  have fr4: "bio_frame s i s4" using s1(4) s2(4) s3(4) s4(4) unfolding bio_frame_def by (auto intro: mem_same_trans)
  then have "block_free s4 c" if "block_free s c" for c
    using that s4(10) unfolding block_free_def bio_frame_def by (metis bcore_eq)
  moreover have "idle_bufs s \<subseteq> idle_bufs s4" using s1(10,11) s3(10,13) s4(9) by auto
  moreover have "overwrite_block b d s = Ok s4" using s1(1) s3(1) s4(1) by (simp add: overwrite_block_def)
  ultimately show ?thesis using fr4 fr s1 s3 s4 by (intro exI [of _ s4]) (auto simp: bio_frame_def)
qed

theorem bwrite_reaches_disk:
  assumes "bio_inv s" and "env_ok pid s" and "block_free s b" and "b < disksize s" and "idle_bufs s \<noteq> {}" and "length d = BSIZE"
  shows "\<exists>s'. overwrite_block b d s = Ok s' \<and> bio_inv s' \<and> disk s' = (disk s)(b := d) \<and> bview s' = (bview s)(b := d) \<and>
    block_free s' b \<and> idle_bufs s \<subseteq> idle_bufs s'"
  using overwrite_block_spec [OF assms] by blast

theorem bwrite_reaches_disk_witness:
  "\<exists>s'. overwrite_block 7 (replicate BSIZE 1) demo_bio = Ok s' \<and> disk s' 7 = replicate BSIZE 1"
proof -
  have "7 < disksize demo_bio" by (simp add: demo_bio_spec)
  from bwrite_reaches_disk [OF demo_bio_spec(1,4,6) this demo_bio_spec(7), of "replicate BSIZE 1"] show ?thesis by auto
qed

text \<open>A run of \<^verbatim>\<open>brelse\<close>.\<close>

primrec release_all :: "nat list \<Rightarrow> 'z bio_st_scheme \<Rightarrow> 'z bio_st_scheme res" where
  "release_all [] s = Ok s"
| "release_all (i # is) s = rbind (brelse i s) (release_all is)"

definition recyclable :: "buf \<Rightarrow> bool" where
  "recyclable x \<longleftrightarrow> b_refcnt x = 0 \<and> \<not> b_dirty x"

lemma recyclable_core: "bcore x = bcore y \<Longrightarrow> recyclable x = recyclable y"
  by (simp add: recyclable_def bcore_eq)

text \<open>Each release of the last reference moves the buffer to the front of the list.\<close>

lemma release_all_run:
  assumes "env_ok pid s" and "cache_list (bcache s) xs" and "set xs = {..<NBUF}" and "distinct is"
    and "\<And>i. i \<in> set is \<Longrightarrow> i < NBUF \<and> b_refcnt (bcache s ! i) = 1 \<and> sl_locked (b_lock (bcache s ! i)) \<and> sl_pid (b_lock (bcache s ! i)) = pid"
  shows "\<exists>s'. release_all is s = Ok s' \<and> env_ok pid s' \<and> cache_list (bcache s') (rev is @ filter (\<lambda>i. i \<notin> set is) xs) \<and>
    (\<forall>j<NBUF. bcore (bcache s' ! j) = bcore (if j \<in> set is then released (bcache s ! j) else bcache s ! j))"
  using assms
proof (induction "is" arbitrary: s xs)
  case (Cons i "is")
  have len: "length (bcache s) = Suc NBUF" and d: "distinct xs" using Cons.prems(2) by (auto simp: cache_list_def dlist_def)
  have i: "i < NBUF" "b_refcnt (bcache s ! i) = 1" "sl_locked (b_lock (bcache s ! i))" "sl_pid (b_lock (bcache s ! i)) = pid" "i \<notin> set is"
    using Cons.prems(4) Cons.prems(5) [of i] by auto
  let ?bs = "(bcache s)[i := released (bcache s ! i)]"
  define s1 where "s1 = (rouse (ChanSleeplock (BufSleeplock i)) s)\<lparr>bcache := mru i ?bs\<rparr>"
  have run: "brelse i s = Ok s1" using brelse_run [OF Cons.prems(1) _ i(3,4)] i(1) len by (simp add: s1_def)
  have "cache_list ?bs xs" by (rule cache_list_upd [OF Cons.prems(2)]) (simp_all add: released_def)
  note m = mru_list [OF this Cons.prems(3) i(1)]
  have c1: "cache_list (bcache s1) (i # remove1 i xs)" "set (i # remove1 i xs) = {..<NBUF}"
    using m(1,2) i len by (simp_all add: s1_def released_def)
  have core: "bcore (bcache s1 ! j) = bcore (?bs ! j)" if "j < NBUF" for j using core_nth [OF m(3)] that len by (simp add: s1_def)
  have other: "bcore (bcache s1 ! j) = bcore (bcache s ! j)" if "j < NBUF" "j \<noteq> i" for j using core [OF that(1)] that by simp
  have "env_ok pid s1" using env_ok_rouse [OF Cons.prems(1)] by (simp add: s1_def)
  moreover have "j < NBUF \<and> b_refcnt (bcache s1 ! j) = 1 \<and> sl_locked (b_lock (bcache s1 ! j)) \<and> sl_pid (b_lock (bcache s1 ! j)) = pid" if "j \<in> set is" for j
  proof -
    have "j < NBUF" "j \<noteq> i" using that Cons.prems(5) [of j] i(5) by auto
    then show ?thesis using that Cons.prems(5) [of j] other [of j] by (simp add: bcore_eq)
  qed
  moreover have "distinct is" using Cons.prems(4) by simp
  ultimately obtain s' where s': "release_all is s1 = Ok s'" "env_ok pid s'" "cache_list (bcache s') (rev is @ filter (\<lambda>j. j \<notin> set is) (i # remove1 i xs))"
    "\<forall>j<NBUF. bcore (bcache s' ! j) = bcore (if j \<in> set is then released (bcache s1 ! j) else bcache s1 ! j)"
    using Cons.IH [of s1 "i # remove1 i xs"] c1 by blast
  have "filter (\<lambda>j. j \<notin> set is) (i # remove1 i xs) = i # filter (\<lambda>j. j \<notin> set (i # is)) xs"
    using i(5) d by (simp add: distinct_remove1_removeAll removeAll_filter_not_eq) (rule filter_cong, auto)
  moreover have "bcore (released (bcache s1 ! j)) = bcore (released (bcache s ! j))" if "j < NBUF" "j \<noteq> i" for j
    using other [OF that] by (simp add: bcore_eq released_def)
  then have "\<forall>j<NBUF. bcore (bcache s' ! j) = bcore (if j \<in> set (i # is) then released (bcache s ! j) else bcache s ! j)"
    using s'(4) core i len by (auto simp: other)
  ultimately show ?case using s' run by simp
qed simp

text \<open>\<^verbatim>\<open>bget\<close> of a block that is not cached.\<close>

lemma bget_miss:
  assumes env: "env_ok pid s" and xs: "cache_list (bcache s) xs" "set xs = {..<NBUF}"
    and no: "\<And>i. i < NBUF \<Longrightarrow> \<not> (b_dev (bcache s ! i) = dev \<and> b_blockno (bcache s ! i) = b)"
    and un: "\<And>i. i < NBUF \<Longrightarrow> b_refcnt (bcache s ! i) = 0 \<Longrightarrow> \<not> sl_locked (b_lock (bcache s ! i))"
  shows "bget dev b s = (case find (\<lambda>i. recyclable (bcache s ! i)) (rev xs) of
      None \<Rightarrow> Panic ''bget: no buffers''
    | Some i \<Rightarrow> Ok (i, (sync s)\<lparr>bcache := (bcache s)[i := (bcache s ! i)\<lparr>b_dev := dev, b_blockno := b, b_valid := False, b_dirty := False,
        b_refcnt := 1, b_lock := (b_lock (bcache s ! i))\<lparr>sl_locked := True, sl_pid := pid\<rparr>\<rparr>]\<rparr>))"
proof -
  let ?new = "\<lambda>x. x\<lparr>b_dev := dev, b_blockno := b, b_valid := False, b_dirty := False, b_refcnt := 1\<rparr>"
  have len: "length (bcache s) = Suc NBUF" using xs(1) by (simp add: cache_list_def)
  have look: "find (\<lambda>j. b_dev (bcache s ! j) = dev \<and> b_blockno (bcache s ! j) = b) xs = None"
    using no xs(2) by (auto simp: find_None_iff)
  note rec = bget_recycle_find [OF xs(1), folded recyclable_def] and look' = bget_lookup_find [OF xs(1), of dev b, unfolded look]
  have fin: "rbind (krelease BcacheLock (upd_buf i ?new (s\<lparr>mach := acq BcacheLock (mach s)\<rparr>))) (lock_buf i) =
      Ok (i, (sync s)\<lparr>bcache := (bcache s)[i := (?new (bcache s ! i))\<lparr>b_lock := (b_lock (bcache s ! i))\<lparr>sl_locked := True, sl_pid := pid\<rparr>\<rparr>]\<rparr>)"
    if i: "i < NBUF" "\<not> sl_locked (b_lock (bcache s ! i))" for i
  proof -
    have "krelease BcacheLock (upd_buf i ?new (s\<lparr>mach := acq BcacheLock (mach s)\<rparr>)) = Ok (upd_buf i ?new (sync s))"
      using krelease_eq [OF env, of "upd_buf i ?new (s\<lparr>mach := acq BcacheLock (mach s)\<rparr>)" BcacheLock] by (simp add: upd_buf_def sync_def)
    moreover have "env_ok pid (upd_buf i ?new (sync s))" using env by simp
    moreover have "sync (upd_buf i ?new (sync s)) = upd_buf i ?new (sync s)" by (simp add: sync_def upd_buf_def)
    ultimately show ?thesis using i len by (simp add: lock_buf_def acquiresleep_free) (simp add: upd_buf_def)
  qed
  show ?thesis
  proof (cases "find (\<lambda>i. recyclable (bcache s ! i)) (rev xs)")
    case None
    then show ?thesis using look' rec by (simp add: bget_def kacquire_eq [OF env])
  next
    case (Some i)
    then have "i < NBUF" "recyclable (bcache s ! i)" using find_SomeD [OF Some] xs(2) by auto
    then have "\<not> sl_locked (b_lock (bcache s ! i))" "i < NBUF" using un by (auto simp: recyclable_def)
    from fin [OF this(2,1)] show ?thesis using look' rec Some by (simp add: bget_def kacquire_eq [OF env])
  qed
qed

lemma find_rev: "find P (rev ys) = (if filter P ys = [] then None else Some (last (filter P ys)))"
  by (induction ys rule: rev_induct) auto

text \<open>
  C16. The cache recycles in the order of the releases. Let a process release the buffers
  \<open>is\<close>, each with its last reference, one after the other, in a cache whose list has the order \<open>xs\<close>
  (\<open>is\<close> may be empty). The list then starts with the buffers released last. A \<^verbatim>\<open>bget\<close> of a block that
  is not cached returns, of the buffers that are neither referenced nor dirty, the one at the end of
  that list, which was released first: locked by the caller, with one reference, for the new block and
  not valid; all other buffers stay as they are. If there is no such buffer, it panics.
\<close>

theorem bget_recycles_lru:
  assumes "bio_inv s" and "env_ok pid s" and "cache_list (bcache s) xs" and "set xs = {..<NBUF}" and "distinct is"
    and "\<And>i. i \<in> set is \<Longrightarrow> i < NBUF \<and> b_refcnt (bcache s ! i) = 1 \<and> sl_locked (b_lock (bcache s ! i)) \<and> sl_pid (b_lock (bcache s ! i)) = pid"
    and "\<And>i. i < NBUF \<Longrightarrow> \<not> (b_dev (bcache s ! i) = dev \<and> b_blockno (bcache s ! i) = b)"
  shows "\<exists>s1 ys. release_all is s = Ok s1 \<and> ys = rev is @ filter (\<lambda>i. i \<notin> set is) xs \<and> cache_list (bcache s1) ys \<and>
    (case filter (\<lambda>i. b_refcnt (bcache s1 ! i) = 0 \<and> \<not> b_dirty (bcache s1 ! i)) ys of
       [] \<Rightarrow> bget dev b s1 = Panic ''bget: no buffers''
     | l # ls \<Rightarrow> \<exists>s2. bget dev b s1 = Ok (last (l # ls), s2) \<and>
         bcache s2 = (bcache s1)[last (l # ls) := (bcache s1 ! last (l # ls))\<lparr>b_dev := dev, b_blockno := b, b_valid := False, b_dirty := False,
           b_refcnt := 1, b_lock := (b_lock (bcache s1 ! last (l # ls)))\<lparr>sl_locked := True, sl_pid := pid\<rparr>\<rparr>])"
proof -
  let ?ys = "rev is @ filter (\<lambda>i. i \<notin> set is) xs"
  obtain s1 where s1: "release_all is s = Ok s1" "env_ok pid s1" "cache_list (bcache s1) ?ys"
    "\<forall>j<NBUF. bcore (bcache s1 ! j) = bcore (if j \<in> set is then released (bcache s ! j) else bcache s ! j)"
    using release_all_run [OF assms(2-6)] by blast
  have ys: "set ?ys = {..<NBUF}" using assms(4,6) by auto
  have no: "\<not> (b_dev (bcache s1 ! i) = dev \<and> b_blockno (bcache s1 ! i) = b)" if "i < NBUF" for i
    using s1(4) that assms(7) [OF that] by (auto simp: bcore_eq released_def split: if_splits)
  have un: "\<not> sl_locked (b_lock (bcache s1 ! i))" if "i < NBUF" "b_refcnt (bcache s1 ! i) = 0" for i
    using s1(4) that bio_invD(2) [OF assms(1) that(1)] by (auto simp: bcore_eq released_def buf_ok_def split: if_splits)
  note miss = bget_miss [OF s1(2,3) ys no un, unfolded find_rev recyclable_def]
  show ?thesis
  proof (intro exI conjI)
    show "release_all is s = Ok s1" "?ys = ?ys" "cache_list (bcache s1) ?ys" using s1 by simp_all
    show "case filter (\<lambda>i. b_refcnt (bcache s1 ! i) = 0 \<and> \<not> b_dirty (bcache s1 ! i)) ?ys of
       [] \<Rightarrow> bget dev b s1 = Panic ''bget: no buffers''
     | l # ls \<Rightarrow> \<exists>s2. bget dev b s1 = Ok (last (l # ls), s2) \<and>
         bcache s2 = (bcache s1)[last (l # ls) := (bcache s1 ! last (l # ls))\<lparr>b_dev := dev, b_blockno := b, b_valid := False, b_dirty := False,
           b_refcnt := 1, b_lock := (b_lock (bcache s1 ! last (l # ls)))\<lparr>sl_locked := True, sl_pid := pid\<rparr>\<rparr>]"
    proof (cases "filter (\<lambda>i. b_refcnt (bcache s1 ! i) = 0 \<and> \<not> b_dirty (bcache s1 ! i)) ?ys")
      case Nil
      then show ?thesis using miss by (simp only: list.case option.case if_True simp_thms)
    next
      case (Cons l ls)
      let ?i = "last (l # ls)"
      define x where "x = (bcache s1 ! ?i)\<lparr>b_dev := dev, b_blockno := b, b_valid := False, b_dirty := False,
           b_refcnt := 1, b_lock := (b_lock (bcache s1 ! ?i))\<lparr>sl_locked := True, sl_pid := pid\<rparr>\<rparr>"
      define s2 where "s2 = (sync s1)\<lparr>bcache := (bcache s1)[?i := x]\<rparr>"
      have "bget dev b s1 = Ok (?i, s2)" unfolding s2_def x_def using miss by (simp only: Cons list.distinct if_False option.case simp_thms)
      moreover have "bcache s2 = (bcache s1)[?i := x]" unfolding s2_def by simp
      ultimately show ?thesis unfolding Cons list.case x_def by blast
    qed
  qed
qed

theorem bget_recycles_lru_witness:
  "\<exists>i s1 s2 k s3. bread 1 5 demo_bio = Ok (i, s1) \<and> release_all [i] s1 = Ok s2 \<and> bget 1 6 s2 = Ok (k, s3)"
proof -
  note d = demo_bio_spec
  have "5 < disksize demo_bio" by (simp add: d(5))
  from bread_spec [OF d(1,4,6) this disjI1 [OF d(7)]] obtain i s1 where
    s1: "bread 1 5 demo_bio = Ok (i, s1)" "bio_inv s1" "env_ok 1 s1" "bio_frame demo_bio i s1" "holds_buf 1 s1 i 5" "dirty_blocks s1 = dirty_blocks demo_bio"
      "i \<in> idle_bufs demo_bio \<longleftrightarrow> b_refcnt (bcache s1 ! i) = 1 \<and> 5 \<notin> dirty_blocks demo_bio" by blast
  from s1(2) obtain xs where xs: "cache_list (bcache s1) xs" "set xs = {..<NBUF}" by (auto simp: bio_inv_def)
  have h: "i < NBUF" "sl_locked (b_lock (bcache s1 ! i))" "sl_pid (b_lock (bcache s1 ! i)) = 1" "b_blockno (bcache s1 ! i) = 5" using s1(5) by (auto simp: holds_buf_def)
  have one: "b_refcnt (bcache s1 ! i) = 1" using s1(7) d(3) h(1) by simp
  have no: "\<not> (b_dev (bcache s1 ! j) = 1 \<and> b_blockno (bcache s1 ! j) = 6)" if "j < NBUF" for j
    using s1(4) d(8) [OF that] h(4) that by (cases "j = i") (auto simp: bio_frame_def bcore_eq)
  obtain s2 ys where s2: "release_all [i] s1 = Ok s2" "ys = [i] @ filter (\<lambda>j. j \<notin> {i}) xs" "cache_list (bcache s2) ys"
    and g: "case filter (\<lambda>j. b_refcnt (bcache s2 ! j) = 0 \<and> \<not> b_dirty (bcache s2 ! j)) ys of
       [] \<Rightarrow> bget 1 6 s2 = Panic ''bget: no buffers''
     | l # ls \<Rightarrow> \<exists>s3. bget 1 6 s2 = Ok (last (l # ls), s3) \<and>
         bcache s3 = (bcache s2)[last (l # ls) := (bcache s2 ! last (l # ls))\<lparr>b_dev := 1, b_blockno := 6, b_valid := False, b_dirty := False,
           b_refcnt := 1, b_lock := (b_lock (bcache s2 ! last (l # ls)))\<lparr>sl_locked := True, sl_pid := 1\<rparr>\<rparr>]"
    using bget_recycles_lru [OF s1(2,3) xs, of "[i]" 1 6] h one no by auto
  have "\<forall>j<NBUF. bcore (bcache s2 ! j) = bcore (if j \<in> set [i] then released (bcache s1 ! j) else bcache s1 ! j)"
    using release_all_run [OF s1(3) xs, of "[i]"] h one s2(1) by auto
  then have "bcore (bcache s2 ! i) = bcore (released (bcache s1 ! i))" using h(1) by simp
  moreover have "\<not> b_dirty (bcache s1 ! i)"
    using held_dirty [OF s1(2,5)] s1(6,7) one d(3) h(1) by simp
  ultimately have "filter (\<lambda>j. b_refcnt (bcache s2 ! j) = 0 \<and> \<not> b_dirty (bcache s2 ! j)) ys \<noteq> []"
    using one s2(2) by (simp add: bcore_eq released_def)
  then obtain l ls where "filter (\<lambda>j. b_refcnt (bcache s2 ! j) = 0 \<and> \<not> b_dirty (bcache s2 ! j)) ys = l # ls" by (cases "filter (\<lambda>j. b_refcnt (bcache s2 ! j) = 0 \<and> \<not> b_dirty (bcache s2 ! j)) ys") auto
  then obtain s3 where "bget 1 6 s2 = Ok (last (l # ls), s3)" using g by auto
  then show ?thesis using s1(1) s2(1) by blast
qed

end
