(* ===== verification/Log.thy ===== *)
theory Log
  imports Bio
begin

section \<open>The write-ahead log (log.c, the super block of fs.h)\<close>

text \<open>
  \<open>log_st\<close> adds \<^verbatim>\<open>struct log\<close> to the state. The header array \<^verbatim>\<open>lh.block\<close> is a list of \<^verbatim>\<open>LOGSIZE\<close>
  block numbers and \<open>lh_n\<close> the number of entries in use, an integer because it is read from the
  disk. Reading or writing \<^verbatim>\<open>lh.block\<close> outside its bounds is the outcome \<open>Undef\<close>.

  The properties: \<^verbatim>\<open>commit\<close> writes the log, the header, the home locations and the empty header in
  this order, and whatever prefix of these writes a crash lets through, recovery ends with either
  all or none of the blocks of the transaction in place.
\<close>

subsection \<open>The super block\<close>

record superblock =
  sb_magic :: uint
  sb_size :: uint
  sb_nblocks :: uint
  sb_ninodes :: uint
  sb_nlog :: uint
  sb_logstart :: uint
  sb_inodestart :: uint
  sb_bmapstart :: uint
  sb_bpg :: uint
  sb_ipg :: uint
  sb_ngroups :: uint

definition superblock_of :: "block \<Rightarrow> superblock" where
  "superblock_of d = \<lparr>sb_magic = get32 d 0, sb_size = get32 d 4, sb_nblocks = get32 d 8, sb_ninodes = get32 d 12,
     sb_nlog = get32 d 16, sb_logstart = get32 d 20, sb_inodestart = get32 d 24, sb_bmapstart = get32 d 28,
     sb_bpg = get32 d 32, sb_ipg = get32 d 36, sb_ngroups = get32 d 40\<rparr>"

definition readsb :: "nat \<Rightarrow> 'z bio_st_scheme \<Rightarrow> (superblock \<times> 'z bio_st_scheme) res" where
  "readsb dev s =
     rbind (bread dev 1 s) (\<lambda>(bp, s).
     let sb = superblock_of (b_data (bcache s ! bp)) in
     rbind (brelse bp s) (\<lambda>s. Ok (sb, s)))"

subsection \<open>The log\<close>

definition LOGSIZE :: int where "LOGSIZE = 30"

definition MAXOPBLOCKS :: int where "MAXOPBLOCKS = 10"

record log_st = bio_st +
  log_start :: nat
  log_size :: int
  log_outstanding :: int
  log_committing :: bool
  log_dev :: nat
  lh_n :: int
  lh_block :: "nat list"

text \<open>\<^verbatim>\<open>log.lh.block[i]\<close>\<close>

definition lh_get :: "nat \<Rightarrow> 'z log_st_scheme \<Rightarrow> nat res" where
  "lh_get i s = (if i < length (lh_block s) then Ok (lh_block s ! i) else Undef)"

primrec install_trans_from :: "nat \<Rightarrow> nat \<Rightarrow> 'z log_st_scheme \<Rightarrow> 'z log_st_scheme res" where
  "install_trans_from 0 tail s = Ok s"
| "install_trans_from (Suc n) tail s =
     rbind (bread (log_dev s) (log_start s + tail + 1) s) (\<lambda>(lbuf, s).
     rbind (lh_get tail s) (\<lambda>dst.
     rbind (bread (log_dev s) dst s) (\<lambda>(dbuf, s).
     let s = bset dbuf (b_data (bcache s ! lbuf)) s in
     rbind (bwrite dbuf s) (\<lambda>s.
     rbind (brelse lbuf s) (\<lambda>s.
     rbind (brelse dbuf s) (\<lambda>s.
     install_trans_from n (Suc tail) s))))))"

definition install_trans :: "'z log_st_scheme \<Rightarrow> 'z log_st_scheme res" where
  "install_trans s = install_trans_from (nat (lh_n s)) 0 s"

text \<open>The loop of \<^verbatim>\<open>read_head\<close>: \<open>n\<close> entries from index \<open>i\<close> on.\<close>

primrec read_entries :: "nat \<Rightarrow> nat \<Rightarrow> block \<Rightarrow> nat list \<Rightarrow> nat list res" where
  "read_entries 0 i d bs = Ok bs"
| "read_entries (Suc n) i d bs =
     (if i < length bs \<and> 4 + 4 * i + 4 \<le> length d
      then read_entries n (Suc i) d (bs[i := unat (get32 d (4 + 4 * i))]) else Undef)"

definition read_head :: "'z log_st_scheme \<Rightarrow> 'z log_st_scheme res" where
  "read_head s =
     rbind (bread (log_dev s) (log_start s) s) (\<lambda>(buf, s).
     let d = b_data (bcache s ! buf);
         s = s\<lparr>lh_n := sint (get32 d 0)\<rparr> in
     rbind (read_entries (nat (lh_n s)) 0 d (lh_block s)) (\<lambda>bs.
     brelse buf (s\<lparr>lh_block := bs\<rparr>)))"

primrec write_entries :: "nat \<Rightarrow> nat \<Rightarrow> nat list \<Rightarrow> block \<Rightarrow> block res" where
  "write_entries 0 i bs d = Ok d"
| "write_entries (Suc n) i bs d =
     (if i < length bs \<and> 4 + 4 * i + 4 \<le> length d
      then write_entries n (Suc i) bs (put32 (4 + 4 * i) (of_nat (bs ! i)) d) else Undef)"

definition write_head :: "'z log_st_scheme \<Rightarrow> 'z log_st_scheme res" where
  "write_head s =
     rbind (bread (log_dev s) (log_start s) s) (\<lambda>(buf, s).
     let d = put32 0 (of_int (lh_n s)) (b_data (bcache s ! buf)) in
     rbind (write_entries (nat (lh_n s)) 0 (lh_block s) d) (\<lambda>d.
     rbind (bwrite buf (bset buf d s)) (\<lambda>s.
     brelse buf s)))"

definition recover_from_log :: "'z log_st_scheme \<Rightarrow> 'z log_st_scheme res" where
  "recover_from_log s =
     rbind (read_head s) (\<lambda>s.
     rbind (install_trans s) (\<lambda>s.
     write_head (s\<lparr>lh_n := 0\<rparr>)))"

text \<open>\<^verbatim>\<open>sizeof(struct logheader)\<close> is \<open>4 + 4 * LOGSIZE\<close>.\<close>

definition initlog :: "nat \<Rightarrow> 'z log_st_scheme \<Rightarrow> 'z log_st_scheme res" where
  "initlog dev s =
     (if 4 + 4 * LOGSIZE \<ge> int BSIZE then Panic ''initlog: too big logheader''
      else let s = s\<lparr>mach := initlock LogLock ''log'' (mach s)\<rparr> in
        rbind (readsb dev s) (\<lambda>(sb, s).
        recover_from_log (s\<lparr>log_start := unat (sb_logstart sb), log_size := int (unat (sb_nlog sb)), log_dev := dev\<rparr>)))"

definition begin_op :: "'z log_st_scheme \<Rightarrow> 'z log_st_scheme res" where
  "begin_op s =
     rbind (kacquire LogLock s) (\<lambda>s.
     if log_committing s then Sleep ChanLog
     else if lh_n s + (log_outstanding s + 1) * MAXOPBLOCKS > LOGSIZE then Sleep ChanLog
     else krelease LogLock (s\<lparr>log_outstanding := log_outstanding s + 1\<rparr>))"

primrec write_log_from :: "nat \<Rightarrow> nat \<Rightarrow> 'z log_st_scheme \<Rightarrow> 'z log_st_scheme res" where
  "write_log_from 0 tail s = Ok s"
| "write_log_from (Suc n) tail s =
     rbind (bread (log_dev s) (log_start s + tail + 1) s) (\<lambda>(to, s).
     rbind (lh_get tail s) (\<lambda>src.
     rbind (bread (log_dev s) src s) (\<lambda>(from, s).
     let s = bset to (b_data (bcache s ! from)) s in
     rbind (bwrite to s) (\<lambda>s.
     rbind (brelse from s) (\<lambda>s.
     rbind (brelse to s) (\<lambda>s.
     write_log_from n (Suc tail) s))))))"

definition write_log :: "'z log_st_scheme \<Rightarrow> 'z log_st_scheme res" where
  "write_log s = write_log_from (nat (lh_n s)) 0 s"

definition commit :: "'z log_st_scheme \<Rightarrow> 'z log_st_scheme res" where
  "commit s =
     (if lh_n s > 0 then
        rbind (write_log s) (\<lambda>s.
        rbind (write_head s) (\<lambda>s.
        rbind (install_trans s) (\<lambda>s.
        write_head (s\<lparr>lh_n := 0\<rparr>))))
      else Ok s)"

definition end_op :: "'z log_st_scheme \<Rightarrow> 'z log_st_scheme res" where
  "end_op s =
     rbind (kacquire LogLock s) (\<lambda>s.
     let s = s\<lparr>log_outstanding := log_outstanding s - 1\<rparr> in
     if log_committing s then Panic ''log.committing''
     else if log_outstanding s = 0 then
       rbind (krelease LogLock (s\<lparr>log_committing := True\<rparr>)) (\<lambda>s.
       rbind (commit s) (\<lambda>s.
       rbind (kacquire LogLock s) (\<lambda>s.
       rbind (wakeup ChanLog (s\<lparr>log_committing := False\<rparr>)) (\<lambda>s.
       krelease LogLock s))))
     else
       rbind (wakeup ChanLog s) (\<lambda>s.
       krelease LogLock s))"

definition log_write :: "nat \<Rightarrow> 'z log_st_scheme \<Rightarrow> 'z log_st_scheme res" where
  "log_write b s =
     (if lh_n s \<ge> LOGSIZE \<or> lh_n s \<ge> log_size s - 1 then Panic ''too big a transaction''
      else if log_outstanding s < 1 then Panic ''log_write outside of trans''
      else rbind (kacquire LogLock s) (\<lambda>s.
        let n = nat (lh_n s);
            blockno = b_blockno (bcache s ! b);
            i = (case first_index (\<lambda>x. x = blockno) (take n (lh_block s)) of Some i \<Rightarrow> i | None \<Rightarrow> n);
            s = s\<lparr>lh_block := (lh_block s)[i := blockno]\<rparr>;
            s = (if i = n then s\<lparr>lh_n := lh_n s + 1\<rparr> else s);
            s = upd_buf b (\<lambda>x. x\<lparr>b_dirty := True\<rparr>) s in
        krelease LogLock s))"

section \<open>Two buffers at a time\<close>

text \<open>What an operation keeps that locks some buffers and releases them again.\<close>

definition bio_step :: "int \<Rightarrow> 'z bio_st_scheme \<Rightarrow> 'z bio_st_scheme \<Rightarrow> bool" where
  "bio_step pid s s' \<longleftrightarrow> bio_inv s' \<and> env_ok pid s' \<and> disksize s' = disksize s \<and> mem_same s s' \<and> bio_st.more s' = bio_st.more s \<and>
     (\<forall>c. block_free s c \<longrightarrow> block_free s' c) \<and> idle_bufs s \<subseteq> idle_bufs s'"

lemma bio_step_trans: "bio_step pid s s' \<Longrightarrow> bio_step pid s' s'' \<Longrightarrow> bio_step pid s s''"
  by (auto simp: bio_step_def intro: mem_same_trans)

lemma frame_holds:
  assumes "bio_frame s j s'" and "holds_buf pid s i b" and "i \<noteq> j"
  shows "holds_buf pid s' i b" and "b_data (bcache s' ! i) = b_data (bcache s ! i)"
    and "b_dirty (bcache s' ! i) = b_dirty (bcache s ! i)" and "b_refcnt (bcache s' ! i) = b_refcnt (bcache s ! i)"
proof -
  have "i < NBUF" using assms(2) by (simp add: holds_buf_def)
  then have "bcore (bcache s' ! i) = bcore (bcache s ! i)" using assms(1,3) by (simp add: bio_frame_def)
  then show "holds_buf pid s' i b" "b_data (bcache s' ! i) = b_data (bcache s ! i)"
    "b_dirty (bcache s' ! i) = b_dirty (bcache s ! i)" "b_refcnt (bcache s' ! i) = b_refcnt (bcache s ! i)"
    using assms(2) by (simp_all add: bcore_eq holds_buf_def)
qed

text \<open>The condition under which \<open>brelse\<close> keeps the invariant.\<close>

definition settled :: "'z bio_st_scheme \<Rightarrow> nat \<Rightarrow> nat \<Rightarrow> bool" where
  "settled s i b \<longleftrightarrow> b_dirty (bcache s ! i) \<or> b_refcnt (bcache s ! i) \<noteq> 1 \<or> b_data (bcache s ! i) = disk s b"

lemma read_two:
  assumes inv: "bio_inv s" and env: "env_ok pid s" and x: "block_free s x" "x < disksize s" and y: "block_free s y" "y < disksize s"
    and xy: "x \<noteq> y" and room: "\<exists>k\<in>idle_bufs s. y \<in> dirty_blocks s \<or> (\<exists>l\<in>idle_bufs s. l \<noteq> k)"
  shows "\<exists>i j s1 s2. bread 1 x s = Ok (i, s1) \<and> bread 1 y s1 = Ok (j, s2) \<and> i \<noteq> j \<and> bio_inv s2 \<and> env_ok pid s2 \<and>
    holds_buf pid s2 i x \<and> holds_buf pid s2 j y \<and> b_data (bcache s2 ! i) = bview s x \<and> b_data (bcache s2 ! j) = bview s y \<and>
    bview s2 = bview s \<and> disk s2 = disk s \<and> dtrace s2 = dtrace s \<and> dirty_blocks s2 = dirty_blocks s \<and>
    settled s2 i x \<and> settled s2 j y \<and> idle_bufs s2 = idle_bufs s - {i, j} \<and>
    (i \<in> idle_bufs s \<longleftrightarrow> b_refcnt (bcache s2 ! i) = 1 \<and> x \<notin> dirty_blocks s) \<and>
    (j \<in> idle_bufs s \<longleftrightarrow> b_refcnt (bcache s2 ! j) = 1 \<and> y \<notin> dirty_blocks s) \<and>
    (\<forall>k<NBUF. k \<noteq> i \<longrightarrow> k \<noteq> j \<longrightarrow> bcore (bcache s2 ! k) = bcore (bcache s ! k)) \<and>
    disksize s2 = disksize s \<and> mem_same s s2 \<and> bio_st.more s2 = bio_st.more s \<and> bio_st.more s1 = bio_st.more s \<and>
    \<not> sl_locked (b_lock (bcache s ! i)) \<and> \<not> sl_locked (b_lock (bcache s ! j))"
proof -
  have ne: "idle_bufs s \<noteq> {}" using room by auto
  from bread_spec [OF inv env x disjI1 [OF ne]] obtain i s1 where
    s1: "bread 1 x s = Ok (i, s1)" "bio_inv s1" "env_ok pid s1" "bio_frame s i s1" "holds_buf pid s1 i x" "\<not> sl_locked (b_lock (bcache s ! i))"
    "b_data (bcache s1 ! i) = bview s x" "bview s1 = bview s" "disk s1 = disk s"
    "dtrace s1 = dtrace s" "settled s1 i x" "b_dirty (bcache s1 ! i) \<longleftrightarrow> x \<in> dirty_blocks s" "dirty_blocks s1 = dirty_blocks s" "idle_bufs s1 = idle_bufs s - {i}"
    "i \<in> idle_bufs s \<longleftrightarrow> b_refcnt (bcache s1 ! i) = 1 \<and> x \<notin> dirty_blocks s" unfolding settled_def by metis
  have iN: "i < NBUF" "b_blockno (bcache s1 ! i) = x" "sl_locked (b_lock (bcache s1 ! i))" using s1(5) by (auto simp: holds_buf_def)
  have c1: "bcore (bcache s1 ! k) = bcore (bcache s ! k)" if "k < NBUF" "k \<noteq> i" for k using s1(4) that by (simp add: bio_frame_def)
  have fy: "block_free s1 y" unfolding block_free_def
  proof (intro allI impI)
    fix k
    assume k: "k < NBUF" "b_dev (bcache s1 ! k) = 1 \<and> b_blockno (bcache s1 ! k) = y"
    then have "k \<noteq> i" using iN(2) xy by auto
    then show "\<not> sl_locked (b_lock (bcache s1 ! k))" using c1 [OF k(1)] y(1) k by (auto simp: block_free_def bcore_eq)
  qed
  have y1: "y < disksize s1" using y(2) s1(4) by (simp add: bio_frame_def)
  have room1: "idle_bufs s1 \<noteq> {} \<or> (\<exists>k<NBUF. b_dev (bcache s1 ! k) = 1 \<and> b_blockno (bcache s1 ! k) = y)"
  proof (cases "y \<in> dirty_blocks s")
    case True
    then have "y \<in> dirty_blocks s1" using s1(13) by simp
    then obtain k where k: "k < NBUF" "b_dirty (bcache s1 ! k)" "b_blockno (bcache s1 ! k) = y" by (auto simp: dirty_blocks_def)
    then have "b_dev (bcache s1 ! k) = 1" using bio_invD(2) [OF s1(2) k(1)] by (simp add: buf_ok_def)
    then show ?thesis using k by blast
  next
    case False
    then obtain k l where "k \<in> idle_bufs s" "l \<in> idle_bufs s" "l \<noteq> k" using room by auto
    then show ?thesis using s1(14) by auto
  qed
  from bread_spec [OF s1(2,3) fy y1 room1] obtain j s2 where
    s2: "bread 1 y s1 = Ok (j, s2)" "bio_inv s2" "env_ok pid s2" "bio_frame s1 j s2" "holds_buf pid s2 j y" "\<not> sl_locked (b_lock (bcache s1 ! j))"
    "b_data (bcache s2 ! j) = bview s1 y" "bview s2 = bview s1" "disk s2 = disk s1"
    "dtrace s2 = dtrace s1" "settled s2 j y" "dirty_blocks s2 = dirty_blocks s1" "idle_bufs s2 = idle_bufs s1 - {j}"
    "j \<in> idle_bufs s1 \<longleftrightarrow> b_refcnt (bcache s2 ! j) = 1 \<and> y \<notin> dirty_blocks s1" unfolding settled_def by metis
  have ij: "i \<noteq> j" using s2(6) iN(3) by auto
  have jN: "j < NBUF" using s2(5) by (simp add: holds_buf_def)
  note fh = frame_holds [OF s2(4) s1(5) ij]
  have sx: "settled s2 i x" using s1(11) fh s1(9) s2(9) by (simp add: settled_def)
  have c2: "bcore (bcache s2 ! k) = bcore (bcache s ! k)" if "k < NBUF" "k \<noteq> i" "k \<noteq> j" for k
    using s2(4) that c1 [OF that(1,2)] by (simp add: bio_frame_def)
  have lj: "\<not> sl_locked (b_lock (bcache s ! j))" using s2(6) c1 [OF jN ij [symmetric]] by (simp add: bcore_eq)
  have fr: "disksize s2 = disksize s" "mem_same s s2" "bio_st.more s2 = bio_st.more s" "bio_st.more s1 = bio_st.more s"
    using s1(4) s2(4) mem_same_trans by (auto simp: bio_frame_def)
  have idl: "idle_bufs s2 = idle_bufs s - {i, j}" using s2(13) s1(14) by auto
  have ii: "i \<in> idle_bufs s \<longleftrightarrow> b_refcnt (bcache s2 ! i) = 1 \<and> x \<notin> dirty_blocks s" using s1(15) fh(4) by simp
  have jj: "j \<in> idle_bufs s \<longleftrightarrow> b_refcnt (bcache s2 ! j) = 1 \<and> y \<notin> dirty_blocks s"
    using s2(14) s1(13,14) ij by auto
  have dd: "b_data (bcache s2 ! i) = bview s x" "b_data (bcache s2 ! j) = bview s y" "bview s2 = bview s" "disk s2 = disk s"
    "dtrace s2 = dtrace s" "dirty_blocks s2 = dirty_blocks s" using s1 s2 fh(2) by simp_all
  show ?thesis
    by (rule exI [of _ i], rule exI [of _ j], rule exI [of _ s1], rule exI [of _ s2], intro conjI allI impI)
      (fact s1(1) s1(6) s2(1) s2(2) s2(3) s2(5) s2(11) ij fh(1) sx lj fr idl ii jj dd | erule (2) c2)+
qed

lemma release_two:
  assumes inv: "bio_inv s" and env: "env_ok pid s" and h: "holds_buf pid s i x" "holds_buf pid s j y" "i \<noteq> j"
    and cl: "settled s i x" "settled s j y"
  shows "\<exists>s1 s2. brelse i s = Ok s1 \<and> brelse j s1 = Ok s2 \<and> bio_inv s2 \<and> env_ok pid s2 \<and>
    disk s2 = disk s \<and> dtrace s2 = dtrace s \<and> bview s2 = bview s \<and> dirty_blocks s2 = dirty_blocks s \<and>
    idle_bufs s \<subseteq> idle_bufs s2 \<and> (b_refcnt (bcache s ! i) = 1 \<and> x \<notin> dirty_blocks s \<longrightarrow> i \<in> idle_bufs s2) \<and>
    (b_refcnt (bcache s ! j) = 1 \<and> y \<notin> dirty_blocks s \<longrightarrow> j \<in> idle_bufs s2) \<and>
    (\<forall>k<NBUF. k \<noteq> i \<longrightarrow> k \<noteq> j \<longrightarrow> bcore (bcache s2 ! k) = bcore (bcache s ! k)) \<and>
    \<not> sl_locked (b_lock (bcache s2 ! i)) \<and> \<not> sl_locked (b_lock (bcache s2 ! j)) \<and>
    disksize s2 = disksize s \<and> mem_same s s2 \<and> bio_st.more s2 = bio_st.more s"
proof -
  from brelse_spec [OF inv env h(1) cl(1) [unfolded settled_def]] obtain s1 where
    s1: "brelse i s = Ok s1" "bio_inv s1" "env_ok pid s1" "bio_frame s i s1" "disk s1 = disk s" "dtrace s1 = dtrace s" "bview s1 = bview s"
    "dirty_blocks s1 = dirty_blocks s"
    "idle_bufs s1 = (if b_dirty (bcache s ! i) \<or> b_refcnt (bcache s ! i) \<noteq> 1 then idle_bufs s else insert i (idle_bufs s))"
    "\<not> sl_locked (b_lock (bcache s1 ! i))" by blast
  note fh = frame_holds [OF s1(4) h(2) h(3) [symmetric]]
  have "settled s1 j y" using cl(2) fh s1(5) by (simp add: settled_def)
  from brelse_spec [OF s1(2,3) fh(1) this [unfolded settled_def]] obtain s2 where
    s2: "brelse j s1 = Ok s2" "bio_inv s2" "env_ok pid s2" "bio_frame s1 j s2" "disk s2 = disk s1" "dtrace s2 = dtrace s1" "bview s2 = bview s1"
    "dirty_blocks s2 = dirty_blocks s1"
    "idle_bufs s2 = (if b_dirty (bcache s1 ! j) \<or> b_refcnt (bcache s1 ! j) \<noteq> 1 then idle_bufs s1 else insert j (idle_bufs s1))"
    "\<not> sl_locked (b_lock (bcache s2 ! j))" by blast
  have N: "i < NBUF" "j < NBUF" using h by (auto simp: holds_buf_def)
  have di: "b_dirty (bcache s ! i) \<longleftrightarrow> x \<in> dirty_blocks s" "b_dirty (bcache s ! j) \<longleftrightarrow> y \<in> dirty_blocks s"
    using held_dirty [OF inv h(1)] held_dirty [OF inv h(2)] by auto
  have idl: "idle_bufs s \<subseteq> idle_bufs s2" "b_refcnt (bcache s ! i) = 1 \<and> x \<notin> dirty_blocks s \<longrightarrow> i \<in> idle_bufs s2"
    "b_refcnt (bcache s ! j) = 1 \<and> y \<notin> dirty_blocks s \<longrightarrow> j \<in> idle_bufs s2"
    using s1(9) s2(9) di fh by auto
  have c: "bcore (bcache s2 ! k) = bcore (bcache s ! k)" if "k < NBUF" "k \<noteq> i" "k \<noteq> j" for k
    using s1(4) s2(4) that by (simp add: bio_frame_def)
  have li: "\<not> sl_locked (b_lock (bcache s2 ! i))"
    using s2(4) N(1) h(3) s1(10) by (simp add: bio_frame_def bcore_eq)
  have fr: "disksize s2 = disksize s" "mem_same s s2" "bio_st.more s2 = bio_st.more s"
    using s1(4) s2(4) mem_same_trans by (auto simp: bio_frame_def)
  have eq: "disk s2 = disk s" "dtrace s2 = dtrace s" "bview s2 = bview s" "dirty_blocks s2 = dirty_blocks s" using s1 s2 by simp_all
  show ?thesis
    by (rule exI [of _ s1], rule exI [of _ s2], intro conjI)
      (fact s1(1) s2(1) s2(2) s2(3) s2(10) li fr eq idl | (intro allI impI, erule (2) c))+
qed

lemma unlocked_free:
  assumes "\<forall>k<NBUF. k \<noteq> i \<longrightarrow> k \<noteq> j \<longrightarrow> bcore (bcache s' ! k) = bcore (bcache s ! k)"
    and "\<not> sl_locked (b_lock (bcache s' ! i))" and "\<not> sl_locked (b_lock (bcache s' ! j))" and "block_free s c"
  shows "block_free s' c"
  unfolding block_free_def
proof (intro allI impI)
  fix k
  assume k: "k < NBUF" "b_dev (bcache s' ! k) = 1 \<and> b_blockno (bcache s' ! k) = c"
  show "\<not> sl_locked (b_lock (bcache s' ! k))"
  proof (cases "k = i \<or> k = j")
    case False
    then have "bcore (bcache s' ! k) = bcore (bcache s ! k)" using assms(1) k by blast
    then show ?thesis using assms(4) k by (simp add: block_free_def bcore_eq)
  qed (use assms(2,3) in auto)
qed

text \<open>Copy the held block \<open>y\<close> over the held block \<open>x\<close>, write it, and release both: as in
  \<^verbatim>\<open>write_log\<close> (source released first) and in \<^verbatim>\<open>install_trans\<close>, where the two are read in the other order.\<close>

lemma copy_held:
  assumes inv: "bio_inv s" and env: "env_ok pid s" and h: "holds_buf pid s i x" "holds_buf pid s j y" "i \<noteq> j" "x \<noteq> y"
    and cl: "settled s j y" and d: "b_data (bcache s ! j) = v" "v = bview s y"
  shows "\<exists>s3 s4 s5. bwrite i (bset i v s) = Ok s3 \<and> brelse j s3 = Ok s4 \<and> brelse i s4 = Ok s5 \<and> bio_inv s5 \<and> env_ok pid s5 \<and>
    disk s5 = (disk s)(x := v) \<and> dtrace s5 = dtrace s @ [(x, v)] \<and> bview s5 = (bview s)(x := v) \<and> dirty_blocks s5 = dirty_blocks s - {x} \<and>
    idle_bufs s \<subseteq> idle_bufs s5 \<and> (b_refcnt (bcache s ! i) = 1 \<longrightarrow> i \<in> idle_bufs s5) \<and>
    (b_refcnt (bcache s ! j) = 1 \<and> y \<notin> dirty_blocks s \<longrightarrow> j \<in> idle_bufs s5) \<and>
    (\<forall>k<NBUF. k \<noteq> i \<longrightarrow> k \<noteq> j \<longrightarrow> bcore (bcache s5 ! k) = bcore (bcache s ! k)) \<and>
    \<not> sl_locked (b_lock (bcache s5 ! i)) \<and> \<not> sl_locked (b_lock (bcache s5 ! j)) \<and>
    disksize s5 = disksize s \<and> mem_same s s5 \<and> bio_st.more s5 = bio_st.more s"
proof -
  have y: "y < disksize s" using holds_ok [OF inv h(2)] by simp
  have lv: "length v = BSIZE" using length_bview [OF inv y] d(2) by simp
  note s2 = bset_spec [OF inv h(1) lv]
  have e2: "env_ok pid (bset i v s)" using env s2(9) by simp
  from bwrite_spec [OF s2(1) e2 s2(3)] obtain s3 where
    s3: "bwrite i (bset i v s) = Ok s3" "bio_inv s3" "env_ok pid s3" "bio_frame (bset i v s) i s3" "holds_buf pid s3 i x" "disk s3 = (disk s)(x := v)"
    "dtrace s3 = dtrace s @ [(x, v)]" "bview s3 = (bview s)(x := v)" "dirty_blocks s3 = dirty_blocks s - {x}" "idle_bufs s3 = idle_bufs s"
    "b_data (bcache s3 ! i) = v" "b_refcnt (bcache s3 ! i) = b_refcnt (bcache s ! i)" using s2 by auto
  have fr: "bio_frame s i s3" using s2(4) s3(4) mem_same_trans by (auto simp: bio_frame_def)
  note fh = frame_holds [OF fr h(2) h(3) [symmetric]]
  have "settled s3 i x" "settled s3 j y" using cl fh s3(6,11) h(4) by (auto simp: settled_def)
  from release_two [OF s3(2,3) fh(1) s3(5) h(3) [symmetric] this(2,1)] obtain s4 s5 where
    s5: "brelse j s3 = Ok s4" "brelse i s4 = Ok s5" "bio_inv s5" "env_ok pid s5"
    "disk s5 = disk s3" "dtrace s5 = dtrace s3" "bview s5 = bview s3" "dirty_blocks s5 = dirty_blocks s3"
    "idle_bufs s3 \<subseteq> idle_bufs s5" "b_refcnt (bcache s3 ! j) = 1 \<and> y \<notin> dirty_blocks s3 \<longrightarrow> j \<in> idle_bufs s5"
    "b_refcnt (bcache s3 ! i) = 1 \<and> x \<notin> dirty_blocks s3 \<longrightarrow> i \<in> idle_bufs s5"
    "\<forall>k<NBUF. k \<noteq> j \<longrightarrow> k \<noteq> i \<longrightarrow> bcore (bcache s5 ! k) = bcore (bcache s3 ! k)"
    "\<not> sl_locked (b_lock (bcache s5 ! j))" "\<not> sl_locked (b_lock (bcache s5 ! i))"
    "disksize s5 = disksize s3" "mem_same s3 s5" "bio_st.more s5 = bio_st.more s3" by blast
  have c: "bcore (bcache s5 ! k) = bcore (bcache s ! k)" if "k < NBUF" "k \<noteq> i" "k \<noteq> j" for k
    using s5(12) that fr by (simp add: bio_frame_def)
  have idl: "idle_bufs s \<subseteq> idle_bufs s5" "b_refcnt (bcache s ! i) = 1 \<longrightarrow> i \<in> idle_bufs s5"
    "b_refcnt (bcache s ! j) = 1 \<and> y \<notin> dirty_blocks s \<longrightarrow> j \<in> idle_bufs s5"
    using s5(9,10,11) s3(9,10,12) fh(4) by auto
  have fr5: "disksize s5 = disksize s" "mem_same s s5" "bio_st.more s5 = bio_st.more s"
    using fr s5(15,16,17) mem_same_trans by (auto simp: bio_frame_def)
  have eq: "disk s5 = (disk s)(x := v)" "dtrace s5 = dtrace s @ [(x, v)]" "bview s5 = (bview s)(x := v)" "dirty_blocks s5 = dirty_blocks s - {x}"
    using s3 s5 by simp_all
  show ?thesis
    by (rule exI [of _ s3], rule exI [of _ s4], rule exI [of _ s5], intro conjI)
      (fact s3(1) s5(1) s5(2) s5(3) s5(4) s5(13) s5(14) idl fr5 eq | (intro allI impI, erule (2) c))+
qed

text \<open>What a list of block writes leaves on a disk.\<close>

fun apply_writes :: "(nat \<times> block) list \<Rightarrow> (nat \<Rightarrow> block) \<Rightarrow> nat \<Rightarrow> block" where
  "apply_writes [] d = d"
| "apply_writes ((b, v) # ws) d = apply_writes ws (d(b := v))"

lemma apply_writes_append [simp]: "apply_writes (ws @ ws') d = apply_writes ws' (apply_writes ws d)"
  by (induction ws arbitrary: d) auto

definition wrote :: "int \<Rightarrow> (nat \<times> block) list \<Rightarrow> 'z bio_st_scheme \<Rightarrow> 'z bio_st_scheme \<Rightarrow> bool" where
  "wrote pid ws s s' \<longleftrightarrow> bio_step pid s s' \<and> disk s' = apply_writes ws (disk s) \<and>
     bview s' = apply_writes ws (bview s) \<and> dtrace s' = dtrace s @ ws \<and> dirty_blocks s' = dirty_blocks s - fst ` set ws"

lemma wrote_trans: "wrote pid ws s s' \<Longrightarrow> wrote pid ws' s' s'' \<Longrightarrow> wrote pid (ws @ ws') s s''"
  unfolding wrote_def using bio_step_trans [of pid s s' s''] by auto

definition room_for :: "'z bio_st_scheme \<Rightarrow> nat \<Rightarrow> bool" where
  "room_for s y \<longleftrightarrow> (\<exists>k\<in>idle_bufs s. y \<in> dirty_blocks s \<or> (\<exists>l\<in>idle_bufs s. l \<noteq> k))"

lemma copy_to_first:
  assumes inv: "bio_inv s" and env: "env_ok pid s" and x: "block_free s x" "x < disksize s" and y: "block_free s y" "y < disksize s"
    and xy: "x \<noteq> y" and room: "room_for s y"
  shows "\<exists>i j s1 s2 s3 s4 s5. bread 1 x s = Ok (i, s1) \<and> bread 1 y s1 = Ok (j, s2) \<and> bio_st.more s1 = bio_st.more s \<and>
    bwrite i (bset i (b_data (bcache s2 ! j)) s2) = Ok s3 \<and> brelse j s3 = Ok s4 \<and> brelse i s4 = Ok s5 \<and> wrote pid [(x, bview s y)] s s5"
proof -
  from read_two [OF inv env x y xy room [unfolded room_for_def]] obtain i j s1 s2 where
    r: "bread 1 x s = Ok (i, s1)" "bread 1 y s1 = Ok (j, s2)" "i \<noteq> j" "bio_inv s2" "env_ok pid s2" "holds_buf pid s2 i x" "holds_buf pid s2 j y"
      "b_data (bcache s2 ! j) = bview s y" "settled s2 j y" "bio_st.more s1 = bio_st.more s"
    and eq: "bview s2 = bview s" "disk s2 = disk s" "dtrace s2 = dtrace s" "dirty_blocks s2 = dirty_blocks s"
      "disksize s2 = disksize s" "mem_same s s2" "bio_st.more s2 = bio_st.more s"
    and idl: "idle_bufs s2 = idle_bufs s - {i, j}" "i \<in> idle_bufs s \<longleftrightarrow> b_refcnt (bcache s2 ! i) = 1 \<and> x \<notin> dirty_blocks s"
      "j \<in> idle_bufs s \<longleftrightarrow> b_refcnt (bcache s2 ! j) = 1 \<and> y \<notin> dirty_blocks s"
    and c: "\<forall>k<NBUF. k \<noteq> i \<longrightarrow> k \<noteq> j \<longrightarrow> bcore (bcache s2 ! k) = bcore (bcache s ! k)" by blast
  have v: "bview s y = bview s2 y" using eq by simp
  from copy_held [OF r(4-7) r(3) xy r(9,8) v] obtain s3 s4 s5 where
    w: "bwrite i (bset i (bview s y) s2) = Ok s3" "brelse j s3 = Ok s4" "brelse i s4 = Ok s5" "bio_inv s5" "env_ok pid s5"
      "disk s5 = (disk s2)(x := bview s y)" "dtrace s5 = dtrace s2 @ [(x, bview s y)]" "bview s5 = (bview s2)(x := bview s y)"
      "dirty_blocks s5 = dirty_blocks s2 - {x}" "disksize s5 = disksize s2" "mem_same s2 s5" "bio_st.more s5 = bio_st.more s2"
    and idl5: "idle_bufs s2 \<subseteq> idle_bufs s5" "b_refcnt (bcache s2 ! i) = 1 \<longrightarrow> i \<in> idle_bufs s5"
      "b_refcnt (bcache s2 ! j) = 1 \<and> y \<notin> dirty_blocks s2 \<longrightarrow> j \<in> idle_bufs s5"
    and c5: "\<forall>k<NBUF. k \<noteq> i \<longrightarrow> k \<noteq> j \<longrightarrow> bcore (bcache s5 ! k) = bcore (bcache s2 ! k)" "\<not> sl_locked (b_lock (bcache s5 ! i))" "\<not> sl_locked (b_lock (bcache s5 ! j))"
    by blast
  have "\<forall>k<NBUF. k \<noteq> i \<longrightarrow> k \<noteq> j \<longrightarrow> bcore (bcache s5 ! k) = bcore (bcache s ! k)" using c c5(1) by simp
  then have "\<forall>b. block_free s b \<longrightarrow> block_free s5 b" using unlocked_free [of i j s5 s] c5(2,3) by blast
  moreover have "idle_bufs s \<subseteq> idle_bufs s5" using idl idl5 eq(4) by auto
  ultimately have "wrote pid [(x, bview s y)] s s5"
    using w eq mem_same_trans [of s s2 s5] by (simp add: wrote_def bio_step_def)
  then show ?thesis using r(1,2,8,10) w(1-3) by auto
qed

lemma copy_to_second:
  assumes inv: "bio_inv s" and env: "env_ok pid s" and x: "block_free s x" "x < disksize s" and y: "block_free s y" "y < disksize s"
    and xy: "x \<noteq> y" and room: "room_for s y"
  shows "\<exists>i j s1 s2 s3 s4 s5. bread 1 x s = Ok (i, s1) \<and> bread 1 y s1 = Ok (j, s2) \<and> bio_st.more s1 = bio_st.more s \<and>
    bwrite j (bset j (b_data (bcache s2 ! i)) s2) = Ok s3 \<and> brelse i s3 = Ok s4 \<and> brelse j s4 = Ok s5 \<and> wrote pid [(y, bview s x)] s s5"
proof -
  from read_two [OF inv env x y xy room [unfolded room_for_def]] obtain i j s1 s2 where
    r: "bread 1 x s = Ok (i, s1)" "bread 1 y s1 = Ok (j, s2)" "i \<noteq> j" "bio_inv s2" "env_ok pid s2" "holds_buf pid s2 i x" "holds_buf pid s2 j y"
      "b_data (bcache s2 ! i) = bview s x" "settled s2 i x" "bio_st.more s1 = bio_st.more s"
    and eq: "bview s2 = bview s" "disk s2 = disk s" "dtrace s2 = dtrace s" "dirty_blocks s2 = dirty_blocks s"
      "disksize s2 = disksize s" "mem_same s s2" "bio_st.more s2 = bio_st.more s"
    and idl: "idle_bufs s2 = idle_bufs s - {i, j}" "i \<in> idle_bufs s \<longleftrightarrow> b_refcnt (bcache s2 ! i) = 1 \<and> x \<notin> dirty_blocks s"
      "j \<in> idle_bufs s \<longleftrightarrow> b_refcnt (bcache s2 ! j) = 1 \<and> y \<notin> dirty_blocks s"
    and c: "\<forall>k<NBUF. k \<noteq> i \<longrightarrow> k \<noteq> j \<longrightarrow> bcore (bcache s2 ! k) = bcore (bcache s ! k)" by blast
  have v: "bview s x = bview s2 x" using eq by simp
  from copy_held [OF r(4,5,7,6) r(3) [symmetric] xy [symmetric] r(9,8) v] obtain s3 s4 s5 where
    w: "bwrite j (bset j (bview s x) s2) = Ok s3" "brelse i s3 = Ok s4" "brelse j s4 = Ok s5" "bio_inv s5" "env_ok pid s5"
      "disk s5 = (disk s2)(y := bview s x)" "dtrace s5 = dtrace s2 @ [(y, bview s x)]" "bview s5 = (bview s2)(y := bview s x)"
      "dirty_blocks s5 = dirty_blocks s2 - {y}" "disksize s5 = disksize s2" "mem_same s2 s5" "bio_st.more s5 = bio_st.more s2"
    and idl5: "idle_bufs s2 \<subseteq> idle_bufs s5" "b_refcnt (bcache s2 ! j) = 1 \<longrightarrow> j \<in> idle_bufs s5"
      "b_refcnt (bcache s2 ! i) = 1 \<and> x \<notin> dirty_blocks s2 \<longrightarrow> i \<in> idle_bufs s5"
    and c5: "\<forall>k<NBUF. k \<noteq> j \<longrightarrow> k \<noteq> i \<longrightarrow> bcore (bcache s5 ! k) = bcore (bcache s2 ! k)" "\<not> sl_locked (b_lock (bcache s5 ! j))" "\<not> sl_locked (b_lock (bcache s5 ! i))"
    by blast
  have "\<forall>k<NBUF. k \<noteq> i \<longrightarrow> k \<noteq> j \<longrightarrow> bcore (bcache s5 ! k) = bcore (bcache s ! k)" using c c5(1) by simp
  then have "\<forall>b. block_free s b \<longrightarrow> block_free s5 b" using unlocked_free [of i j s5 s] c5(2,3) by blast
  moreover have "idle_bufs s \<subseteq> idle_bufs s5" using idl idl5 eq(4) by auto
  ultimately have "wrote pid [(y, bview s x)] s s5"
    using w eq mem_same_trans [of s s2 s5] by (simp add: wrote_def bio_step_def)
  then show ?thesis using r(1,2,8,10) w(1-3) by auto
qed

lemma log_more:
  assumes "bio_st.more s' = bio_st.more s"
  shows "log_start s' = log_start s" "log_size s' = log_size s" "log_outstanding s' = log_outstanding s" "log_committing s' = log_committing s"
    "log_dev s' = log_dev s" "lh_n s' = lh_n s" "lh_block s' = lh_block s" "log_st.more s' = log_st.more s"
  using assms by (cases s; cases s'; simp)+

text \<open>The blocks of a transaction: \<open>n\<close> entries of the header from \<open>t\<close> on, all outside the log,
  and the log blocks that belong to them.\<close>

definition trans_ok :: "nat \<Rightarrow> nat \<Rightarrow> 'z log_st_scheme \<Rightarrow> bool" where
  "trans_ok t n s \<longleftrightarrow> log_dev s = 1 \<and> t + n \<le> length (lh_block s) \<and>
     (\<forall>i. t \<le> i \<and> i < t + n \<longrightarrow>
       log_start s + i + 1 < disksize s \<and> block_free s (log_start s + i + 1) \<and> lh_block s ! i < disksize s \<and>
       block_free s (lh_block s ! i) \<and> (lh_block s ! i < log_start s \<or> log_start s + t + n < lh_block s ! i))"

lemma trans_ok_step:
  assumes "trans_ok t (Suc n) s" and "bio_step pid s s'"
  shows "trans_ok (Suc t) n s'"
proof -
  note m = log_more [of s' s]
  have "bio_st.more s' = bio_st.more s" "disksize s' = disksize s" "\<And>c. block_free s c \<Longrightarrow> block_free s' c"
    using assms(2) by (auto simp: bio_step_def)
  then show ?thesis using assms(1) m by (auto simp: trans_ok_def)
qed

definition log_writes :: "nat \<Rightarrow> nat \<Rightarrow> 'z log_st_scheme \<Rightarrow> (nat \<times> block) list" where
  "log_writes t n s = map (\<lambda>i. (log_start s + i + 1, bview s (lh_block s ! i))) [t..<t + n]"

definition home_writes :: "nat \<Rightarrow> nat \<Rightarrow> 'z log_st_scheme \<Rightarrow> (nat \<times> block) list" where
  "home_writes t n s = map (\<lambda>i. (lh_block s ! i, bview s (log_start s + i + 1))) [t..<t + n]"

lemma write_log_run:
  assumes "bio_inv s" and "env_ok pid s" and "trans_ok t n s" and "\<forall>i. t \<le> i \<and> i < t + n \<longrightarrow> room_for s (lh_block s ! i)"
  shows "\<exists>s'. write_log_from n t s = Ok s' \<and> wrote pid (log_writes t n s) s s'"
  using assms
proof (induction n arbitrary: t s)
  case 0
  then show ?case by (auto simp: wrote_def bio_step_def log_writes_def)
next
  case (Suc n)
  let ?x = "log_start s + t + 1" and ?y = "lh_block s ! t"
  have xy: "block_free s ?x" "?x < disksize s" "block_free s ?y" "?y < disksize s" "?x \<noteq> ?y" "log_dev s = 1" "t < length (lh_block s)"
    using Suc.prems(3) by (auto simp: trans_ok_def)
  have "room_for s ?y" using Suc.prems(4) by simp
  from copy_to_first [OF Suc.prems(1,2) xy(1-5) this] obtain i j s1 s2 s3 s4 s5 where
    r: "bread 1 ?x s = Ok (i, s1)" "bread 1 ?y s1 = Ok (j, s2)" "bio_st.more s1 = bio_st.more s"
      "bwrite i (bset i (b_data (bcache s2 ! j)) s2) = Ok s3" "brelse j s3 = Ok s4" "brelse i s4 = Ok s5" "wrote pid [(?x, bview s ?y)] s s5" by blast
  note m1 = log_more [OF r(3)]
  have run: "write_log_from (Suc n) t s = write_log_from n (Suc t) s5"
    using r xy(6,7) m1 by (simp add: lh_get_def Let_def)
  have b5: "bio_inv s5" "env_ok pid s5" "bio_step pid s s5" "bio_st.more s5 = bio_st.more s" using r(7) by (auto simp: wrote_def bio_step_def)
  note m5 = log_more [OF b5(4)]
  have out: "lh_block s ! k \<noteq> ?x" if "t \<le> k" "k < t + Suc n" for k using Suc.prems(3) that by (auto simp: trans_ok_def)
  have rm: "room_for s5 (lh_block s5 ! k)" if "Suc t \<le> k \<and> k < Suc t + n" for k
  proof -
    have "room_for s (lh_block s ! k)" using Suc.prems(4) that by simp
    moreover have "dirty_blocks s5 = dirty_blocks s - {?x}" "idle_bufs s \<subseteq> idle_bufs s5" using r(7) by (auto simp: wrote_def bio_step_def)
    ultimately show ?thesis using out [of k] that m5 unfolding room_for_def by auto
  qed
  from Suc.IH [OF b5(1,2) trans_ok_step [OF Suc.prems(3) b5(3)]] rm obtain s' where
    s': "write_log_from n (Suc t) s5 = Ok s'" "wrote pid (log_writes (Suc t) n s5) s5 s'" by blast
  have eq: "log_writes (Suc t) n s5 = log_writes (Suc t) n s"
  proof -
    have "bview s5 = (bview s)(?x := bview s ?y)" using r(7) by (simp add: wrote_def)
    then show ?thesis unfolding log_writes_def using m5 out by (auto simp: fun_upd_def)
  qed
  have "log_writes t (Suc n) s = (?x, bview s ?y) # log_writes (Suc t) n s" by (simp add: log_writes_def upt_conv_Cons del: upt_Suc)
  then have "wrote pid (log_writes t (Suc n) s) s s'"
    using wrote_trans [OF r(7) s'(2)] unfolding eq by simp
  then show ?case using run s'(1) by auto
qed

lemma install_run:
  assumes "bio_inv s" and "env_ok pid s" and "trans_ok t n s" and "\<forall>i. t \<le> i \<and> i < t + n \<longrightarrow> room_for s (lh_block s ! i)"
    and "distinct (take (t + n) (lh_block s))"
  shows "\<exists>s'. install_trans_from n t s = Ok s' \<and> wrote pid (home_writes t n s) s s'"
  using assms
proof (induction n arbitrary: t s)
  case 0
  then show ?case by (auto simp: wrote_def bio_step_def home_writes_def)
next
  case (Suc n)
  let ?x = "log_start s + t + 1" and ?y = "lh_block s ! t"
  have xy: "block_free s ?x" "?x < disksize s" "block_free s ?y" "?y < disksize s" "?x \<noteq> ?y" "log_dev s = 1" "t < length (lh_block s)"
    using Suc.prems(3) by (auto simp: trans_ok_def)
  have "room_for s ?y" using Suc.prems(4) by simp
  from copy_to_second [OF Suc.prems(1,2) xy(1-5) this] obtain i j s1 s2 s3 s4 s5 where
    r: "bread 1 ?x s = Ok (i, s1)" "bread 1 ?y s1 = Ok (j, s2)" "bio_st.more s1 = bio_st.more s"
      "bwrite j (bset j (b_data (bcache s2 ! i)) s2) = Ok s3" "brelse i s3 = Ok s4" "brelse j s4 = Ok s5" "wrote pid [(?y, bview s ?x)] s s5" by blast
  note m1 = log_more [OF r(3)]
  have run: "install_trans_from (Suc n) t s = install_trans_from n (Suc t) s5"
    using r xy(6,7) m1 by (simp add: lh_get_def Let_def)
  have b5: "bio_inv s5" "env_ok pid s5" "bio_step pid s s5" "bio_st.more s5 = bio_st.more s" using r(7) by (auto simp: wrote_def bio_step_def)
  note m5 = log_more [OF b5(4)]
  have tl: "t + Suc n \<le> length (lh_block s)" using Suc.prems(3) by (simp add: trans_ok_def)
  have dist: "lh_block s ! k \<noteq> ?y" if "Suc t \<le> k" "k < Suc t + n" for k
    using Suc.prems(5) that tl nth_eq_iff_index_eq [of "take (t + Suc n) (lh_block s)" k t] by simp
  have rm: "room_for s5 (lh_block s5 ! k)" if "Suc t \<le> k \<and> k < Suc t + n" for k
  proof -
    have "room_for s (lh_block s ! k)" using Suc.prems(4) that by simp
    moreover have "dirty_blocks s5 = dirty_blocks s - {?y}" "idle_bufs s \<subseteq> idle_bufs s5" using r(7) by (auto simp: wrote_def bio_step_def)
    ultimately show ?thesis using dist [of k] that m5 unfolding room_for_def by auto
  qed
  have d5: "distinct (take (Suc t + n) (lh_block s5))" using Suc.prems(5) m5 by simp
  from Suc.IH [OF b5(1,2) trans_ok_step [OF Suc.prems(3) b5(3)] _ d5] rm obtain s' where
    s': "install_trans_from n (Suc t) s5 = Ok s'" "wrote pid (home_writes (Suc t) n s5) s5 s'" by blast
  have eq: "home_writes (Suc t) n s5 = home_writes (Suc t) n s"
  proof -
    have "bview s5 = (bview s)(?y := bview s ?x)" using r(7) by (simp add: wrote_def)
    moreover have "log_start s + k + 1 \<noteq> ?y" if "Suc t \<le> k" "k < Suc t + n" for k using Suc.prems(3) that by (auto simp: trans_ok_def)
    ultimately show ?thesis unfolding home_writes_def using m5 by (auto simp: fun_upd_def)
  qed
  have "home_writes t (Suc n) s = (?y, bview s ?x) # home_writes (Suc t) n s" by (simp add: home_writes_def upt_conv_Cons del: upt_Suc)
  then have "wrote pid (home_writes t (Suc n) s) s s'"
    using wrote_trans [OF r(7) s'(2)] unfolding eq by simp
  then show ?case using run s'(1) by auto
qed

section \<open>The header block\<close>

lemma modify_block:
  assumes inv: "bio_inv s" and env: "env_ok pid s" and fr: "block_free s b" and b: "b < disksize s" and ne: "idle_bufs s \<noteq> {}" and d: "length d = BSIZE"
  shows "\<exists>i s1 s3 s4. bread 1 b s = Ok (i, s1) \<and> b_data (bcache s1 ! i) = bview s b \<and> bio_st.more s1 = bio_st.more s \<and>
    bwrite i (bset i d s1) = Ok s3 \<and> brelse i s3 = Ok s4 \<and> wrote pid [(b, d)] s s4"
proof -
  from bread_spec [OF inv env fr b disjI1 [OF ne]] obtain i s1 where
    s1: "bread 1 b s = Ok (i, s1)" "b_data (bcache s1 ! i) = bview s b" "bio_frame s i s1" by blast
  from overwrite_block_spec [OF assms] obtain s4 where s4: "overwrite_block b d s = Ok s4" "bio_inv s4" "env_ok pid s4" "disk s4 = (disk s)(b := d)"
    "bview s4 = (bview s)(b := d)" "dtrace s4 = dtrace s @ [(b, d)]" "\<forall>c. block_free s c \<longrightarrow> block_free s4 c"
    "dirty_blocks s4 = dirty_blocks s - {b}" "idle_bufs s \<subseteq> idle_bufs s4" "disksize s4 = disksize s" "mem_same s s4" "bio_st.more s4 = bio_st.more s" by blast
  then have "wrote pid [(b, d)] s s4" by (simp add: wrote_def bio_step_def)
  moreover obtain s3 where "bwrite i (bset i d s1) = Ok s3" "brelse i s3 = Ok s4"
    using s4(1) s1(1) by (auto simp: overwrite_block_def rbind_Ok_iff)
  ultimately show ?thesis using s1 by (auto simp: bio_frame_def)
qed

text \<open>A block that encodes the log header with the block numbers \<open>bs\<close>.\<close>

definition encodes :: "block \<Rightarrow> nat list \<Rightarrow> bool" where
  "encodes d bs \<longleftrightarrow> length d = BSIZE \<and> get32 d 0 = of_nat (length bs) \<and> (\<forall>j<length bs. unat (get32 d (4 + 4 * j)) = bs ! j)"

lemma write_entries_spec:
  assumes "i + n \<le> length bs" and "4 + 4 * (i + n) \<le> length d"
  shows "\<exists>d'. write_entries n i bs d = Ok d' \<and> length d' = length d \<and> get32 d' 0 = get32 d 0 \<and>
    (\<forall>j. i \<le> j \<and> j < i + n \<longrightarrow> get32 d' (4 + 4 * j) = of_nat (bs ! j)) \<and> (\<forall>j<i. get32 d' (4 + 4 * j) = get32 d (4 + 4 * j))"
  using assms
proof (induction n arbitrary: i d)
  case 0
  then show ?case by auto
next
  case (Suc n)
  let ?d = "put32 (4 + 4 * i) (of_nat (bs ! i)) d"
  have len: "length ?d = length d" using Suc.prems by simp
  obtain d' where d': "write_entries n (Suc i) bs ?d = Ok d'" "length d' = length d" "get32 d' 0 = get32 ?d 0"
    "\<forall>j. Suc i \<le> j \<and> j < Suc i + n \<longrightarrow> get32 d' (4 + 4 * j) = of_nat (bs ! j)" "\<forall>j<Suc i. get32 d' (4 + 4 * j) = get32 ?d (4 + 4 * j)"
    using Suc.IH [of "Suc i" ?d] Suc.prems len by auto
  have "get32 ?d 0 = get32 d 0" using Suc.prems by (intro get32_put32_other) auto
  moreover have "get32 ?d (4 + 4 * j) = get32 d (4 + 4 * j)" if "j < i" for j using Suc.prems that by (intro get32_put32_other) auto
  moreover have "get32 ?d (4 + 4 * i) = of_nat (bs ! i)" using Suc.prems by simp
  ultimately have o: "get32 d' (4 + 4 * i) = of_nat (bs ! i)" "\<forall>j<i. get32 d' (4 + 4 * j) = get32 d (4 + 4 * j)" "get32 d' 0 = get32 d 0"
    using d'(3,5) by auto
  have "get32 d' (4 + 4 * j) = of_nat (bs ! j)" if "i \<le> j \<and> j < i + Suc n" for j
    using o(1) d'(4) that by (cases "j = i") auto
  then show ?case using d'(1,2) Suc.prems o(2,3) by auto
qed

lemma read_entries_spec:
  assumes "encodes d hs" and "i + n = length hs" and "length hs \<le> length bs" and "length hs \<le> 126"
  shows "\<exists>bs'. read_entries n i d bs = Ok bs' \<and> length bs' = length bs \<and> (\<forall>j. i \<le> j \<and> j < i + n \<longrightarrow> bs' ! j = hs ! j) \<and> (\<forall>j<i. bs' ! j = bs ! j)"
  using assms
proof (induction n arbitrary: i bs)
  case 0
  then show ?case by auto
next
  case (Suc n)
  let ?b = "bs[i := unat (get32 d (4 + 4 * i))]"
  have lt: "i < length bs" "4 + 4 * i + 4 \<le> length d" using Suc.prems by (auto simp: encodes_def BSIZE_def)
  obtain bs' where bs': "read_entries n (Suc i) d ?b = Ok bs'" "length bs' = length bs"
    "\<forall>j. Suc i \<le> j \<and> j < Suc i + n \<longrightarrow> bs' ! j = hs ! j" "\<forall>j<Suc i. bs' ! j = ?b ! j" using Suc.IH [of "Suc i" ?b] Suc.prems by auto
  have "?b ! i = hs ! i" using Suc.prems lt by (simp add: encodes_def)
  moreover have "bs' ! i = ?b ! i" "\<forall>j<i. bs' ! j = bs ! j" using bs'(4) by auto
  ultimately have o: "bs' ! i = hs ! i" "\<forall>j<i. bs' ! j = bs ! j" by auto
  have "bs' ! j = hs ! j" if "i \<le> j \<and> j < i + Suc n" for j using o(1) bs'(3) that by (cases "j = i") auto
  with bs'(1,2) lt o(2) show ?case by auto
qed

lemma write_head_run:
  assumes inv: "bio_inv s" and env: "env_ok pid s" and dev: "log_dev s = 1" and st: "block_free s (log_start s)" "log_start s < disksize s"
    and ne: "idle_bufs s \<noteq> {}" and n: "0 \<le> lh_n s" "nat (lh_n s) \<le> length (lh_block s)" "lh_n s \<le> 126"
    and bs: "\<forall>b\<in>set (take (nat (lh_n s)) (lh_block s)). b < 2 ^ 32"
  shows "\<exists>s' d. write_head s = Ok s' \<and> wrote pid [(log_start s, d)] s s' \<and> encodes d (take (nat (lh_n s)) (lh_block s))"
proof -
  let ?d0 = "put32 0 (of_int (lh_n s)) (bview s (log_start s))" and ?n = "nat (lh_n s)"
  have l: "length (bview s (log_start s)) = BSIZE" using length_bview [OF inv st(2)] .
  have "4 + 4 * (0 + ?n) \<le> length ?d0" using n l by (simp add: BSIZE_def)
  then obtain d where d: "write_entries ?n 0 (lh_block s) ?d0 = Ok d" "length d = BSIZE" "get32 d 0 = get32 ?d0 0"
    "\<forall>j<?n. get32 d (4 + 4 * j) = of_nat (lh_block s ! j)"
    using write_entries_spec [of 0 ?n "lh_block s" ?d0] n l by (auto simp: BSIZE_def)
  from modify_block [OF inv env st ne d(2)] obtain i s1 s3 s4 where
    r: "bread 1 (log_start s) s = Ok (i, s1)" "b_data (bcache s1 ! i) = bview s (log_start s)" "bio_st.more s1 = bio_st.more s"
      "bwrite i (bset i d s1) = Ok s3" "brelse i s3 = Ok s4" "wrote pid [(log_start s, d)] s s4" by blast
  note m1 = log_more [OF r(3)]
  have "write_head s = Ok s4" using r d(1) dev m1 by (simp add: write_head_def Let_def)
  moreover have "encodes d (take ?n (lh_block s))"
  proof -
    have "get32 ?d0 0 = of_nat ?n" using l n(1) by (simp add: BSIZE_def)
    moreover have "unat (get32 d (4 + 4 * j)) = lh_block s ! j" if "j < ?n" for j
    proof -
      have "lh_block s ! j \<in> set (take ?n (lh_block s))" using that n(2) by (metis in_set_conv_nth length_take min.absorb2 nth_take)
      then have "lh_block s ! j < 2 ^ 32" using bs by blast
      then show ?thesis using d(4) that by (simp add: unsigned_of_nat take_bit_nat_eq_self)
    qed
    ultimately show ?thesis using d n(2) by (simp add: encodes_def)
  qed
  ultimately show ?thesis using r(6) by blast
qed

section \<open>Commit and recovery\<close>

lemma bio_cong:
  assumes "bcache s' = bcache s" and "disk s' = disk s" and "disksize s' = disksize s"
  shows "bio_inv s' = bio_inv s" "bview s' = bview s" "idle_bufs s' = idle_bufs s" "dirty_blocks s' = dirty_blocks s" "block_free s' = block_free s"
    "holds_buf pid s' = holds_buf pid s"
proof -
  show "bio_inv s' = bio_inv s" "idle_bufs s' = idle_bufs s" "dirty_blocks s' = dirty_blocks s"
    by (simp_all add: bio_inv_def idle_bufs_def dirty_blocks_def assms)
  show "bview s' = bview s" by (rule ext) (simp add: bview_def assms split: option.splits)
  show "block_free s' = block_free s" by (rule ext) (simp add: block_free_def assms)
  show "holds_buf pid s' = holds_buf pid s" by (intro ext) (simp add: holds_buf_def assms)
qed

lemma bio_log_fields [simp]:
  "bio_inv (s\<lparr>lh_n := n\<rparr>) = bio_inv s" "bview (s\<lparr>lh_n := n\<rparr>) = bview s" "idle_bufs (s\<lparr>lh_n := n\<rparr>) = idle_bufs s"
  "dirty_blocks (s\<lparr>lh_n := n\<rparr>) = dirty_blocks s" "block_free (s\<lparr>lh_n := n\<rparr>) = block_free s" "env_ok pid (s\<lparr>lh_n := n\<rparr>) = env_ok pid s"
  "bio_inv (s\<lparr>lh_block := bs\<rparr>) = bio_inv s" "bview (s\<lparr>lh_block := bs\<rparr>) = bview s" "idle_bufs (s\<lparr>lh_block := bs\<rparr>) = idle_bufs s"
  "dirty_blocks (s\<lparr>lh_block := bs\<rparr>) = dirty_blocks s" "block_free (s\<lparr>lh_block := bs\<rparr>) = block_free s" "env_ok pid (s\<lparr>lh_block := bs\<rparr>) = env_ok pid s"
  "bio_inv (s\<lparr>log_outstanding := k\<rparr>) = bio_inv s" "bview (s\<lparr>log_outstanding := k\<rparr>) = bview s" "idle_bufs (s\<lparr>log_outstanding := k\<rparr>) = idle_bufs s"
  "dirty_blocks (s\<lparr>log_outstanding := k\<rparr>) = dirty_blocks s" "block_free (s\<lparr>log_outstanding := k\<rparr>) = block_free s" "env_ok pid (s\<lparr>log_outstanding := k\<rparr>) = env_ok pid s"
  "bio_inv (s\<lparr>log_committing := c\<rparr>) = bio_inv s" "bview (s\<lparr>log_committing := c\<rparr>) = bview s" "idle_bufs (s\<lparr>log_committing := c\<rparr>) = idle_bufs s"
  "dirty_blocks (s\<lparr>log_committing := c\<rparr>) = dirty_blocks s" "block_free (s\<lparr>log_committing := c\<rparr>) = block_free s" "env_ok pid (s\<lparr>log_committing := c\<rparr>) = env_ok pid s"
  by (rule bio_cong; simp | rule env_ok_upd iffI; simp add: env_ok_def curproc_def)+

lemma mem_same_log [simp]:
  "mem_same s (s'\<lparr>lh_n := n\<rparr>) = mem_same s s'" "mem_same s (s'\<lparr>lh_block := bs\<rparr>) = mem_same s s'"
  "mem_same s (s'\<lparr>log_outstanding := k\<rparr>) = mem_same s s'" "mem_same s (s'\<lparr>log_committing := c\<rparr>) = mem_same s s'"
  by (simp_all add: mem_same_def)

lemma apply_writes_other: "b \<notin> fst ` set ws \<Longrightarrow> apply_writes ws d b = d b"
  by (induction ws arbitrary: d) auto

lemma apply_writes_last: "apply_writes (ws @ [(b, v)]) d b = v"
  by simp

lemma apply_writes_distinct:
  "distinct (map fst ws) \<Longrightarrow> (b, v) \<in> set ws \<Longrightarrow> apply_writes ws d b = v"
proof (induction ws arbitrary: d)
  case (Cons w ws)
  obtain c u where w: "w = (c, u)" by (cases w)
  show ?case
  proof (cases "(b, v) \<in> set ws")
    case False
    then have "b = c" "v = u" using Cons.prems(2) w by auto
    moreover have "c \<notin> fst ` set ws" using Cons.prems(1) w by simp
    ultimately show ?thesis using w apply_writes_other [of c ws "d(c := u)"] by simp
  qed (use Cons w in simp)
qed simp

definition logged :: "'z log_st_scheme \<Rightarrow> nat list" where
  "logged s = take (nat (lh_n s)) (lh_block s)"

text \<open>A block outside the log area.\<close>

definition home :: "'z log_st_scheme \<Rightarrow> nat \<Rightarrow> bool" where
  "home s b \<longleftrightarrow> b < log_start s \<or> log_start s + nat (log_size s) \<le> b"

text \<open>The invariant of the log between operations: the dirty buffers are the logged blocks, which
  are distinct and outside the log, the log on disk is empty, and it has room for the entries.\<close>

definition log_inv :: "'z log_st_scheme \<Rightarrow> bool" where
  "log_inv s \<longleftrightarrow> bio_inv s \<and> log_dev s = 1 \<and> 0 \<le> lh_n s \<and> lh_n s \<le> LOGSIZE \<and> lh_n s \<le> log_size s - 1 \<and> length (lh_block s) = nat LOGSIZE \<and>
     log_start s + nat (log_size s) \<le> disksize s \<and> disksize s < 2 ^ 32 \<and> distinct (logged s) \<and> dirty_blocks s = set (logged s) \<and>
     (\<forall>b\<in>set (logged s). home s b \<and> b < disksize s) \<and> encodes (disk s (log_start s)) []"

lemma log_invD:
  assumes "log_inv s" and "\<forall>b. block_free s b"
  shows "bio_inv s" "trans_ok 0 (nat (lh_n s)) s" "length (logged s) = nat (lh_n s)" "lh_n s \<le> 30" "log_start s < disksize s"
    "\<forall>i. i < nat (lh_n s) \<longrightarrow> logged s ! i = lh_block s ! i" "\<forall>b\<in>set (logged s). b < 2 ^ 32"
    "\<And>i. i < nat (lh_n s) \<Longrightarrow> lh_block s ! i \<in> dirty_blocks s"
proof -
  have l: "length (logged s) = nat (lh_n s)" using assms(1) by (auto simp: log_inv_def logged_def LOGSIZE_def)
  have nt: "logged s ! i = lh_block s ! i" "lh_block s ! i \<in> set (logged s)" if "i < nat (lh_n s)" for i
  proof -
    show e: "logged s ! i = lh_block s ! i" using that by (simp add: logged_def)
    show "lh_block s ! i \<in> set (logged s)" using nth_mem [of i "logged s"] that l e by simp
  qed
  show "trans_ok 0 (nat (lh_n s)) s"
    using assms nt(2) unfolding trans_ok_def log_inv_def home_def by (auto simp: LOGSIZE_def)
  show "lh_block s ! i \<in> dirty_blocks s" if "i < nat (lh_n s)" for i using nt(2) [OF that] assms(1) by (simp add: log_inv_def)
  show "bio_inv s" "length (logged s) = nat (lh_n s)" "lh_n s \<le> 30" "log_start s < disksize s"
    "\<forall>i. i < nat (lh_n s) \<longrightarrow> logged s ! i = lh_block s ! i" "\<forall>b\<in>set (logged s). b < 2 ^ 32"
    using assms l nt unfolding log_inv_def LOGSIZE_def by (auto dest!: bspec)
qed

text \<open>The writes of a commit in their order.\<close>

definition commit_writes :: "block \<Rightarrow> block \<Rightarrow> 'z log_st_scheme \<Rightarrow> (nat \<times> block) list" where
  "commit_writes h h0 s = log_writes 0 (nat (lh_n s)) s @ [(log_start s, h)] @
     map (\<lambda>b. (b, bview s b)) (logged s) @ [(log_start s, h0)]"

lemma trans_ok_mono:
  assumes "trans_ok t n s" and "bio_step pid s s'"
  shows "trans_ok t n s'"
  using assms log_more [of s' s] by (auto simp: trans_ok_def bio_step_def)

lemma wroteD:
  assumes "wrote pid ws s s'"
  shows "bio_inv s'" "env_ok pid s'" "bio_step pid s s'" "bio_st.more s' = bio_st.more s" "disksize s' = disksize s"
    "idle_bufs s \<subseteq> idle_bufs s'" "\<And>c. block_free s c \<Longrightarrow> block_free s' c" "dirty_blocks s' = dirty_blocks s - fst ` set ws"
    "bview s' = apply_writes ws (bview s)" "disk s' = apply_writes ws (disk s)" "dtrace s' = dtrace s @ ws" "mem_same s s'"
  using assms by (auto simp: wrote_def bio_step_def)

lemma fst_log_writes: "fst ` set (log_writes t n s) = {log_start s + t + 1..<log_start s + t + n + 1}"
proof -
  have "fst ` set (log_writes t n s) = (\<lambda>i. log_start s + i + 1) ` {t..<t + n}" by (auto simp: log_writes_def image_iff)
  also have "\<dots> = (+) (log_start s + 1) ` {t..<t + n}" by (intro image_cong) auto
  also have "\<dots> = {log_start s + t + 1..<log_start s + t + n + 1}" unfolding image_add_atLeastLessThan by (simp add: algebra_simps)
  finally show ?thesis .
qed

lemma log_writes_at:
  assumes "i < n"
  shows "apply_writes (log_writes 0 n s) d (log_start s + i + 1) = bview s (lh_block s ! i)"
proof (rule apply_writes_distinct)
  show "distinct (map fst (log_writes 0 n s))" by (simp add: log_writes_def comp_def distinct_map inj_on_def)
  show "(log_start s + i + 1, bview s (lh_block s ! i)) \<in> set (log_writes 0 n s)" using assms by (auto simp: log_writes_def)
qed

lemma commit_run:
  assumes inv: "log_inv s" and env: "env_ok pid s" and fr: "\<forall>b. block_free s b" and ne: "idle_bufs s \<noteq> {}" and pos: "0 < lh_n s"
  shows "\<exists>s' h h0. commit s = Ok s' \<and> wrote pid (commit_writes h h0 s) (s\<lparr>lh_n := 0\<rparr>) s' \<and> encodes h (logged s) \<and> encodes h0 []"
proof -
  let ?n = "nat (lh_n s)"
  note l = log_invD [OF inv fr]
  have dev: "log_dev s = 1" and dist: "distinct (take ?n (lh_block s))" and lb: "length (lh_block s) = 30"
    using inv by (simp_all add: log_inv_def logged_def LOGSIZE_def)
  obtain k where k: "k \<in> idle_bufs s" using ne by blast
  have rm: "room_for s (lh_block s ! i)" if "i < ?n" for i using k l(8) [OF that] by (auto simp: room_for_def)
  from write_log_run [OF l(1) env l(2)] rm obtain s1 where s1: "write_log_from ?n 0 s = Ok s1" "wrote pid (log_writes 0 ?n s) s s1" by auto
  note w1 = wroteD [OF s1(2)] note m1 = log_more [OF w1(4)]
  have "\<exists>s' d. write_head s1 = Ok s' \<and> wrote pid [(log_start s1, d)] s1 s' \<and> encodes d (take (nat (lh_n s1)) (lh_block s1))"
  proof (rule write_head_run)
    show "block_free s1 (log_start s1)" using w1(7) fr by simp
    show "idle_bufs s1 \<noteq> {}" using k w1(6) by auto
    show "\<forall>b\<in>set (take (nat (lh_n s1)) (lh_block s1)). b < 2 ^ 32" using l(7) m1(6,7) by (simp add: logged_def)
  qed (use w1(1,2,5) m1 dev l(4,5) lb pos in auto)
  then obtain s2 h where s2: "write_head s1 = Ok s2" "wrote pid [(log_start s, h)] s1 s2" "encodes h (logged s)" using m1 by (auto simp: logged_def)
  note w2 = wroteD [OF s2(2)] note m2 = log_more [OF w2(4)]
  have t2: "trans_ok 0 ?n s2" by (rule trans_ok_mono [OF trans_ok_mono [OF l(2) w1(3)] w2(3)])
  have hm: "lh_block s ! i < log_start s \<or> log_start s + ?n < lh_block s ! i" if "i < ?n" for i
    using l(2) that by (auto simp: trans_ok_def)
  have rm2: "room_for s2 (lh_block s2 ! i)" if "i < ?n" for i
  proof -
    have "k \<in> idle_bufs s2" using k w1(6) w2(6) by blast
    moreover have "lh_block s ! i \<in> dirty_blocks s2"
      using l(8) [OF that] hm [OF that] w1(8) w2(8) by (auto simp: fst_log_writes)
    ultimately show ?thesis using m1 m2 by (auto simp: room_for_def)
  qed
  have "\<exists>s'. install_trans_from ?n 0 s2 = Ok s' \<and> wrote pid (home_writes 0 ?n s2) s2 s'"
    using w2(1,2) t2 rm2 dist m1 m2 by (intro install_run) auto
  then obtain s3 where s3: "install_trans_from ?n 0 s2 = Ok s3" "wrote pid (home_writes 0 ?n s2) s2 s3" by blast
  note w3 = wroteD [OF s3(2)] note m3 = log_more [OF w3(4)]
  have hw: "home_writes 0 ?n s2 = map (\<lambda>b. (b, bview s b)) (logged s)"
  proof (rule nth_equalityI)
    show "length (home_writes 0 ?n s2) = length (map (\<lambda>b. (b, bview s b)) (logged s))" using l(3) by (simp add: home_writes_def)
    fix i
    assume "i < length (home_writes 0 ?n s2)"
    then have i: "i < ?n" by (simp add: home_writes_def)
    have "bview s2 (log_start s + i + 1) = bview s (lh_block s ! i)"
      using w1(9) w2(9) log_writes_at [OF i, of s "bview s"] by simp
    then show "home_writes 0 ?n s2 ! i = map (\<lambda>b. (b, bview s b)) (logged s) ! i"
      using i l(3) l(6) [rule_format, OF i] m1(1,7) m2(1,7) by (simp add: home_writes_def)
  qed
  have "\<exists>s' d. write_head (s3\<lparr>lh_n := 0\<rparr>) = Ok s' \<and> wrote pid [(log_start (s3\<lparr>lh_n := 0\<rparr>), d)] (s3\<lparr>lh_n := 0\<rparr>) s' \<and>
      encodes d (take (nat (lh_n (s3\<lparr>lh_n := 0\<rparr>))) (lh_block (s3\<lparr>lh_n := 0\<rparr>)))"
  proof (rule write_head_run)
    show "block_free (s3\<lparr>lh_n := 0\<rparr>) (log_start (s3\<lparr>lh_n := 0\<rparr>))" using w1(7) w2(7) w3(7) fr by simp
    show "idle_bufs (s3\<lparr>lh_n := 0\<rparr>) \<noteq> {}" using k w1(6) w2(6) w3(6) by auto
  qed (use w3(1,2,5) w2(5) w1(5) m1(1,5) m2(1,5) m3(1,5) dev l(5) in simp_all)
  then obtain s4 h0 where s4: "write_head (s3\<lparr>lh_n := 0\<rparr>) = Ok s4" "wrote pid [(log_start s, h0)] (s3\<lparr>lh_n := 0\<rparr>) s4" "encodes h0 []"
    using m1 m2 m3 by auto
  have "commit s = Ok s4" using pos s1(1) s2(1) s3(1) s4(1) m1 m2 by (simp add: commit_def write_log_def install_trans_def)
  moreover have "wrote pid (log_writes 0 ?n s @ [(log_start s, h)] @ home_writes 0 ?n s2) (s\<lparr>lh_n := 0\<rparr>) (s3\<lparr>lh_n := 0\<rparr>)"
    using wrote_trans [OF s1(2) wrote_trans [OF s2(2) s3(2)]]
    by (simp add: wrote_def bio_step_def log_inv_def) (cases s; cases s3; simp add: mem_same_def)
  from wrote_trans [OF this s4(2)] have "wrote pid (commit_writes h h0 s) (s\<lparr>lh_n := 0\<rparr>) s4"
    by (simp add: commit_writes_def hw)
  ultimately show ?thesis using s2(3) s4(3) by blast
qed

lemma sint_small: "n \<le> 30 \<Longrightarrow> sint (of_nat n :: uint) = int n"
  by (simp add: signed_of_nat signed_take_bit_int_eq_self)

lemma read_head_run:
  assumes inv: "bio_inv s" and env: "env_ok pid s" and dev: "log_dev s = 1" and st: "block_free s (log_start s)" "log_start s < disksize s"
    and ne: "idle_bufs s \<noteq> {}" and h: "encodes (bview s (log_start s)) hs" "length hs \<le> 30" and lb: "length (lh_block s) = 30"
  shows "\<exists>s' bs. read_head s = Ok s' \<and> wrote pid [] (s\<lparr>lh_n := int (length hs), lh_block := bs\<rparr>) s' \<and> length bs = 30 \<and> take (length hs) bs = hs"
proof -
  from bread_spec [OF inv env st disjI1 [OF ne]] obtain i s1 where
    s1: "bread 1 (log_start s) s = Ok (i, s1)" "bio_inv s1" "env_ok pid s1" "bio_frame s i s1" "holds_buf pid s1 i (log_start s)"
    "\<not> sl_locked (b_lock (bcache s ! i))" "b_data (bcache s1 ! i) = bview s (log_start s)" "bview s1 = bview s" "disk s1 = disk s" "dtrace s1 = dtrace s"
    "settled s1 i (log_start s)" "dirty_blocks s1 = dirty_blocks s" "idle_bufs s1 = idle_bufs s - {i}" "b_dirty (bcache s1 ! i) \<longleftrightarrow> log_start s \<in> dirty_blocks s"
    "i \<in> idle_bufs s \<longleftrightarrow> b_refcnt (bcache s1 ! i) = 1 \<and> log_start s \<notin> dirty_blocks s" unfolding settled_def by metis
  have m1: "bio_st.more s1 = bio_st.more s" using s1(4) by (simp add: bio_frame_def)
  note f1 = log_more [OF m1]
  let ?d = "bview s (log_start s)"
  obtain bs where bs: "read_entries (length hs) 0 ?d (lh_block s) = Ok bs" "length bs = 30" "\<forall>j<length hs. bs ! j = hs ! j"
    using read_entries_spec [OF h(1), of 0 "length hs" "lh_block s"] h(2) lb by auto
  have n: "sint (get32 ?d 0) = int (length hs)" using h sint_small by (simp add: encodes_def)
  define s2 where "s2 = s1\<lparr>lh_n := int (length hs), lh_block := bs\<rparr>"
  have c2: "bcache s2 = bcache s1" "disk s2 = disk s1" "disksize s2 = disksize s1" by (simp_all add: s2_def)
  note e2 = bio_cong [OF c2]
  have "env_ok pid s2" using s1(3) by (simp add: s2_def)
  from brelse_spec [OF _ this] obtain s3 where
    s3: "brelse i s2 = Ok s3" "bio_inv s3" "env_ok pid s3" "bio_frame s2 i s3" "disk s3 = disk s2" "dtrace s3 = dtrace s2" "bview s3 = bview s2"
    "dirty_blocks s3 = dirty_blocks s2"
    "idle_bufs s3 = (if b_dirty (bcache s2 ! i) \<or> b_refcnt (bcache s2 ! i) \<noteq> 1 then idle_bufs s2 else insert i (idle_bufs s2))"
    "\<not> sl_locked (b_lock (bcache s3 ! i))"
    using s1(2,5,11) unfolding settled_def by (metis c2 e2(1) e2(6))
  have run: "read_head s = Ok s3" using s1(1,7) dev f1 bs(1) n s3(1) by (simp add: read_head_def Let_def s2_def)
  let ?t = "s\<lparr>lh_n := int (length hs), lh_block := bs\<rparr>"
  have "bio_st.more s3 = bio_st.more ?t"
    using s3(4) m1 by (simp add: bio_frame_def s2_def) (cases s; cases s1; simp)
  moreover have "\<forall>k<NBUF. k \<noteq> i \<longrightarrow> k \<noteq> i \<longrightarrow> bcore (bcache s3 ! k) = bcore (bcache s ! k)"
    using s3(4) s1(4) c2(1) by (simp add: bio_frame_def)
  then have "\<forall>b. block_free s b \<longrightarrow> block_free s3 b" using unlocked_free [of i i s3 s] s3(10) by blast
  moreover have "idle_bufs s \<subseteq> idle_bufs s3" using s3(9) s1(13-15) c2(1) e2(3) by auto
  moreover have "mem_same s s3" "disksize s3 = disksize s" using s3(4) s1(4) c2(3) by (auto simp: bio_frame_def s2_def mem_same_def)
  ultimately have "wrote pid [] ?t s3"
    using s1(8,9,10,12) s3(2,3,5-8) e2 by (simp add: wrote_def bio_step_def s2_def) (simp add: mem_same_def)
  moreover have "take (length hs) bs = hs" using bs(2,3) h(2) by (intro nth_equalityI) auto
  ultimately show ?thesis using run bs(2) by blast
qed

lemma recover_run:
  assumes inv: "bio_inv s" and env: "env_ok pid s" and dev: "log_dev s = 1" and fr: "\<forall>b. block_free s b" and lb: "length (lh_block s) = 30"
    and h: "encodes (bview s (log_start s)) hs" "length hs \<le> 30" and st: "log_start s + length hs < disksize s"
    and hs: "distinct hs" "\<forall>b\<in>set hs. b < disksize s \<and> (b < log_start s \<or> log_start s + length hs < b)" "disksize s < 2 ^ 32"
    and ne: "k \<in> idle_bufs s" "l \<in> idle_bufs s" "k \<noteq> l"
  shows "\<exists>s' h0. recover_from_log s = Ok s' \<and> encodes h0 [] \<and> lh_n s' = 0 \<and> bio_inv s' \<and> env_ok pid s' \<and>
    disk s' = apply_writes (map (\<lambda>i. (hs ! i, bview s (log_start s + i + 1))) [0..<length hs] @ [(log_start s, h0)]) (disk s) \<and>
    bview s' = apply_writes (map (\<lambda>i. (hs ! i, bview s (log_start s + i + 1))) [0..<length hs] @ [(log_start s, h0)]) (bview s)"
proof -
  from read_head_run [OF inv env dev _ _ _ h lb] obtain s1 bs where
    s1: "read_head s = Ok s1" "wrote pid [] (s\<lparr>lh_n := int (length hs), lh_block := bs\<rparr>) s1" "length bs = 30" "take (length hs) bs = hs"
    using fr st ne(1) by auto
  note w1 = wroteD [OF s1(2)] note m1 = log_more [OF w1(4)]
  have e: "bs ! i = hs ! i" if "i < length hs" for i using arg_cong [OF s1(4), of "\<lambda>x. x ! i"] that by simp
  have t1: "trans_ok 0 (length hs) s1"
    unfolding trans_ok_def using m1 w1(5,7) fr dev s1(3) h(2) st hs(2) e by (auto simp: all_set_conv_all_nth)
  have rm: "room_for s1 b" for b using ne w1(6) by (auto simp: room_for_def)
  have "\<exists>s'. install_trans_from (length hs) 0 s1 = Ok s' \<and> wrote pid (home_writes 0 (length hs) s1) s1 s'"
    using w1(1,2) t1 rm s1(4) hs(1) m1 by (intro install_run) auto
  then obtain s2 where s2: "install_trans_from (length hs) 0 s1 = Ok s2" "wrote pid (home_writes 0 (length hs) s1) s1 s2" by blast
  note w2 = wroteD [OF s2(2)] note m2 = log_more [OF w2(4)]
  let ?s2 = "s2\<lparr>lh_n := 0\<rparr>"
  have "\<exists>s' d. write_head ?s2 = Ok s' \<and> wrote pid [(log_start ?s2, d)] ?s2 s' \<and> encodes d (take (nat (lh_n ?s2)) (lh_block ?s2))"
  proof (rule write_head_run)
    show "block_free ?s2 (log_start ?s2)" using w1(7) w2(7) fr by simp
    show "idle_bufs ?s2 \<noteq> {}" using ne(1) w1(6) w2(6) by auto
  qed (use w2(1,2,5) w1(5) m1(1,5) m2(1,5) dev st in simp_all)
  then obtain s3 h0 where s3: "write_head ?s2 = Ok s3" "wrote pid [(log_start s, h0)] ?s2 s3" "encodes h0 []"
    using m1 m2 by auto
  note w3 = wroteD [OF s3(2)] note m3 = log_more [OF w3(4)]
  have run: "recover_from_log s = Ok s3" using s1(1) s2(1) s3(1) m1 by (simp add: recover_from_log_def install_trans_def)
  have hw: "home_writes 0 (length hs) s1 = map (\<lambda>i. (hs ! i, bview s (log_start s + i + 1))) [0..<length hs]"
    using m1 w1(9) e by (simp add: home_writes_def)
  show ?thesis
    using run s3(3) w3(1,2,9,10) w2(9,10) w1(9,10) m3(6) hw by (intro exI [of _ s3] exI [of _ h0]) simp
qed

section \<open>Crashes\<close>

text \<open>The contents a transaction gives to the blocks outside the log.\<close>

definition committed :: "'z log_st_scheme \<Rightarrow> nat \<Rightarrow> block" where
  "committed s b = (if b \<in> set (logged s) then bview s b else disk s b)"

lemma home_keys:
  assumes "log_inv s" and "b \<in> set (logged s)"
  shows "b \<noteq> log_start s" "b \<notin> fst ` set (log_writes 0 (nat (lh_n s)) s)"
proof -
  have "home s b" "lh_n s \<le> log_size s - 1" "0 \<le> lh_n s" using assms by (auto simp: log_inv_def)
  then show "b \<noteq> log_start s" "b \<notin> fst ` set (log_writes 0 (nat (lh_n s)) s)" by (auto simp: home_def fst_log_writes)
qed

lemma home_not_log:
  assumes "log_inv s" and "home s b"
  shows "b \<noteq> log_start s" "b \<notin> fst ` set (log_writes 0 (nat (lh_n s)) s)"
proof -
  have "lh_n s \<le> log_size s - 1" "0 \<le> lh_n s" using assms by (auto simp: log_inv_def)
  then show "b \<noteq> log_start s" "b \<notin> fst ` set (log_writes 0 (nat (lh_n s)) s)" using assms(2) by (auto simp: home_def fst_log_writes)
qed

lemma commit_home:
  assumes inv: "log_inv s" and b: "home s b"
  shows "apply_writes (commit_writes h h0 s) d b = (if b \<in> set (logged s) then bview s b else d b)"
proof -
  let ?L = "log_writes 0 (nat (lh_n s)) s" and ?H = "map (\<lambda>b. (b, bview s b)) (logged s)"
  have hd: "distinct (map fst ?H)" using inv by (simp add: log_inv_def comp_def)
  have nb: "b \<noteq> log_start s" "b \<notin> fst ` set ?L" using home_not_log [OF inv b] by auto
  have dd: "apply_writes (commit_writes h h0 s) d = (apply_writes ?H ((apply_writes ?L d)(log_start s := h)))(log_start s := h0)"
    by (simp add: commit_writes_def)
  show ?thesis
  proof (cases "b \<in> set (logged s)")
    case True
    then have "(b, bview s b) \<in> set ?H" by auto
    from apply_writes_distinct [OF hd this] show ?thesis using True nb by (simp add: dd)
  next
    case False
    then have "b \<notin> fst ` set ?H" by auto
    from apply_writes_other [OF this] show ?thesis using False nb by (simp add: dd apply_writes_other)
  qed
qed

text \<open>The disk after the first \<open>k\<close> writes of a commit: before the header is written, between the
  two header writes, or after the second.\<close>

lemma crash_cases:
  assumes inv: "log_inv s" and h: "encodes h (logged s)" "encodes h0 []"
    and d: "d = apply_writes (take k (commit_writes h h0 s)) (disk s)"
  shows "(encodes (d (log_start s)) [] \<and> (\<forall>b. home s b \<longrightarrow> d b = disk s b)) \<or>
    (encodes (d (log_start s)) (logged s) \<and> (\<forall>i<length (logged s). d (log_start s + i + 1) = bview s (logged s ! i)) \<and>
      (\<forall>b. home s b \<longrightarrow> b \<notin> set (logged s) \<longrightarrow> d b = disk s b)) \<or>
    (encodes (d (log_start s)) [] \<and> (\<forall>b. home s b \<longrightarrow> d b = committed s b))"
proof -
  let ?n = "nat (lh_n s)" and ?L = "log_writes 0 (nat (lh_n s)) s" and ?H = "map (\<lambda>b. (b, bview s b)) (logged s)"
  have ln: "length (logged s) = ?n" "length ?L = ?n" "\<And>i. i < ?n \<Longrightarrow> lh_block s ! i = logged s ! i"
    using inv by (auto simp: log_inv_def logged_def log_writes_def LOGSIZE_def)
  have keysH: "fst ` set (take j ?H) \<subseteq> set (logged s)" for j by (auto dest: in_set_takeD)
  consider "k \<le> ?n" | "?n < k" "k \<le> 2 * ?n + 1" | "2 * ?n + 1 < k" by linarith
  then show ?thesis
  proof cases
    case 1
    then have tk: "take k (commit_writes h h0 s) = take k ?L" by (simp add: commit_writes_def ln)
    have "fst ` set (take k ?L) \<subseteq> fst ` set ?L" by (auto dest: in_set_takeD)
    then have "d b = disk s b" if "b \<notin> fst ` set ?L" for b using that unfolding d tk by (intro apply_writes_other) blast
    moreover have "log_start s \<notin> fst ` set ?L" by (simp add: fst_log_writes)
    ultimately show ?thesis using inv home_not_log [OF inv] by (auto simp: log_inv_def)
  next
    case 2
    then have tk: "take k (commit_writes h h0 s) = ?L @ [(log_start s, h)] @ take (k - ?n - 1) ?H"
      by (simp add: commit_writes_def ln take_Cons')
    have dd: "d = apply_writes (take (k - ?n - 1) ?H) ((apply_writes ?L (disk s))(log_start s := h))" unfolding d tk by simp
    have other: "d b = ((apply_writes ?L (disk s))(log_start s := h)) b" if "b \<notin> set (logged s)" for b
      unfolding dd using keysH that by (intro apply_writes_other) blast
    have "d (log_start s) = h" using other [of "log_start s"] home_keys(1) [OF inv] by auto
    moreover have "d (log_start s + i + 1) = bview s (logged s ! i)" if "i < length (logged s)" for i
    proof -
      have "log_start s + i + 1 \<in> fst ` set ?L" using that ln(1) by (simp add: fst_log_writes)
      then have "log_start s + i + 1 \<notin> set (logged s)" using home_keys(2) [OF inv] by blast
      then show ?thesis using other log_writes_at [of i ?n s "disk s"] that ln by simp
    qed
    moreover have "d b = disk s b" if "home s b" "b \<notin> set (logged s)" for b
      using other [OF that(2)] home_not_log [OF inv that(1)] by (simp add: apply_writes_other)
    ultimately show ?thesis using h(1) by auto
  next
    case 3
    then have tk: "take k (commit_writes h h0 s) = commit_writes h h0 s" by (simp add: commit_writes_def ln)
    have "d b = committed s b" if "home s b" for b
      unfolding d tk using commit_home [OF inv that] by (simp add: committed_def)
    moreover have "d (log_start s) = h0" unfolding d tk by (simp add: commit_writes_def)
    ultimately show ?thesis using h(2) by simp
  qed
qed

text \<open>A machine that has booted on a disk: an empty buffer cache, and the log parameters of the
  super block.\<close>

definition rebooted :: "int \<Rightarrow> (nat \<Rightarrow> block) \<Rightarrow> 'z log_st_scheme \<Rightarrow> 'y log_st_scheme \<Rightarrow> bool" where
  "rebooted pid d s r \<longleftrightarrow> bio_inv r \<and> env_ok pid r \<and> idle_bufs r = {..<NBUF} \<and> bview r = d \<and> disk r = d \<and> disksize r = disksize s \<and>
     (\<forall>b. block_free r b) \<and> log_dev r = 1 \<and> log_start r = log_start s \<and> log_size r = log_size s \<and> length (lh_block r) = nat LOGSIZE"

lemma recover_after:
  assumes inv: "log_inv s" and r: "rebooted pid d s r" and h: "encodes (d (log_start s)) hs" and hs: "hs = [] \<or> hs = logged s"
  shows "\<exists>r'. recover_from_log r = Ok r' \<and> bio_inv r' \<and> lh_n r' = 0 \<and> encodes (disk r' (log_start s)) [] \<and>
    (\<forall>b. home s b \<longrightarrow> disk r' b = bview r' b \<and> (if b \<in> set hs then \<exists>i<length hs. hs ! i = b \<and> disk r' b = d (log_start s + i + 1) else disk r' b = d b))"
proof -
  have ln: "length hs \<le> nat (lh_n s)" "0 \<le> lh_n s" "lh_n s \<le> 30" "log_start s + nat (lh_n s) < disksize s" "disksize s < 2 ^ 32" "distinct hs"
    using hs inv by (auto simp: log_inv_def logged_def LOGSIZE_def)
  have hb: "\<forall>b\<in>set hs. b < disksize s \<and> (b < log_start s \<or> log_start s + length hs < b)"
  proof
    fix b
    assume "b \<in> set hs"
    then have "b \<in> set (logged s)" using hs by auto
    then have "home s b" "b < disksize s" "lh_n s \<le> log_size s - 1" using inv by (auto simp: log_inv_def)
    then show "b < disksize s \<and> (b < log_start s \<or> log_start s + length hs < b)" using ln(1,2) unfolding home_def by linarith
  qed
  have bounds: "length hs \<le> 30" "log_start s + length hs < disksize s" using ln by linarith+
  have two: "0 \<in> idle_bufs r" "1 \<in> idle_bufs r" "(0::nat) \<noteq> 1" using r by (simp_all add: rebooted_def NBUF_def)
  let ?W = "map (\<lambda>i. (hs ! i, bview r (log_start r + i + 1))) [0..<length hs]"
  have "\<exists>s' h0. recover_from_log r = Ok s' \<and> encodes h0 [] \<and> lh_n s' = 0 \<and> bio_inv s' \<and> env_ok pid s' \<and>
    disk s' = apply_writes (?W @ [(log_start r, h0)]) (disk r) \<and> bview s' = apply_writes (?W @ [(log_start r, h0)]) (bview r)"
    by (rule recover_run [OF _ _ _ _ _ _ _ _ _ _ _ two]) (use r h ln(5,6) hb bounds in \<open>auto simp: rebooted_def LOGSIZE_def\<close>)
  then obtain r' h0 where r': "recover_from_log r = Ok r'" "encodes h0 []" "lh_n r' = 0" "bio_inv r'"
    "disk r' = apply_writes (?W @ [(log_start s, h0)]) d" "bview r' = disk r'" using r by (auto simp: rebooted_def)
  have v: "bview r = d" "log_start r = log_start s" using r by (auto simp: rebooted_def)
  have mf: "map fst ?W = hs" by (simp add: comp_def map_nth)
  have keys: "fst ` set ?W = set hs" by (metis mf set_map)
  have dist: "distinct (map fst ?W)" using ln(6) mf by simp
  have val: "if b \<in> set hs then \<exists>i<length hs. hs ! i = b \<and> disk r' b = d (log_start s + i + 1) else disk r' b = d b" if "home s b" for b
  proof -
    have nb: "b \<noteq> log_start s" using home_not_log(1) [OF inv that] .
    show ?thesis
    proof (cases "b \<in> set hs")
      case True
      then obtain i where i: "i < length hs" "hs ! i = b" by (auto simp: in_set_conv_nth)
      then have "(b, bview r (log_start r + i + 1)) \<in> set ?W" by auto
      from apply_writes_distinct [OF dist this, of d] show ?thesis using True i nb v by (auto simp: r'(5))
    next
      case False
      then show ?thesis using apply_writes_other [of b ?W d] keys nb by (simp add: r'(5))
    qed
  qed
  have e: "encodes (disk r' (log_start s)) []" using r'(2) by (simp add: r'(5))
  show ?thesis by (rule exI [of _ r'], intro conjI allI impI) (fact r'(1) r'(3) r'(4) e | erule val | simp only: r'(6))+
qed

section \<open>log\_write\<close>

definition absorb :: "nat \<Rightarrow> nat list \<Rightarrow> nat list" where
  "absorb b bs = (if b \<in> set bs then bs else bs @ [b])"

lemma mach_outermost_log [simp]:
  "lh_n_update f0 (mach_update g s) = mach_update g (lh_n_update f0 s)"
  "lh_block_update f1 (mach_update g s) = mach_update g (lh_block_update f1 s)"
  "log_outstanding_update f2 (mach_update g s) = mach_update g (log_outstanding_update f2 s)"
  "log_committing_update f3 (mach_update g s) = mach_update g (log_committing_update f3 s)"
  by simp_all

lemma log_sync [simp]:
  "log_start (sync s) = log_start s" "log_size (sync s) = log_size s" "log_outstanding (sync s) = log_outstanding s"
  "log_committing (sync s) = log_committing s" "log_dev (sync s) = log_dev s" "lh_n (sync s) = lh_n s" "lh_block (sync s) = lh_block s"
  "log_start (rouse c s) = log_start s" "log_size (rouse c s) = log_size s" "log_outstanding (rouse c s) = log_outstanding s"
  "log_committing (rouse c s) = log_committing s" "log_dev (rouse c s) = log_dev s" "lh_n (rouse c s) = lh_n s" "lh_block (rouse c s) = lh_block s"
  "log_st.more (sync s) = log_st.more s" "log_st.more (rouse c s) = log_st.more s"
  by (simp_all add: sync_def rouse_def)

lemma log_upd_buf [simp]:
  "log_start (upd_buf i f s) = log_start s" "log_size (upd_buf i f s) = log_size s" "log_outstanding (upd_buf i f s) = log_outstanding s"
  "log_committing (upd_buf i f s) = log_committing s" "log_dev (upd_buf i f s) = log_dev s" "lh_n (upd_buf i f s) = lh_n s" "lh_block (upd_buf i f s) = lh_block s"
  "log_st.more (upd_buf i f s) = log_st.more s"
  by (simp_all add: upd_buf_def)

text \<open>The header array after \<open>log_write\<close> of block \<open>b\<close>.\<close>

definition absorbed :: "nat \<Rightarrow> 'z log_st_scheme \<Rightarrow> 'z log_st_scheme" where
  "absorbed b s = (let n = nat (lh_n s); i = (case first_index (\<lambda>x. x = b) (logged s) of Some i \<Rightarrow> i | None \<Rightarrow> n) in
     s\<lparr>lh_block := (lh_block s)[i := b], lh_n := (if i = n then lh_n s + 1 else lh_n s)\<rparr>)"

lemma log_write_run:
  assumes env: "env_ok pid s" and n: "lh_n s < LOGSIZE" "lh_n s < log_size s - 1" "1 \<le> log_outstanding s"
  shows "log_write i s = Ok (upd_buf i (\<lambda>x. x\<lparr>b_dirty := True\<rparr>) (absorbed (b_blockno (bcache s ! i)) (sync s)))"
proof -
  let ?s = "s\<lparr>mach := acq LogLock (mach s)\<rparr>"
  have g: "\<not> (lh_n s \<ge> LOGSIZE \<or> lh_n s \<ge> log_size s - 1)" "\<not> log_outstanding s < 1" using n by auto
  have kr: "krelease LogLock s' = Ok (s'\<lparr>mach := settle (mach s)\<rparr>)" if "mach s' = acq LogLock (mach s)" for s' :: "'a log_st_scheme"
    using krelease_eq [OF env that] .
  show ?thesis
    unfolding log_write_def if_not_P [OF g(1)] if_not_P [OF g(2)] kacquire_eq [OF env]
    by (cases "first_index (\<lambda>x. x = b_blockno (bcache s ! i)) (take (nat (lh_n s)) (lh_block s))")
      (simp_all add: kr Let_def absorbed_def logged_def upd_buf_def sync_def)
qed

lemma logged_absorbed:
  assumes "0 \<le> lh_n s" and "nat (lh_n s) < length (lh_block s)"
  shows "logged (absorbed b s) = absorb b (logged s)" and "length (lh_block (absorbed b s)) = length (lh_block s)"
    and "lh_n (absorbed b s) = lh_n s + (if b \<in> set (logged s) then 0 else 1)"
proof -
  let ?n = "nat (lh_n s)"
  have ll: "length (logged s) = ?n" using assms(2) by (simp add: logged_def)
  show "length (lh_block (absorbed b s)) = length (lh_block s)" by (simp add: absorbed_def Let_def)
  have "logged (absorbed b s) = absorb b (logged s) \<and> lh_n (absorbed b s) = lh_n s + (if b \<in> set (logged s) then 0 else 1)"
  proof (cases "first_index (\<lambda>x. x = b) (logged s)")
    case None
    then have nb: "b \<notin> set (logged s)" by (auto simp: first_index_None_iff)
    have "nat (lh_n s + 1) = Suc ?n" using assms(1) by simp
    then show ?thesis using None nb assms(2) by (simp add: absorbed_def logged_def absorb_def take_Suc_conv_app_nth)
  next
    case (Some i)
    note i = first_index_SomeD [OF Some]
    have "lh_block s ! i = b" "i < ?n" using i ll by (auto simp: logged_def)
    moreover then have "(lh_block s)[i := b] = lh_block s" by (simp add: list_update_same_conv [OF less_trans [OF _ assms(2)]])
    moreover have "b \<in> set (logged s)" using i nth_mem by blast
    ultimately show ?thesis using Some by (simp add: absorbed_def logged_def absorb_def)
  qed
  then show "logged (absorbed b s) = absorb b (logged s)" "lh_n (absorbed b s) = lh_n s + (if b \<in> set (logged s) then 0 else 1)" by auto
qed

lemma absorbed_fields [simp]:
  "bcache (absorbed b s) = bcache s" "disk (absorbed b s) = disk s" "disksize (absorbed b s) = disksize s" "dtrace (absorbed b s) = dtrace s"
  "log_start (absorbed b s) = log_start s" "log_size (absorbed b s) = log_size s" "log_dev (absorbed b s) = log_dev s"
  "log_outstanding (absorbed b s) = log_outstanding s" "log_committing (absorbed b s) = log_committing s" "log_st.more (absorbed b s) = log_st.more s"
  "env_ok pid (absorbed b s) = env_ok pid s" "mem_same t (absorbed b s) = mem_same t s"
  by (simp_all add: absorbed_def Let_def)

lemma log_write_spec:
  assumes inv: "log_inv s" and env: "env_ok pid s" and h: "holds_buf pid s i b" and hm: "home s b"
    and n: "lh_n s < LOGSIZE" "lh_n s < log_size s - 1" "1 \<le> log_outstanding s"
  shows "\<exists>s'. log_write i s = Ok s' \<and> log_inv s' \<and> env_ok pid s' \<and> holds_buf pid s' i b \<and> logged s' = absorb b (logged s) \<and>
    bview s' = bview s \<and> disk s' = disk s \<and> dtrace s' = dtrace s \<and> idle_bufs s' = idle_bufs s \<and> disksize s' = disksize s \<and> mem_same s s' \<and>
    lh_n s' = lh_n s + (if b \<in> set (logged s) then 0 else 1) \<and> b_dirty (bcache s' ! i) \<and> b_data (bcache s' ! i) = b_data (bcache s ! i) \<and>
    b_refcnt (bcache s' ! i) = b_refcnt (bcache s ! i) \<and>
    (\<forall>k<NBUF. k \<noteq> i \<longrightarrow> bcore (bcache s' ! k) = bcore (bcache s ! k)) \<and> log_start s' = log_start s \<and> log_size s' = log_size s \<and>
    log_outstanding s' = log_outstanding s \<and> log_committing s' = log_committing s \<and> log_st.more s' = log_st.more s"
proof -
  let ?s1 = "absorbed b (sync s)"
  define s' where "s' = upd_buf i (\<lambda>x. x\<lparr>b_dirty := True\<rparr>) ?s1"
  have bi: "bio_inv s" and lb: "0 \<le> lh_n s" "nat (lh_n s) < length (lh_block s)" "log_start s + nat (log_size s) \<le> disksize s"
    using inv n(1) by (auto simp: log_inv_def)
  have hb: "i < NBUF" "b_blockno (bcache s ! i) = b" "b_valid (bcache s ! i)" "b_dev (bcache s ! i) = 1" using h by (auto simp: holds_buf_def)
  have len: "length (bcache s) = Suc NBUF" using bi by (rule bio_invD)
  note ok = holds_ok [OF bi h]
  have run: "log_write i s = Ok s'" using log_write_run [OF env n, of i] hb by (simp add: s'_def)
  have c1: "bcache ?s1 = bcache s" "disk ?s1 = disk s" "disksize ?s1 = disksize s" by simp_all
  note e1 = bio_cong [OF c1]
  let ?x = "(bcache s ! i)\<lparr>b_dirty := True\<rparr>"
  have bok: "buf_ok (disk s') (disksize ?s1) ?x" using ok hb by (auto simp: buf_ok_def s'_def)
  have h1: "holds_buf pid ?s1 i b" "bio_inv ?s1" using h bi e1 by auto
  note u = held_upd [OF h1(2,1), where s' = s' and x = ?x, OF _ _ _ _ bok]
  have bi': "bio_inv s'" using u(1) hb by (simp add: s'_def)
  have v': "bview s' = bview s" using u(2) hb e1(2) bview_cached [OF bi hb(1,3)] by (simp add: s'_def fun_upd_idem_iff)
  have d': "dirty_blocks s' = insert b (dirty_blocks s)" using u(3) hb e1(4) by (simp add: s'_def)
  have i': "idle_bufs s' = idle_bufs s" using u(4) hb e1(3) ok by (simp add: s'_def)
  have lg: "logged (sync s) = logged s" by (simp add: logged_def)
  have a: "logged s' = absorb b (logged s)" "length (lh_block s') = length (lh_block s)" "lh_n s' = lh_n s + (if b \<in> set (logged s) then 0 else 1)"
    using logged_absorbed [of "sync s" b] lb lg by (simp_all add: s'_def) (simp add: logged_def)
  have "log_inv s'"
  proof -
    have f: "log_start s' = log_start s" "log_size s' = log_size s" "log_dev s' = log_dev s" "disk s' = disk s" "disksize s' = disksize s" by (simp_all add: s'_def)
    have "set (logged s') = insert b (set (logged s))" "distinct (logged s')" using a(1) inv by (auto simp: absorb_def log_inv_def)
    moreover have "home s' c = home s c" for c by (simp add: home_def f)
    ultimately show ?thesis
      using inv bi' a d' hm ok n unfolding log_inv_def f by auto
  qed
  then show ?thesis
    using run bi' v' i' a hb len h env by (intro exI [of _ s']) (auto simp: s'_def holds_buf_def)
qed

text \<open>Modify a block under the log: \<^verbatim>\<open>bread\<close>, change the data, \<^verbatim>\<open>log_write\<close>, \<^verbatim>\<open>brelse\<close>.\<close>

definition log_block :: "nat \<Rightarrow> (block \<Rightarrow> block) \<Rightarrow> 'z log_st_scheme \<Rightarrow> 'z log_st_scheme res" where
  "log_block b f s =
     rbind (bread 1 b s) (\<lambda>(i, s).
     rbind (log_write i (bset i (f (b_data (bcache s ! i))) s)) (\<lambda>s.
     brelse i s))"

lemma log_inv_frame:
  assumes "log_inv s" and "bio_inv s'" and "bio_st.more s' = bio_st.more s" and "disksize s' = disksize s"
    and "dirty_blocks s' = dirty_blocks s" and "disk s' = disk s"
  shows "log_inv s'"
proof -
  note m = log_more [OF assms(3)]
  have "logged s' = logged s" "\<And>b. home s' b = home s b" by (simp_all add: logged_def home_def m)
  then show ?thesis using assms unfolding log_inv_def m by simp
qed

lemma log_block_spec:
  assumes inv: "log_inv s" and env: "env_ok pid s" and fr: "block_free s b" and b: "b < disksize s" "home s b" and ne: "idle_bufs s \<noteq> {}"
    and n: "lh_n s < LOGSIZE" "lh_n s < log_size s - 1" "1 \<le> log_outstanding s" and f: "length (f (bview s b)) = BSIZE"
  shows "\<exists>s'. log_block b f s = Ok s' \<and> log_inv s' \<and> env_ok pid s' \<and> bview s' = (bview s)(b := f (bview s b)) \<and> disk s' = disk s \<and>
    logged s' = absorb b (logged s) \<and> lh_n s' = lh_n s + (if b \<in> set (logged s) then 0 else 1) \<and> (\<forall>c. block_free s c \<longrightarrow> block_free s' c) \<and>
    card (idle_bufs s) \<le> card (idle_bufs s') + (if b \<in> set (logged s) then 0 else 1) \<and> disksize s' = disksize s \<and> mem_same s s' \<and>
    log_start s' = log_start s \<and> log_size s' = log_size s \<and> log_outstanding s' = log_outstanding s \<and> log_committing s' = log_committing s \<and>
    log_st.more s' = log_st.more s"
proof -
  have bi: "bio_inv s" and dl: "dirty_blocks s = set (logged s)" using inv by (auto simp: log_inv_def)
  from bread_spec [OF bi env fr b(1) disjI1 [OF ne]] obtain i s1 where
    s1: "bread 1 b s = Ok (i, s1)" "bio_inv s1" "env_ok pid s1" "bio_frame s i s1" "holds_buf pid s1 i b" "b_data (bcache s1 ! i) = bview s b"
    "bview s1 = bview s" "disk s1 = disk s" "dirty_blocks s1 = dirty_blocks s" "idle_bufs s1 = idle_bufs s - {i}"
    "i \<in> idle_bufs s \<longleftrightarrow> b_refcnt (bcache s1 ! i) = 1 \<and> b \<notin> dirty_blocks s" by blast
  let ?d = "f (bview s b)" let ?s2 = "bset i ?d s1"
  note s2 = bset_spec [OF s1(2,5) f]
  have m1: "bio_st.more s1 = bio_st.more s" "disksize s1 = disksize s" using s1(4) by (auto simp: bio_frame_def)
  have m2: "bio_st.more ?s2 = bio_st.more s" "disksize ?s2 = disksize s" using m1 s2(4) by (auto simp: bio_frame_def)
  note g2 = log_more [OF m2(1)]
  have inv2: "log_inv ?s2" by (rule log_inv_frame [OF inv s2(1) m2]) (use s1(8,9) s2(5,7) in simp_all)
  have lg2: "logged ?s2 = logged s" "home ?s2 b" using b(2) by (simp_all add: logged_def home_def g2)
  have e2: "env_ok pid ?s2" using s1(3) s2(9) by simp
  have "\<exists>s'. log_write i ?s2 = Ok s' \<and> log_inv s' \<and> env_ok pid s' \<and> holds_buf pid s' i b \<and> logged s' = absorb b (logged ?s2) \<and>
    bview s' = bview ?s2 \<and> disk s' = disk ?s2 \<and> dtrace s' = dtrace ?s2 \<and> idle_bufs s' = idle_bufs ?s2 \<and> disksize s' = disksize ?s2 \<and> mem_same ?s2 s' \<and>
    lh_n s' = lh_n ?s2 + (if b \<in> set (logged ?s2) then 0 else 1) \<and> b_dirty (bcache s' ! i) \<and> b_data (bcache s' ! i) = b_data (bcache ?s2 ! i) \<and>
    b_refcnt (bcache s' ! i) = b_refcnt (bcache ?s2 ! i) \<and>
    (\<forall>k<NBUF. k \<noteq> i \<longrightarrow> bcore (bcache s' ! k) = bcore (bcache ?s2 ! k)) \<and> log_start s' = log_start ?s2 \<and> log_size s' = log_size ?s2 \<and>
    log_outstanding s' = log_outstanding ?s2 \<and> log_committing s' = log_committing ?s2 \<and> log_st.more s' = log_st.more ?s2"
    by (rule log_write_spec [OF inv2 e2 s2(3) lg2(2)]) (use n g2 in auto)
  then obtain s3 where
    s3: "log_write i ?s2 = Ok s3" "log_inv s3" "env_ok pid s3" "holds_buf pid s3 i b" "logged s3 = absorb b (logged s)" "bview s3 = bview ?s2"
      "disk s3 = disk s" "idle_bufs s3 = idle_bufs s - {i}" "disksize s3 = disksize s" "lh_n s3 = lh_n s + (if b \<in> set (logged s) then 0 else 1)"
      "b_dirty (bcache s3 ! i)"
    and c3: "\<forall>k<NBUF. k \<noteq> i \<longrightarrow> bcore (bcache s3 ! k) = bcore (bcache ?s2 ! k)" and m3: "mem_same ?s2 s3"
    and g3: "log_start s3 = log_start s" "log_size s3 = log_size s" "log_outstanding s3 = log_outstanding s" "log_committing s3 = log_committing s" "log_st.more s3 = log_st.more s"
    using g2 lg2(1) s2(5,8) s1(8,10) m2(2) by auto
  have bi3: "bio_inv s3" using s3(2) by (simp add: log_inv_def)
  from brelse_spec [OF bi3 s3(3,4) disjI1 [OF s3(11)]] obtain s4 where
    s4: "brelse i s3 = Ok s4" "bio_inv s4" "env_ok pid s4" "bio_frame s3 i s4" "disk s4 = disk s3" "bview s4 = bview s3" "dirty_blocks s4 = dirty_blocks s3"
    "idle_bufs s4 = idle_bufs s3" "\<not> sl_locked (b_lock (bcache s4 ! i))" using s3(11) by auto
  have m4: "bio_st.more s4 = bio_st.more s3" "disksize s4 = disksize s3" "mem_same s3 s4" using s4(4) by (auto simp: bio_frame_def)
  note g4 = log_more [OF m4(1)]
  have "log_inv s4" by (rule log_inv_frame [OF s3(2) s4(2) m4(1,2) s4(7,5)])
  moreover have "\<forall>k<NBUF. k \<noteq> i \<longrightarrow> k \<noteq> i \<longrightarrow> bcore (bcache s4 ! k) = bcore (bcache s ! k)"
    using s4(4) c3 s2(4) s1(4) by (simp add: bio_frame_def)
  then have "\<forall>c. block_free s c \<longrightarrow> block_free s4 c" using unlocked_free [of i i s4 s] s4(9) by blast
  moreover have "mem_same s s4" using s1(4) s2(4) m3 m4(3) unfolding bio_frame_def by (meson mem_same_trans)
  moreover have "card (idle_bufs s) \<le> card (idle_bufs s4) + (if b \<in> set (logged s) then 0 else 1)"
  proof -
    have "finite (idle_bufs s)" by (simp add: idle_bufs_def)
    then show ?thesis using s4(8) s3(8) s1(11) dl by (auto simp: card_Diff_singleton_if)
  qed
  moreover have "log_block b f s = Ok s4" using s1(1,6) s3(1) s4(1) by (simp add: log_block_def)
  moreover have "logged s4 = logged s3" by (simp add: logged_def g4)
  ultimately show ?thesis using s4(3,5,6) s3(5,6,7,9,10) s2(2) s1(7) g3 g4 m4(2) by (intro exI [of _ s4]) simp
qed

section \<open>begin\_op and end\_op\<close>

lemma begin_op_run:
  assumes "env_ok pid s" and "\<not> log_committing s" and "lh_n s + (log_outstanding s + 1) * MAXOPBLOCKS \<le> LOGSIZE"
  shows "begin_op s = Ok ((sync s)\<lparr>log_outstanding := log_outstanding s + 1\<rparr>)"
  using assms by (simp add: begin_op_def kacquire_eq krelease_eq sync_def)

lemma begin_op_waits:
  assumes "env_ok pid s" and "log_committing s \<or> lh_n s + (log_outstanding s + 1) * MAXOPBLOCKS > LOGSIZE"
  shows "begin_op s = Sleep ChanLog"
  using assms by (auto simp: begin_op_def kacquire_eq)

text \<open>A transaction of one block on a small disk.\<close>

definition demo_log :: log_st where
  "demo_log = bio_st.extend demo_bio \<lparr>log_start = 2, log_size = 30, log_outstanding = 1, log_committing = False, log_dev = 1,
     lh_n = 0, lh_block = replicate 30 0\<rparr>"

lemma demo_log_spec:
  "log_inv demo_log" "env_ok 1 demo_log" "block_free demo_log b" "idle_bufs demo_log = {..<NBUF}" "bview demo_log = bview demo_bio"
  "lh_n demo_log = 0" "log_size demo_log = 30" "log_outstanding demo_log = 1" "disksize demo_log = 1000" "log_start demo_log = 2" "logged demo_log = []"
  "\<not> log_committing demo_log" "disk demo_log = disk demo_bio" "idle_bufs demo_log \<noteq> {}"
proof -
  have c: "bcache demo_log = bcache demo_bio" "disk demo_log = disk demo_bio" "disksize demo_log = disksize demo_bio"
    by (simp_all add: demo_log_def bio_st.defs)
  note e = bio_cong [OF c]
  show f: "lh_n demo_log = 0" "log_size demo_log = 30" "log_outstanding demo_log = 1" "log_start demo_log = 2" "\<not> log_committing demo_log"
    by (simp_all add: demo_log_def bio_st.defs)
  show "idle_bufs demo_log = {..<NBUF}" "block_free demo_log b" "bview demo_log = bview demo_bio" "disk demo_log = disk demo_bio"
    "disksize demo_log = 1000" using e c demo_bio_spec by simp_all
  show "idle_bufs demo_log \<noteq> {}" using e(3) demo_bio_spec(7) by simp
  show l: "logged demo_log = []" by (simp add: logged_def f)
  show "env_ok 1 demo_log" using demo_bio_spec(4) by (simp add: env_ok_def curproc_def demo_log_def bio_st.defs)
  have "bview demo_bio b = disk demo_bio b" for b
    by (rule bview_disk [OF bio_invD(1) [OF demo_bio_spec(1)]]) (use demo_bio_spec(8) in simp)
  from this [of 2] have d2: "disk demo_bio 2 = replicate BSIZE 0" unfolding demo_bio_spec(2) by simp
  have "get32 (replicate BSIZE 0) 0 = 0" by (simp add: get32_def slice_at_def of_le32_def min_def) (simp add: BSIZE_def)
  then have "encodes (disk demo_log 2) []" using c d2 by (simp add: encodes_def)
  moreover have "dirty_blocks demo_log = {}"
  proof -
    have "\<not> b_dirty (bcache demo_bio ! j)" if "j < NBUF" for j
    proof -
      have "j \<in> idle_bufs demo_bio" using that demo_bio_spec(3) by simp
      then show ?thesis by (simp add: idle_bufs_def)
    qed
    then show ?thesis by (auto simp: dirty_blocks_def c(1))
  qed
  moreover have "log_dev demo_log = 1" "length (lh_block demo_log) = 30" by (simp_all add: demo_log_def bio_st.defs)
  ultimately show "log_inv demo_log"
    using e(1) demo_bio_spec(1,5) f l c(3) unfolding log_inv_def by (simp add: LOGSIZE_def)
qed

definition demo_txn :: log_st where
  "demo_txn = (case log_block 40 (\<lambda>_. replicate BSIZE 9) demo_log of Ok s \<Rightarrow> s | _ \<Rightarrow> demo_log)"

lemma demo_txn_spec:
  "log_inv demo_txn" "env_ok 1 demo_txn" "\<forall>b. block_free demo_txn b" "idle_bufs demo_txn \<noteq> {}" "logged demo_txn = [40]" "lh_n demo_txn = 1"
  "bview demo_txn 40 = replicate BSIZE 9" "disk demo_txn = disk demo_log" "log_start demo_txn = 2" "log_size demo_txn = 30"
  "disksize demo_txn = 1000" "log_outstanding demo_txn = 1" "\<not> log_committing demo_txn"
proof -
  have "\<exists>s'. log_block 40 (\<lambda>_. replicate BSIZE 9) demo_log = Ok s' \<and> log_inv s' \<and> env_ok 1 s' \<and> bview s' = (bview demo_log)(40 := replicate BSIZE 9) \<and> disk s' = disk demo_log \<and>
    logged s' = absorb 40 (logged demo_log) \<and> lh_n s' = lh_n demo_log + (if 40 \<in> set (logged demo_log) then 0 else 1) \<and> (\<forall>c. block_free demo_log c \<longrightarrow> block_free s' c) \<and>
    card (idle_bufs demo_log) \<le> card (idle_bufs s') + (if 40 \<in> set (logged demo_log) then 0 else 1) \<and> disksize s' = disksize demo_log \<and> mem_same demo_log s' \<and>
    log_start s' = log_start demo_log \<and> log_size s' = log_size demo_log \<and> log_outstanding s' = log_outstanding demo_log \<and> log_committing s' = log_committing demo_log \<and>
    log_st.more s' = log_st.more demo_log"
    by (rule log_block_spec) (simp_all add: demo_log_spec(1,2,3,6-14) home_def LOGSIZE_def)
  then obtain s' where s': "demo_txn = s'" "log_inv s'" "env_ok 1 s'" "bview s' = (bview demo_log)(40 := replicate BSIZE 9)" "disk s' = disk demo_log"
    "logged s' = absorb 40 []" "lh_n s' = 1" "\<forall>c. block_free s' c" "NBUF \<le> card (idle_bufs s') + 1" "disksize s' = 1000" "log_start s' = 2" "log_size s' = 30"
    "log_outstanding s' = 1" "\<not> log_committing s'"
    by (auto simp: demo_txn_def demo_log_spec)
  have "card (idle_bufs s') \<noteq> 0" using s'(9) by (simp add: NBUF_def)
  then have "idle_bufs s' \<noteq> {}" by auto
  with s' show "log_inv demo_txn" "env_ok 1 demo_txn" "\<forall>b. block_free demo_txn b" "idle_bufs demo_txn \<noteq> {}" "logged demo_txn = [40]" "lh_n demo_txn = 1"
    "bview demo_txn 40 = replicate BSIZE 9" "disk demo_txn = disk demo_log" "log_start demo_txn = 2" "log_size demo_txn = 30"
    "disksize demo_txn = 1000" "log_outstanding demo_txn = 1" "\<not> log_committing demo_txn" by (auto simp: absorb_def)
qed

lemma log_inv_cong:
  assumes "log_inv s" and "bcache s' = bcache s" and "disk s' = disk s" and "disksize s' = disksize s" and "log_dev s' = log_dev s"
    and "lh_n s' = lh_n s" and "lh_block s' = lh_block s" and "log_size s' = log_size s" and "log_start s' = log_start s"
  shows "log_inv s'"
proof -
  have "logged s' = logged s" "home s' = home s" using assms by (simp_all add: logged_def home_def fun_eq_iff)
  then show ?thesis using assms bio_cong [OF assms(2-4)] by (simp add: log_inv_def)
qed

lemma commit_done:
  assumes inv: "log_inv s" and env: "env_ok pid s" and fr: "\<forall>b. block_free s b" and ne: "idle_bufs s \<noteq> {}"
  shows "\<exists>s'. commit s = Ok s' \<and> log_inv s' \<and> logged s' = [] \<and> env_ok pid s' \<and> (\<forall>b. block_free s' b) \<and> idle_bufs s \<subseteq> idle_bufs s' \<and>
    (\<forall>b. home s b \<longrightarrow> bview s' b = bview s b \<and> disk s' b = committed s b) \<and> disksize s' = disksize s \<and> mem_same s s' \<and>
    log_start s' = log_start s \<and> log_size s' = log_size s \<and> log_outstanding s' = log_outstanding s \<and> log_committing s' = log_committing s \<and>
    log_st.more s' = log_st.more s"
proof (cases "0 < lh_n s")
  case False
  then have "logged s = []" by (simp add: logged_def)
  then show ?thesis using False inv env fr by (intro exI [of _ s]) (auto simp: commit_def committed_def)
next
  case True
  from commit_run [OF inv env fr ne True] obtain s' h h0 where
    s': "commit s = Ok s'" "wrote pid (commit_writes h h0 s) (s\<lparr>lh_n := 0\<rparr>) s'" "encodes h (logged s)" "encodes h0 []" by blast
  note w = wroteD [OF s'(2)] note m = log_more [OF w(4)]
  have inv': "log_inv s'"
  proof -
    have "dirty_blocks s' = {}"
    proof -
      have "set (logged s) \<subseteq> fst ` set (commit_writes h h0 s)" by (force simp: commit_writes_def image_iff)
      moreover have "dirty_blocks s = set (logged s)" using inv by (simp add: log_inv_def)
      ultimately show ?thesis using w(8) by auto
    qed
    moreover have "disk s' (log_start s) = h0" using w(10) by (simp add: commit_writes_def)
    ultimately show ?thesis using inv w(1,5) m s'(4) unfolding log_inv_def by (simp add: logged_def LOGSIZE_def)
  qed
  have "bview s' b = bview s b \<and> disk s' b = committed s b" if "home s b" for b
    using commit_home [OF inv that, of h h0] w(9,10) by (simp add: committed_def)
  moreover have "logged s' = []" by (simp add: logged_def m)
  ultimately show ?thesis using s'(1) inv' w m fr by (intro exI [of _ s']) (auto simp: mem_same_def)
qed

lemma end_op_run:
  assumes inv: "log_inv s" and env: "env_ok pid s" and fr: "\<forall>b. block_free s b" and ne: "idle_bufs s \<noteq> {}"
    and op: "log_outstanding s = 1" "\<not> log_committing s"
  shows "\<exists>s'. end_op s = Ok s' \<and> log_inv s' \<and> logged s' = [] \<and> env_ok pid s' \<and> (\<forall>b. block_free s' b) \<and> idle_bufs s \<subseteq> idle_bufs s' \<and>
    (\<forall>b. home s b \<longrightarrow> bview s' b = bview s b \<and> disk s' b = committed s b) \<and> disksize s' = disksize s \<and> mem_same s s' \<and>
    log_start s' = log_start s \<and> log_size s' = log_size s \<and> log_outstanding s' = 0 \<and> \<not> log_committing s' \<and> log_st.more s' = log_st.more s"
proof -
  define t where "t = (sync s)\<lparr>log_outstanding := 0, log_committing := True\<rparr>"
  have c: "bcache t = bcache s" "disk t = disk s" "disksize t = disksize s" by (simp_all add: t_def)
  note e = bio_cong [OF c]
  have t: "log_inv t" "env_ok pid t" "\<forall>b. block_free t b" "idle_bufs t \<noteq> {}"
    using log_inv_cong [OF inv c] env fr ne e by (simp_all add: t_def)
  from commit_done [OF t] obtain u where u: "commit t = Ok u" "log_inv u" "logged u = []" "env_ok pid u" "\<forall>b. block_free u b" "idle_bufs t \<subseteq> idle_bufs u"
    "\<forall>b. home t b \<longrightarrow> bview u b = bview t b \<and> disk u b = committed t b" "disksize u = disksize t" "mem_same t u" "log_start u = log_start t"
    "log_size u = log_size t" "log_outstanding u = log_outstanding t" "log_committing u = log_committing t" "log_st.more u = log_st.more t" by blast
  define v where "v = (rouse ChanLog u)\<lparr>log_committing := False\<rparr>"
  have rel: "krelease LogLock (s\<lparr>log_outstanding := 0, log_committing := True, mach := acq LogLock (mach s)\<rparr>) = Ok t"
    using krelease_eq [OF env, of "s\<lparr>log_outstanding := 0, log_committing := True, mach := acq LogLock (mach s)\<rparr>" LogLock] by (simp add: t_def sync_def)
  have "end_op s = rbind (commit t) (\<lambda>s. rbind (kacquire LogLock s) (\<lambda>s. rbind (wakeup ChanLog (s\<lparr>log_committing := False\<rparr>)) (\<lambda>s. krelease LogLock s)))"
    using op rel by (simp add: end_op_def kacquire_eq [OF env] Let_def)
  also have "\<dots> = Ok v"
  proof -
    let ?u = "u\<lparr>log_committing := False\<rparr>"
    have eu: "env_ok pid ?u" using u(4) by simp
    have "wakeup ChanLog (?u\<lparr>mach := acq LogLock (mach u)\<rparr>) = Ok (?u\<lparr>ptable := wakeup1 (Some ChanLog) (ptable u), mach := acq LogLock (mach u)\<rparr>)"
      using wakeup_acq [OF eu, of LogLock] by simp
    then show ?thesis
      using krelease_eq [OF eu, of "?u\<lparr>ptable := wakeup1 (Some ChanLog) (ptable u), mach := acq LogLock (mach u)\<rparr>" LogLock]
      by (simp add: u(1) kacquire_eq [OF u(4)] v_def rouse_def sync_def)
  qed
  finally have run: "end_op s = Ok v" .
  have cv: "bcache v = bcache u" "disk v = disk u" "disksize v = disksize u" by (simp_all add: v_def)
  note ev = bio_cong [OF cv]
  have "log_inv v" using log_inv_cong [OF u(2) cv] by (simp add: v_def)
  moreover have "logged v = []" using u(3) by (simp add: v_def logged_def)
  moreover have "env_ok pid v" using env_ok_rouse [OF u(4)] by (simp add: v_def)
  moreover have "home t = home s" "logged t = logged s" by (simp_all add: t_def home_def logged_def fun_eq_iff)
  then have "\<forall>b. home s b \<longrightarrow> bview v b = bview s b \<and> disk v b = committed s b" using u(7) ev(2) e(2) cv(2) c(2) by (simp add: committed_def)
  moreover have "mem_same s v" using u(9) by (simp add: v_def) (simp add: t_def mem_same_def)
  ultimately show ?thesis using run u ev e cv c by (intro exI [of _ v]) (simp add: v_def t_def)
qed

section \<open>Properties\<close>

text \<open>
  C1. Crash atomicity. Let \<open>s\<close> be a state with a transaction to commit. \<^verbatim>\<open>commit\<close> returns; and whatever
  number \<open>k\<close> of its disk writes reach the disk before the machine stops, after a reboot
  \<^verbatim>\<open>recover_from_log\<close> returns with an empty log and with the blocks outside the log either all as they
  were on disk before the transaction or all as the transaction left them.
\<close>

theorem commit_crash_atomic:
  assumes inv: "log_inv s" and env: "env_ok pid s" and fr: "\<forall>b. block_free s b" and ne: "idle_bufs s \<noteq> {}"
  shows "\<exists>s' ws. commit s = Ok s' \<and> dtrace s' = dtrace s @ ws \<and> disk s' = apply_writes ws (disk s) \<and>
    (\<forall>k r. rebooted pid (apply_writes (take k ws) (disk s)) s r \<longrightarrow>
      (\<exists>r'. recover_from_log r = Ok r' \<and> encodes (disk r' (log_start s)) [] \<and>
        ((\<forall>b. home s b \<longrightarrow> disk r' b = disk s b) \<or> (\<forall>b. home s b \<longrightarrow> disk r' b = committed s b))))"
proof (cases "0 < lh_n s")
  case True
  from commit_run [OF inv env fr ne True] obtain s' h h0 where
    s': "commit s = Ok s'" "wrote pid (commit_writes h h0 s) (s\<lparr>lh_n := 0\<rparr>) s'" "encodes h (logged s)" "encodes h0 []" by blast
  note w = wroteD [OF s'(2)]
  have "\<exists>r'. recover_from_log r = Ok r' \<and> encodes (disk r' (log_start s)) [] \<and>
      ((\<forall>b. home s b \<longrightarrow> disk r' b = disk s b) \<or> (\<forall>b. home s b \<longrightarrow> disk r' b = committed s b))"
    if r: "rebooted pid (apply_writes (take k (commit_writes h h0 s)) (disk s)) s r" for k r
  proof -
    let ?d = "apply_writes (take k (commit_writes h h0 s)) (disk s)"
    consider (old) "encodes (?d (log_start s)) []" "\<forall>b. home s b \<longrightarrow> ?d b = disk s b"
      | (mid) "encodes (?d (log_start s)) (logged s)" "\<forall>i<length (logged s). ?d (log_start s + i + 1) = bview s (logged s ! i)"
          "\<forall>b. home s b \<longrightarrow> b \<notin> set (logged s) \<longrightarrow> ?d b = disk s b"
      | (new) "encodes (?d (log_start s)) []" "\<forall>b. home s b \<longrightarrow> ?d b = committed s b"
      using crash_cases [OF inv s'(3,4) refl, of k] by blast
    then show ?thesis
    proof cases
      case old
      then show ?thesis using recover_after [OF inv r old(1)] by fastforce
    next
      case mid
      from recover_after [OF inv r mid(1)] obtain r' where r': "recover_from_log r = Ok r'" "encodes (disk r' (log_start s)) []"
        "\<forall>b. home s b \<longrightarrow> (if b \<in> set (logged s) then \<exists>i<length (logged s). logged s ! i = b \<and> disk r' b = ?d (log_start s + i + 1) else disk r' b = ?d b)"
        by blast
      then have "\<forall>b. home s b \<longrightarrow> disk r' b = committed s b" using mid(2,3) by (auto simp: committed_def split: if_splits)
      then show ?thesis using r' by blast
    next
      case new
      then show ?thesis using recover_after [OF inv r new(1)] by fastforce
    qed
  qed
  then show ?thesis using s'(1) w(10,11) by (intro exI [of _ s'] exI [of _ "commit_writes h h0 s"]) auto
next
  case False
  have e: "encodes (disk s (log_start s)) []" using inv by (simp add: log_inv_def)
  have "\<exists>r'. recover_from_log r = Ok r' \<and> encodes (disk r' (log_start s)) [] \<and> (\<forall>b. home s b \<longrightarrow> disk r' b = disk s b)"
    if "rebooted pid (disk s) s r" for r using recover_after [OF inv that e] by fastforce
  then show ?thesis using False by (intro exI [of _ s] exI [of _ "[]"]) (auto simp: commit_def)
qed

theorem commit_crash_atomic_witness:
  "logged demo_txn = [40] \<and> (\<exists>s' ws. commit demo_txn = Ok s' \<and> dtrace s' = dtrace demo_txn @ ws \<and> disk s' = apply_writes ws (disk demo_txn))"
  using commit_crash_atomic [OF demo_txn_spec(1-4)] demo_txn_spec(5) by blast

text \<open>
  C11. Durability. When the last outstanding operation ends, \<^verbatim>\<open>end_op\<close> returns with everything the
  transaction wrote on the disk, nothing logged, the commit flag cleared, the contents of every
  block outside the log unchanged in the view of the cache, and the log ready for the next operation.
\<close>

theorem end_op_durable:
  assumes "log_inv s" and "env_ok pid s" and "\<forall>b. block_free s b" and "idle_bufs s \<noteq> {}"
    and "log_outstanding s = 1" and "\<not> log_committing s"
  shows "\<exists>s'. end_op s = Ok s' \<and> log_inv s' \<and> logged s' = [] \<and> log_outstanding s' = 0 \<and> \<not> log_committing s' \<and>
    (\<forall>b. home s b \<longrightarrow> bview s' b = bview s b \<and> disk s' b = (if b \<in> set (logged s) then bview s b else disk s b)) \<and>
    (\<exists>s''. begin_op s' = Ok s'' \<and> log_outstanding s'' = 1)"
proof -
  from end_op_run [OF assms] obtain s' where s': "end_op s = Ok s'" "log_inv s'" "logged s' = []" "env_ok pid s'" "log_outstanding s' = 0" "\<not> log_committing s'"
    "\<forall>b. home s b \<longrightarrow> bview s' b = bview s b \<and> disk s' b = committed s b" by blast
  have "lh_n s' = 0"
  proof -
    have "length (lh_block s') = 30" "0 \<le> lh_n s'" using s'(2) by (auto simp: log_inv_def LOGSIZE_def)
    then show ?thesis using s'(3) by (auto simp: logged_def)
  qed
  then have "begin_op s' = Ok ((sync s')\<lparr>log_outstanding := 1\<rparr>)"
    using begin_op_run [OF s'(4,6)] s'(5) by (simp add: LOGSIZE_def MAXOPBLOCKS_def)
  then show ?thesis using s' by (intro exI [of _ s']) (simp add: committed_def)
qed

theorem end_op_durable_witness: "\<exists>s'. end_op demo_txn = Ok s' \<and> disk s' 40 = replicate BSIZE 9"
proof -
  have "home demo_txn 40" by (simp add: home_def demo_txn_spec)
  then show ?thesis
    using end_op_durable [OF demo_txn_spec(1-4,12,13)] demo_txn_spec(5,7) by (auto simp: committed_def)
qed

text \<open>
  C12. \<^verbatim>\<open>log_write\<close> of a held buffer either panics, exactly when the header is full or no operation is
  outstanding, or keeps the invariant of the log: the block is recorded once (a block already in the
  transaction is absorbed), pinned in the cache, and no contents change.
\<close>

theorem log_write_outcomes:
  assumes "log_inv s" and "env_ok pid s" and "holds_buf pid s i b" and "home s b"
  shows "if lh_n s \<ge> LOGSIZE \<or> lh_n s \<ge> log_size s - 1 then log_write i s = Panic ''too big a transaction''
    else if log_outstanding s < 1 then log_write i s = Panic ''log_write outside of trans''
    else \<exists>s'. log_write i s = Ok s' \<and> log_inv s' \<and> logged s' = (if b \<in> set (logged s) then logged s else logged s @ [b]) \<and>
      b \<in> dirty_blocks s' \<and> bview s' = bview s \<and> disk s' = disk s"
proof -
  consider "lh_n s \<ge> LOGSIZE \<or> lh_n s \<ge> log_size s - 1" | "\<not> (lh_n s \<ge> LOGSIZE \<or> lh_n s \<ge> log_size s - 1)" "log_outstanding s < 1"
    | "lh_n s < LOGSIZE" "lh_n s < log_size s - 1" "1 \<le> log_outstanding s" by linarith
  then show ?thesis
  proof cases
    case 3
    from log_write_spec [OF assms 3] obtain s' where s': "log_write i s = Ok s'" "log_inv s'" "logged s' = absorb b (logged s)" "bview s' = bview s" "disk s' = disk s"
      by blast
    moreover then have "b \<in> dirty_blocks s'" by (auto simp: log_inv_def absorb_def)
    ultimately show ?thesis using 3 by (auto simp: absorb_def)
  qed (simp_all add: log_write_def)
qed

theorem log_write_outcomes_witness:
  "\<exists>i s1 s2. bread 1 40 demo_log = Ok (i, s1) \<and> log_write i s1 = Ok s2 \<and> logged s2 = [40]"
proof -
  note d = demo_log_spec
  have "bio_inv demo_log" "40 < disksize demo_log" using d(1,9) by (auto simp: log_inv_def)
  from bread_spec [OF this(1) d(2,3) this(2) disjI1 [OF d(14)]] obtain i s1 where
    s1: "bread 1 40 demo_log = Ok (i, s1)" "bio_inv s1" "env_ok 1 s1" "bio_frame demo_log i s1" "holds_buf 1 s1 i 40" "disk s1 = disk demo_log"
      "dirty_blocks s1 = dirty_blocks demo_log" by blast
  have m: "bio_st.more s1 = bio_st.more demo_log" "disksize s1 = disksize demo_log" using s1(4) by (auto simp: bio_frame_def)
  note g = log_more [OF m(1)]
  have "log_inv s1" by (rule log_inv_frame [OF d(1) s1(2) m s1(7,6)])
  from log_write_outcomes [OF this s1(3,5)] show ?thesis
    using s1(1) d(6,7,8,10,11) g by (auto simp: home_def LOGSIZE_def logged_def)
qed

text \<open>The blocks an operation modifies, one after the other.\<close>

primrec log_blocks :: "nat list \<Rightarrow> (block \<Rightarrow> block) \<Rightarrow> 'z log_st_scheme \<Rightarrow> 'z log_st_scheme res" where
  "log_blocks [] f s = Ok s"
| "log_blocks (b # bs) f s = rbind (log_block b f s) (log_blocks bs f)"

lemma log_blocks_append: "log_blocks (bs @ cs) f s = rbind (log_blocks bs f s) (log_blocks cs f)"
proof (induction bs arbitrary: s)
  case (Cons b bs)
  then show ?case by (cases "log_block b f s") simp_all
qed simp

lemma log_blocks_run:
  assumes "log_inv s" and "env_ok pid s" and "\<forall>b. block_free s b" and "distinct (logged s @ bs)"
    and "\<forall>b\<in>set bs. b < disksize s \<and> home s b" and "lh_n s + int (length bs) \<le> LOGSIZE" and "lh_n s + int (length bs) \<le> log_size s - 1"
    and "1 \<le> log_outstanding s" and "length bs \<le> card (idle_bufs s)" and "\<forall>d. length (f d) = BSIZE"
  shows "\<exists>s'. log_blocks bs f s = Ok s' \<and> log_inv s' \<and> env_ok pid s' \<and> (\<forall>b. block_free s' b) \<and> logged s' = logged s @ bs \<and>
    lh_n s' = lh_n s + int (length bs) \<and> log_size s' = log_size s \<and> log_start s' = log_start s \<and> disksize s' = disksize s \<and>
    card (idle_bufs s) \<le> card (idle_bufs s') + length bs"
  using assms
proof (induction bs arbitrary: s)
  case (Cons b bs)
  have b: "block_free s b" "b < disksize s" "home s b" "b \<notin> set (logged s)" "lh_n s < LOGSIZE" "lh_n s < log_size s - 1" "length (f (bview s b)) = BSIZE"
    using Cons.prems(3-7,10) by auto
  have ne: "idle_bufs s \<noteq> {}" using Cons.prems(9) by auto
  obtain s1 where s1: "log_block b f s = Ok s1" "log_inv s1" "env_ok pid s1" "logged s1 = absorb b (logged s)" "lh_n s1 = lh_n s + 1"
    "\<forall>c. block_free s c \<longrightarrow> block_free s1 c" "card (idle_bufs s) \<le> card (idle_bufs s1) + 1" "disksize s1 = disksize s"
    "log_start s1 = log_start s" "log_size s1 = log_size s" "log_outstanding s1 = log_outstanding s"
    using log_block_spec [where f = f, OF Cons.prems(1,2) b(1-3) ne b(5,6) Cons.prems(8) b(7)] b(4) by auto
  have l1: "logged s1 = logged s @ [b]" using s1(4) b(4) by (simp add: absorb_def)
  have "home s1 = home s" by (simp add: home_def s1 fun_eq_iff)
  then have "\<exists>s'. log_blocks bs f s1 = Ok s' \<and> log_inv s' \<and> env_ok pid s' \<and> (\<forall>b. block_free s' b) \<and> logged s' = logged s1 @ bs \<and>
    lh_n s' = lh_n s1 + int (length bs) \<and> log_size s' = log_size s1 \<and> log_start s' = log_start s1 \<and> disksize s' = disksize s1 \<and>
    card (idle_bufs s1) \<le> card (idle_bufs s') + length bs"
    using Cons.prems s1(2,3,5-11) l1 by (intro Cons.IH) auto
  then obtain s' where s': "log_blocks bs f s1 = Ok s'" "log_inv s'" "env_ok pid s'" "\<forall>b. block_free s' b" "logged s' = logged s1 @ bs"
    "lh_n s' = lh_n s1 + int (length bs)" "log_size s' = log_size s1" "log_start s' = log_start s1" "disksize s' = disksize s1"
    "card (idle_bufs s1) \<le> card (idle_bufs s') + length bs" by blast
  show ?case using s' s1 l1 by (intro exI [of _ s']) simp
qed simp

text \<open>A block more than the log can hold: \<^verbatim>\<open>log_write\<close> panics.\<close>

lemma log_block_full:
  assumes "log_inv s" and "env_ok pid s" and "block_free s b" and "b < disksize s" and "idle_bufs s \<noteq> {}" and "log_size s - 1 \<le> lh_n s"
  shows "log_block b f s = Panic ''too big a transaction''"
proof -
  have bi: "bio_inv s" using assms(1) by (simp add: log_inv_def)
  from bread_spec [OF bi assms(2-4) disjI1 [OF assms(5)]] obtain i s1 where
    s1: "bread 1 b s = Ok (i, s1)" "bio_frame s i s1" by blast
  let ?s2 = "bset i (f (b_data (bcache s1 ! i))) s1"
  have "bio_st.more ?s2 = bio_st.more s" using s1(2) by (simp add: bio_frame_def bset_def)
  from log_more [OF this] have "lh_n ?s2 = lh_n s" "log_size ?s2 = log_size s" by auto
  then show ?thesis using s1(1) assms(6) by (simp add: log_block_def log_write_def)
qed

text \<open>
  C13. The reservation of \<^verbatim>\<open>begin_op\<close> and the limit of \<^verbatim>\<open>log_write\<close> disagree on the disk layout of
  \<^verbatim>\<open>mkfs\<close>, whose log has \<^verbatim>\<open>LOGSIZE\<close> blocks including the header. Between transactions, with the log
  and all buffers free, \<^verbatim>\<open>begin_op\<close> admits three operations at once. If each of them modifies
  \<^verbatim>\<open>MAXOPBLOCKS\<close> blocks, as it has reserved, through \<^verbatim>\<open>bread\<close>, \<^verbatim>\<open>log_write\<close> and \<^verbatim>\<open>brelse\<close>, and all
  these blocks are different, then the first 29 go through and the last one panics.
\<close>

theorem log_reservation_exceeds_log:
  assumes "log_inv s" and "env_ok pid s" and "\<forall>b. block_free s b" and "idle_bufs s = {..<NBUF}"
    and "\<not> log_committing s" and "log_outstanding s = 0" and "lh_n s = 0" and "log_size s = LOGSIZE"
    and "length bs = 3 * nat MAXOPBLOCKS" and "distinct bs" and "\<forall>b\<in>set bs. b < disksize s \<and> home s b" and "\<forall>d. length (f d) = BSIZE"
  shows "\<exists>s3. rbind (begin_op s) (\<lambda>s. rbind (begin_op s) begin_op) = Ok s3 \<and> log_outstanding s3 = 3 \<and>
    (\<exists>s'. log_blocks (butlast bs) f s3 = Ok s') \<and> log_blocks bs f s3 = Panic ''too big a transaction''"
proof -
  define s3 where "s3 = (sync s)\<lparr>log_outstanding := 3\<rparr>"
  have e: "env_ok pid ((sync s)\<lparr>log_outstanding := n\<rparr>)" for n using assms(2) by (simp add: env_ok_def curproc_def sync_def)
  have adm: "rbind (begin_op s) (\<lambda>s. rbind (begin_op s) begin_op) = Ok s3"
    using begin_op_run [OF assms(2,5)] begin_op_run [OF e [of 1]] begin_op_run [OF e [of 2]] assms(5-7)
    by (simp add: LOGSIZE_def MAXOPBLOCKS_def s3_def sync_def)
  have c: "bcache s3 = bcache s" "disk s3 = disk s" "disksize s3 = disksize s" "lh_n s3 = 0" "log_size s3 = 30" "logged s3 = []" "log_outstanding s3 = 3"
    "home s3 = home s"
    using assms(7,8) by (simp_all add: s3_def logged_def home_def LOGSIZE_def fun_eq_iff)
  have inv3: "log_inv s3" by (rule log_inv_cong [OF assms(1)]) (simp_all add: s3_def)
  have fr3: "\<forall>b. block_free s3 b" "card (idle_bufs s3) = 30" using assms(3,4) c(1) by (simp_all add: block_free_def idle_bufs_def NBUF_def)
  have l: "length bs = 30" using assms(9) by (simp add: MAXOPBLOCKS_def)
  then obtain cs b where bs: "bs = cs @ [b]" "length cs = 29" by (cases bs rule: rev_cases) auto
  have "\<exists>s'. log_blocks cs f s3 = Ok s' \<and> log_inv s' \<and> env_ok pid s' \<and> (\<forall>b. block_free s' b) \<and> logged s' = logged s3 @ cs \<and>
    lh_n s' = lh_n s3 + int (length cs) \<and> log_size s' = log_size s3 \<and> log_start s' = log_start s3 \<and> disksize s' = disksize s3 \<and>
    card (idle_bufs s3) \<le> card (idle_bufs s') + length cs"
    by (rule log_blocks_run [OF inv3 e [of 3, folded s3_def] fr3(1)]) (use assms(10-12) bs c fr3(2) in \<open>auto simp: LOGSIZE_def\<close>)
  then obtain s' where s': "log_blocks cs f s3 = Ok s'" "log_inv s'" "env_ok pid s'" "\<forall>b. block_free s' b" "lh_n s' = 29" "log_size s' = 30"
    "disksize s' = disksize s" "1 \<le> card (idle_bufs s')" using c fr3(2) bs(2) by auto
  have "idle_bufs s' \<noteq> {}" using s'(8) by auto
  moreover have "b < disksize s'" using assms(11) bs(1) s'(7) by auto
  ultimately have "log_block b f s' = Panic ''too big a transaction''" using s'(4,5,6) by (intro log_block_full [OF s'(2,3)]) auto
  then have "log_blocks bs f s3 = Panic ''too big a transaction''" unfolding bs(1) log_blocks_append using s'(1) by simp
  then show ?thesis using adm c(7) s'(1) bs(1) by auto
qed

theorem log_reservation_exceeds_log_witness:
  "\<exists>s3. rbind (begin_op (demo_log\<lparr>log_outstanding := 0\<rparr>)) (\<lambda>s. rbind (begin_op s) begin_op) = Ok s3 \<and>
     log_blocks [40..<70] (\<lambda>_. replicate BSIZE 9) s3 = Panic ''too big a transaction''"
proof -
  let ?s = "demo_log\<lparr>log_outstanding := 0\<rparr>"
  note d = demo_log_spec
  have c: "bcache ?s = bcache demo_log" "disk ?s = disk demo_log" "disksize ?s = disksize demo_log" by simp_all
  have "log_inv ?s" by (rule log_inv_cong [OF d(1)]) simp_all
  moreover have "env_ok 1 ?s" using d(2) by (simp add: env_ok_def curproc_def)
  moreover have "\<forall>b. block_free ?s b" "idle_bufs ?s = {..<NBUF}" using d(3,4) bio_cong [OF c] by simp_all
  moreover have "length [40..<70::nat] = 3 * nat MAXOPBLOCKS" by (simp add: MAXOPBLOCKS_def)
  moreover have "\<forall>b\<in>set [40..<70]. b < disksize ?s \<and> home ?s b" using d(7,9,10) by (simp add: home_def)
  ultimately show ?thesis
    using log_reservation_exceeds_log [of ?s 1 "[40..<70]" "\<lambda>_. replicate BSIZE 9"] d(6,7,12) by (simp add: LOGSIZE_def del: upt_conv_Cons_Cons upt_rec_numeral) blast
qed

end
