(* ===== verification/Ring.thy ===== *)
theory Ring
  imports Xv6_Prelude
begin

section \<open>Ring buffers with free-running 32-bit indices\<close>

text \<open>
  The pipes and the console input keep a ring of \<open>n\<close> bytes and indices that only ever grow,
  modulo \<open>2 ^ 32\<close>; a byte sits at its index modulo \<open>n\<close>. As \<open>n\<close> divides \<open>2 ^ 32\<close>, nothing happens when
  an index wraps around: the ring holds the sequence \<open>ring n buf r w\<close>, and appending, removing
  and dropping the last byte are what the code does with it.

  The locale \<open>byte_queue\<close> is the contract of a bounded queue of bytes; from it follow the laws of
  the loops that write and read several bytes.
\<close>

definition ring :: "nat \<Rightarrow> uchar list \<Rightarrow> uint \<Rightarrow> uint \<Rightarrow> uchar list" where
  "ring n buf r w = map (\<lambda>i. buf ! (unat (r + of_nat i) mod n)) [0..<unat (w - r)]"

lemma unat_add_mod:
  assumes "n dvd 2 ^ 32"
  shows "unat (r + of_nat i :: uint) mod n = (unat r + i) mod n"
proof -
  have "unat (r + of_nat i :: uint) = (unat r + i) mod 2 ^ 32"
    by (simp add: unat_word_ariths unsigned_of_nat take_bit_nat_def mod_simps)
  then show ?thesis using assms by (simp add: mod_mod_cancel)
qed

lemma length_ring [simp]: "length (ring n buf r w) = unat (w - r)"
  by (simp add: ring_def)

lemma ring_empty [simp]: "ring n buf r r = []"
  by (simp add: ring_def)

lemma ring_Nil_iff: "ring n buf r w = [] \<longleftrightarrow> r = w"
proof -
  have "ring n buf r w = [] \<longleftrightarrow> unat (w - r) = 0" by (metis length_ring length_0_conv)
  also have "\<dots> \<longleftrightarrow> w - r = 0" by (rule unat_eq_zero)
  finally show ?thesis by auto
qed

lemma unat_succ: "unat (d :: uint) < n \<Longrightarrow> n < 2 ^ 32 \<Longrightarrow> unat (d + 1) = Suc (unat d)"
  by (simp add: unat_word_ariths)

lemma ring_put:
  assumes "n dvd 2 ^ 32" and "n < 2 ^ 32" and "length buf = n" and "unat (w - r) < n"
  shows "ring n (buf[unat w mod n := c]) r (w + 1) = ring n buf r w @ [c]"
proof -
  let ?k = "unat (w - r)"
  have len: "unat (w + 1 - r) = Suc ?k"
    using unat_succ [OF assms(4,2)] by (simp add: add_diff_eq [symmetric] diff_add_eq)
  have w: "unat w mod n = (unat r + ?k) mod n"
    using unat_add_mod [OF assms(1), of r "?k"] by simp
  have "buf[unat w mod n := c] ! ((unat r + i) mod n) = buf ! ((unat r + i) mod n)" if "i < ?k" for i
  proof -
    have "(unat r + i) mod n \<noteq> (unat r + ?k) mod n"
    proof
      assume "(unat r + i) mod n = (unat r + ?k) mod n"
      then have "n dvd (unat r + ?k) - (unat r + i)" by (metis mod_eq_dvd_iff_nat le_add_diff_inverse2 nat_le_linear that add_le_cancel_left less_imp_le)
      then show False using that assms(4) by (auto dest!: dvd_imp_le)
    qed
    then show ?thesis unfolding w by simp
  qed
  moreover have "unat w mod n < length buf" using assms(3,4) by simp
  ultimately show ?thesis
    unfolding ring_def len by (simp add: unat_add_mod [OF assms(1)] w)
qed

lemma ring_get:
  assumes "r \<noteq> w"
  shows "ring n buf r w = buf ! (unat r mod n) # ring n buf (r + 1) w"
proof -
  have pos: "0 < unat (w - r)" using assms by (simp add: unat_gt_0)
  have len: "unat (w - (r + 1)) = unat (w - r) - 1"
    using pos unat_minus_one [of "w - r"] by (simp add: diff_diff_eq unat_gt_0)
  have "[0..<unat (w - r)] = 0 # map Suc [0..<unat (w - (r + 1))]"
    using pos unfolding len by (simp add: map_Suc_upt upt_conv_Cons)
  then show ?thesis unfolding ring_def by (simp add: comp_def add.assoc)
qed

lemma ring_unput:
  assumes "r \<noteq> w"
  shows "ring n buf r (w - 1) = butlast (ring n buf r w)"
proof -
  have len: "unat (w - 1 - r) = unat (w - r) - 1"
    using assms unat_minus_one [of "w - r"] by (simp add: diff_right_commute)
  have "0 < unat (w - r)" using assms by (simp add: unat_gt_0)
  then have "[0..<unat (w - r)] = [0..<unat (w - r) - 1] @ [unat (w - r) - 1]"
    by (metis Suc_diff_1 upt_Suc_append zero_le)
  then show ?thesis unfolding ring_def len by (simp add: butlast_append)
qed

lemma ring_last:
  assumes "r \<noteq> w" and "n dvd 2 ^ 32"
  shows "buf ! (unat (w - 1) mod n) = last (ring n buf r w)"
proof -
  have pos: "0 < unat (w - r)" using assms by (simp add: unat_gt_0)
  then have "last (ring n buf r w) = buf ! (unat (r + of_nat (unat (w - r) - 1)) mod n)"
    unfolding ring_def by (simp add: last_map last_upt)
  moreover have "r + of_nat (unat (w - r) - 1) = w - 1" using pos by (simp add: of_nat_diff)
  ultimately show ?thesis by simp
qed

section \<open>Bounded byte queues\<close>

primrec put_all :: "('s \<Rightarrow> bool) \<Rightarrow> (uchar \<Rightarrow> 's \<Rightarrow> 's) \<Rightarrow> uchar list \<Rightarrow> 's \<Rightarrow> uchar list \<times> 's" where
  "put_all full put [] s = ([], s)"
| "put_all full put (c # cs) s = (if full s then (c # cs, s) else put_all full put cs (put c s))"

primrec get_upto :: "('s \<Rightarrow> (uchar \<times> 's) option) \<Rightarrow> nat \<Rightarrow> 's \<Rightarrow> uchar list \<times> 's" where
  "get_upto get 0 s = ([], s)"
| "get_upto get (Suc n) s =
     (case get s of None \<Rightarrow> ([], s) | Some (c, s) \<Rightarrow> case get_upto get n s of (cs, s) \<Rightarrow> (c # cs, s))"

locale byte_queue =
  fixes inv :: "'s \<Rightarrow> bool"
    and contents :: "'s \<Rightarrow> uchar list"
    and cap :: nat
    and full :: "'s \<Rightarrow> bool"
    and put :: "uchar \<Rightarrow> 's \<Rightarrow> 's"
    and get :: "'s \<Rightarrow> (uchar \<times> 's) option"
  assumes bounded: "inv s \<Longrightarrow> length (contents s) \<le> cap"
    and full_iff: "inv s \<Longrightarrow> full s \<longleftrightarrow> length (contents s) = cap"
    and put_inv: "inv s \<Longrightarrow> \<not> full s \<Longrightarrow> inv (put c s)"
    and put_contents: "inv s \<Longrightarrow> \<not> full s \<Longrightarrow> contents (put c s) = contents s @ [c]"
    and get_None: "inv s \<Longrightarrow> get s = None \<longleftrightarrow> contents s = []"
    and get_Some: "inv s \<Longrightarrow> get s = Some (c, s') \<Longrightarrow> inv s' \<and> contents s = c # contents s'"
begin

lemma put_all_spec:
  assumes "inv s" and "put_all full put cs s = (rest, s')"
  shows "inv s' \<and> contents s' = contents s @ take (cap - length (contents s)) cs \<and> rest = drop (cap - length (contents s)) cs"
  using assms
proof (induction cs arbitrary: s)
  case Nil
  then show ?case by simp
next
  case (Cons c cs)
  show ?case
  proof (cases "full s")
    case True
    then show ?thesis using Cons.prems full_iff [OF Cons.prems(1)] by auto
  next
    case False
    then have lt: "length (contents s) < cap" using bounded [OF Cons.prems(1)] full_iff [OF Cons.prems(1)] by simp
    have p: "inv (put c s)" "contents (put c s) = contents s @ [c]" using put_inv put_contents Cons.prems(1) False by auto
    have "put_all full put cs (put c s) = (rest, s')" using Cons.prems(2) False by simp
    from Cons.IH [OF p(1) this] have IH: "inv s'" "contents s' = contents s @ c # take (cap - Suc (length (contents s))) cs"
      "rest = drop (cap - Suc (length (contents s))) cs" unfolding p(2) by simp_all
    have "cap - length (contents s) = Suc (cap - Suc (length (contents s)))" using lt by simp
    then show ?thesis using IH by (simp del: diff_Suc_Suc)
  qed
qed

lemma get_upto_spec:
  assumes "inv s" and "get_upto get n s = (cs, s')"
  shows "inv s' \<and> cs = take n (contents s) \<and> contents s' = drop n (contents s)"
  using assms
proof (induction n arbitrary: s cs s')
  case 0
  then show ?case by simp
next
  case (Suc n)
  show ?case
  proof (cases "get s")
    case None
    then show ?thesis using Suc.prems get_None [OF Suc.prems(1)] by simp
  next
    case (Some a)
    obtain c t where a: "a = (c, t)" by (cases a)
    have t: "inv t" "contents s = c # contents t" using get_Some Suc.prems(1) Some a by auto
    obtain ds u where u: "get_upto get n t = (ds, u)" by (cases "get_upto get n t")
    from Suc.IH [OF t(1) u] show ?thesis using Suc.prems(2) Some a u t by auto
  qed
qed

text \<open>First in, first out: what does not fit stays with the writer, the reader gets the oldest bytes.\<close>

lemma fifo:
  assumes "inv s" and "put_all full put cs s = (rest, t)" and "get_upto get n t = (ds, u)"
  shows "inv u \<and> ds @ contents u @ rest = contents s @ cs \<and> length ds = min n (length (contents s) + length cs - length rest)"
proof -
  have p: "inv t" "contents t = contents s @ take (cap - length (contents s)) cs" "rest = drop (cap - length (contents s)) cs"
    using put_all_spec [OF assms(1,2)] by simp_all
  have g: "inv u" "ds = take n (contents t)" "contents u = drop n (contents t)"
    using get_upto_spec [OF p(1) assms(3)] by simp_all
  have "ds @ contents u = contents t" unfolding g(2,3) by (rule append_take_drop_id)
  moreover have "contents t @ rest = contents s @ cs" unfolding p(2,3) by simp
  moreover have "length ds = min n (length (contents s) + length cs - length rest)" unfolding g(2) p(2,3) by (simp add: min_def) arith
  ultimately show ?thesis using g(1) by (metis append_assoc)
qed

end

end
