(* ===== verification/Console.thy ===== *)
theory Console
  imports Log Ring
begin

section \<open>The console: output, formatting and line editing (console.c, uart.c, kbd.c, kbd.h)\<close>

text \<open>
  The console state: \<open>panicked\<close> and \<open>cons_locking\<close> as in the code, the serial port (whether it is
  there, and the bytes sent to it), the CGA text memory \<open>crt\<close> (one 16-bit cell per index), the
  hardware cursor position, and the input ring buffer with its 32-bit indices \<^verbatim>\<open>r\<close>, \<^verbatim>\<open>w\<close>, \<^verbatim>\<open>e\<close>.
  The polling of the serial line status and the port protocol of the cursor registers are the
  hardware's; what \<^verbatim>\<open>getc\<close> reads from the ports is an argument of the interrupt handlers.

  The arguments of \<^verbatim>\<open>cprintf\<close> are a list of numbers and strings (a null string pointer is
  \<open>None\<close>); reading an argument that is not there, or one of the other kind, is \<open>Undef\<close>.
\<close>

record cons_st = log_st +
  panicked :: bool
  cons_locking :: bool
  uart :: bool
  uart_out :: "uchar list"
  crt :: "nat \<Rightarrow> ushort"
  cursor :: nat
  kbd_shift :: uint
  input_buf :: "uchar list"
  input_r :: uint
  input_w :: uint
  input_e :: uint

subsection \<open>Putting a character on the screen and the serial line\<close>

definition BACKSPACE :: int where "BACKSPACE = 0x100"

definition uartputc :: "int \<Rightarrow> 'z cons_st_scheme \<Rightarrow> 'z cons_st_scheme" where
  "uartputc c s = (if uart s then s\<lparr>uart_out := uart_out s @ [of_int c]\<rparr> else s)"

text \<open>The cursor position and the cells after \<^verbatim>\<open>c\<close> is put at \<^verbatim>\<open>pos\<close>, and after scrolling up.\<close>

definition cga_put :: "int \<Rightarrow> nat \<Rightarrow> (nat \<Rightarrow> ushort) \<Rightarrow> nat \<times> (nat \<Rightarrow> ushort)" where
  "cga_put c pos cells =
     (if c = 10 then (pos + (80 - pos mod 80), cells)
      else if c = BACKSPACE then (if pos > 0 then pos - 1 else pos, cells)
      else (pos + 1, cells(pos := (of_int c AND 0xff) OR 0x0700)))"

definition cga_scroll :: "nat \<Rightarrow> (nat \<Rightarrow> ushort) \<Rightarrow> nat \<times> (nat \<Rightarrow> ushort)" where
  "cga_scroll pos cells =
     (if pos div 80 \<ge> 24 then
        let up = (\<lambda>i. if i < 23 * 80 then cells (i + 80) else cells i); pos = pos - 80
        in (pos, \<lambda>i. if pos \<le> i \<and> i < 24 * 80 then 0 else up i)
      else (pos, cells))"

definition cgaputc :: "int \<Rightarrow> 'z cons_st_scheme \<Rightarrow> 'z cons_st_scheme res" where
  "cgaputc c s =
     (case cga_put c (cursor s) (crt s) of (pos, cells) \<Rightarrow>
      if pos > 25 * 80 then Panic ''pos under/overflow''
      else case cga_scroll pos cells of (pos, cells) \<Rightarrow>
        Ok (s\<lparr>crt := cells(pos := 0x0720), cursor := pos\<rparr>))"

definition consputc :: "int \<Rightarrow> 'z cons_st_scheme \<Rightarrow> 'z cons_st_scheme res" where
  "consputc c s =
     (if panicked s then Diverge
      else cgaputc c (if c = BACKSPACE then uartputc 8 (uartputc 32 (uartputc 8 s)) else uartputc c s))"

primrec consputs :: "int list \<Rightarrow> 'z cons_st_scheme \<Rightarrow> 'z cons_st_scheme res" where
  "consputs [] s = Ok s"
| "consputs (c # cs) s = rbind (consputc c s) (consputs cs)"

subsection \<open>Formatted output\<close>

definition digits :: "uchar list" where "digits = bytes_of ''0123456789abcdef''"

text \<open>The \<^verbatim>\<open>do ... while\<close> loop of \<^verbatim>\<open>printint\<close>: the digits of \<open>x\<close>, the least significant first. The
  code calls it with the bases 10 and 16.\<close>

function printint_buf :: "uchar list \<Rightarrow> nat \<Rightarrow> nat \<Rightarrow> uchar list" where
  "printint_buf ds base x = ds ! (x mod base) # (if base \<le> 1 \<or> x div base = 0 then [] else printint_buf ds base (x div base))"
  by auto

termination by (relation "measure (\<lambda>(ds, base, x). x)") (auto simp: div_greater_zero_iff)

declare printint_buf.simps [simp del]

text \<open>The buffer \<^verbatim>\<open>buf\<close> when it is printed, last byte first.\<close>

definition printint_chars :: "uchar list \<Rightarrow> uint \<Rightarrow> nat \<Rightarrow> bool \<Rightarrow> uchar list" where
  "printint_chars ds xx base sign =
     (let neg = sign \<and> sint xx < 0; x = (if neg then - xx else xx);
          buf = printint_buf ds base (unat x) @ (if neg then [of_char (CHR ''-'')] else [])
      in rev buf)"

definition printint :: "uint \<Rightarrow> nat \<Rightarrow> bool \<Rightarrow> 'z cons_st_scheme \<Rightarrow> 'z cons_st_scheme res" where
  "printint xx base sign s = consputs (map sint (printint_chars digits xx base sign)) s"

datatype carg = Num uint | Str "uchar list option"

text \<open>The text of a \<^verbatim>\<open>%s\<close> argument.\<close>

definition str_arg :: "uchar list option \<Rightarrow> uchar list" where
  "str_arg p = (case p of None \<Rightarrow> bytes_of ''(null)'' | Some t \<Rightarrow> cstring t)"

fun cprintf_loop :: "uchar list \<Rightarrow> carg list \<Rightarrow> 'z cons_st_scheme \<Rightarrow> 'z cons_st_scheme res" where
  "cprintf_loop [] args s = Ok s"
| "cprintf_loop [c] args s = (if c \<noteq> of_char (CHR ''%'') then consputc (uint c) s else Ok s)"
| "cprintf_loop (c # d # fmt) args s =
     (if c \<noteq> of_char (CHR ''%'') then rbind (consputc (uint c) s) (cprintf_loop (d # fmt) args)
      else if d = of_char (CHR ''d'') then
        (case args of Num n # args \<Rightarrow> rbind (printint n 10 True s) (cprintf_loop fmt args) | _ \<Rightarrow> Undef)
      else if d = of_char (CHR ''x'') \<or> d = of_char (CHR ''p'') then
        (case args of Num n # args \<Rightarrow> rbind (printint n 16 False s) (cprintf_loop fmt args) | _ \<Rightarrow> Undef)
      else if d = of_char (CHR ''s'') then
        (case args of Str t # args \<Rightarrow> rbind (consputs (map sint (str_arg t)) s) (cprintf_loop fmt args) | _ \<Rightarrow> Undef)
      else if d = of_char (CHR ''%'') then rbind (consputc (uint d) s) (cprintf_loop fmt args)
      else rbind (consputs [uint c, uint d] s) (cprintf_loop fmt args))"

definition cprintf :: "uchar list option \<Rightarrow> carg list \<Rightarrow> 'z cons_st_scheme \<Rightarrow> 'z cons_st_scheme res" where
  "cprintf fmt args s =
     (let locking = cons_locking s in
      rbind (if locking then kacquire ConsLock s else Ok s) (\<lambda>s.
      case fmt of
        None \<Rightarrow> Panic ''null fmt''
      | Some fmt \<Rightarrow>
          rbind (cprintf_loop (cstring fmt) args s) (\<lambda>s.
          if locking then krelease ConsLock s else Ok s)))"

subsection \<open>Process listing\<close>

primrec callerpcs :: "nat \<Rightarrow> mem \<Rightarrow> uint \<Rightarrow> uint list" where
  "callerpcs 0 m ebp = []"
| "callerpcs (Suc n) m ebp =
     (if ebp = 0 \<or> ebp < KERNBASE \<or> ebp = 0xffffffff then replicate (Suc n) 0
      else ld32 m (unat ebp + 4) # callerpcs n m (ld32 m (unat ebp)))"

definition getcallerpcs :: "mem \<Rightarrow> uint \<Rightarrow> uint list" where
  "getcallerpcs m v = callerpcs 10 m (v - 8)"

fun dump_state :: "procstate \<Rightarrow> string" where
  "dump_state UNUSED = ''unused''"
| "dump_state EMBRYO = ''embryo''"
| "dump_state SLEEPING = ''sleep ''"
| "dump_state RUNNABLE = ''runble''"
| "dump_state RUNNING = ''run   ''"
| "dump_state ZOMBIE = ''zombie''"

primrec print_pcs :: "uint list \<Rightarrow> 'z cons_st_scheme \<Rightarrow> 'z cons_st_scheme res" where
  "print_pcs [] s = Ok s"
| "print_pcs (pc # pcs) s =
     (if pc = 0 then Ok s else rbind (cprintf (Some (bytes_of '' %p'')) [Num pc] s) (print_pcs pcs))"

text \<open>\<open>ebp\<close> gives the frame pointer saved in the context of a sleeping process.\<close>

primrec procdump_from :: "nat \<Rightarrow> nat \<Rightarrow> (nat \<Rightarrow> uint) \<Rightarrow> 'z cons_st_scheme \<Rightarrow> 'z cons_st_scheme res" where
  "procdump_from 0 i ebp s = Ok s"
| "procdump_from (Suc n) i ebp s =
     (let p = ptable s ! i in
      if p_state p = UNUSED then procdump_from n (Suc i) ebp s
      else rbind (cprintf (Some (bytes_of ''%d %s %s''))
               [Num (of_int (p_pid p)), Str (Some (bytes_of (dump_state (p_state p)))), Str (Some (p_name p))] s) (\<lambda>s.
           rbind (if p_state p = SLEEPING then print_pcs (getcallerpcs (memory s) (ebp i + 8)) s else Ok s) (\<lambda>s.
           rbind (cprintf (Some [10]) [] s) (procdump_from n (Suc i) ebp))))"

definition procdump :: "(nat \<Rightarrow> uint) \<Rightarrow> 'z cons_st_scheme \<Rightarrow> 'z cons_st_scheme res" where
  "procdump ebp s = procdump_from NPROC 0 ebp s"

subsection \<open>Line editing\<close>

definition INPUT_BUF :: nat where "INPUT_BUF = 128"

lemma consputc_input: "consputc c s = Ok t \<Longrightarrow> input_e t = input_e s \<and> input_w t = input_w s \<and> input_r t = input_r s \<and> input_buf t = input_buf s"
  by (auto simp: consputc_def cgaputc_def uartputc_def Let_def split: if_splits prod.splits)

function kill_line :: "'z cons_st_scheme \<Rightarrow> 'z cons_st_scheme res" where
  "kill_line s =
     (if input_e s \<noteq> input_w s \<and> input_buf s ! (unat (input_e s - 1) mod INPUT_BUF) \<noteq> 10
      then rbind (consputc BACKSPACE (s\<lparr>input_e := input_e s - 1\<rparr>)) kill_line else Ok s)"
  by auto

termination
proof (relation "measure (\<lambda>s. unat (input_e s - input_w s))")
  fix s t :: "'z cons_st_scheme"
  assume "input_e s \<noteq> input_w s \<and> input_buf s ! (unat (input_e s - 1) mod INPUT_BUF) \<noteq> 10"
    and "consputc BACKSPACE (s\<lparr>input_e := input_e s - 1\<rparr>) = Ok t"
  then have "input_e s - input_w s \<noteq> 0" "input_e t - input_w t = input_e s - input_w s - 1"
    by (auto dest: consputc_input simp: diff_right_commute)
  then show "(t, s) \<in> measure (\<lambda>s. unat (input_e s - input_w s))"
    by (simp add: measure_unat)
qed simp

declare kill_line.simps [simp del]

text \<open>What one character \<^verbatim>\<open>c\<close> that \<^verbatim>\<open>getc\<close> returns does, and whether it asks for a process listing.\<close>

definition console_key :: "int \<Rightarrow> 'z cons_st_scheme \<Rightarrow> (bool \<times> 'z cons_st_scheme) res" where
  "console_key c s =
     (if c = 16 then Ok (True, s)
      else if c = 21 then rbind (kill_line s) (\<lambda>s. Ok (False, s))
      else if c = 8 \<or> c = 0x7f then
        (if input_e s \<noteq> input_w s
         then rbind (consputc BACKSPACE (s\<lparr>input_e := input_e s - 1\<rparr>)) (\<lambda>s. Ok (False, s))
         else Ok (False, s))
      else if c \<noteq> 0 \<and> input_e s - input_r s < of_nat INPUT_BUF then
        let c = (if c = 13 then 10 else c);
            s = s\<lparr>input_buf := (input_buf s)[unat (input_e s) mod INPUT_BUF := of_int c], input_e := input_e s + 1\<rparr> in
        rbind (consputc c s) (\<lambda>s.
        if c = 10 \<or> c = 4 \<or> input_e s = input_r s + of_nat INPUT_BUF
        then rbind (wakeup ChanInput (s\<lparr>input_w := input_e s\<rparr>)) (\<lambda>s. Ok (False, s))
        else Ok (False, s))
      else Ok (False, s))"

text \<open>The loop of \<^verbatim>\<open>consoleintr\<close>: \<open>keys\<close> are the results of \<^verbatim>\<open>getc\<close>, up to the first negative one.\<close>

primrec console_keys :: "int list \<Rightarrow> bool \<Rightarrow> 'z cons_st_scheme \<Rightarrow> (bool \<times> 'z cons_st_scheme) res" where
  "console_keys [] dump s = Ok (dump, s)"
| "console_keys (c # cs) dump s =
     (if c < 0 then Ok (dump, s) else rbind (console_key c s) (\<lambda>(d, s). console_keys cs (dump \<or> d) s))"

definition consoleintr :: "int list \<Rightarrow> (nat \<Rightarrow> uint) \<Rightarrow> 'z cons_st_scheme \<Rightarrow> 'z cons_st_scheme res" where
  "consoleintr keys ebp s =
     rbind (kacquire ConsLock s) (\<lambda>s.
     rbind (console_keys keys False s) (\<lambda>(doprocdump, s).
     rbind (krelease ConsLock s) (\<lambda>s.
     if doprocdump then procdump ebp s else Ok s)))"

text \<open>The copying loop of \<^verbatim>\<open>consoleread\<close>, \<open>n\<close> bytes still wanted and \<open>acc\<close> copied: whether it has ended
  or must wait for input, the bytes copied, and the state.\<close>

fun consoleread_loop :: "nat \<Rightarrow> uchar list \<Rightarrow> 'z cons_st_scheme \<Rightarrow> bool \<times> uchar list \<times> 'z cons_st_scheme" where
  "consoleread_loop 0 acc s = (True, acc, s)"
| "consoleread_loop (Suc n) acc s =
     (if input_r s = input_w s then (False, acc, s)
      else let c = input_buf s ! (unat (input_r s) mod INPUT_BUF); s = s\<lparr>input_r := input_r s + 1\<rparr> in
        if c = 4 then (True, acc, if acc \<noteq> [] then s\<lparr>input_r := input_r s - 1\<rparr> else s)
        else if c = 10 then (True, acc @ [c], s)
        else consoleread_loop n (acc @ [c]) s)"

subsection \<open>The serial port and the keyboard\<close>

text \<open>One reading of the serial port: the line status and, when it has data, the data register.\<close>

definition uartgetc :: "bool \<Rightarrow> uchar \<times> uchar \<Rightarrow> int" where
  "uartgetc present io = (if \<not> present then -1 else if fst io AND 1 = 0 then -1 else uint (snd io))"

definition uartintr :: "(uchar \<times> uchar) list \<Rightarrow> (nat \<Rightarrow> uint) \<Rightarrow> 'z cons_st_scheme \<Rightarrow> 'z cons_st_scheme res" where
  "uartintr ios ebp s = consoleintr (map (uartgetc (uart s)) ios) ebp s"

text \<open>\<^verbatim>\<open>status\<close> is what the line status register reads.\<close>

definition uartinit :: "uchar \<Rightarrow> 'z cons_st_scheme \<Rightarrow> 'z cons_st_scheme" where
  "uartinit status s =
     (if status = 0xFF then s
      else fold (\<lambda>c. uartputc (sint c)) (bytes_of ''xv6...'' @ [10]) (s\<lparr>uart := True\<rparr>))"

definition SHIFT :: uint where "SHIFT = 1"
definition CTL :: uint where "CTL = 2"
definition ALT :: uint where "ALT = 4"
definition CAPSLOCK :: uint where "CAPSLOCK = 8"
definition NUMLOCK :: uint where "NUMLOCK = 16"
definition SCROLLLOCK :: uint where "SCROLLLOCK = 32"
definition E0ESC :: uint where "E0ESC = 64"

text \<open>A table with designated initialisers: the entries listed from 0 on, then those at an index; the
  rest are 0.\<close>

definition table :: "uchar list \<Rightarrow> (nat \<times> uchar) list \<Rightarrow> nat \<Rightarrow> uchar" where
  "table row at i = (case map_of at i of Some c \<Rightarrow> c | None \<Rightarrow> if i < length row then row ! i else 0)"

definition shiftcode :: "nat \<Rightarrow> uint" where
  "shiftcode i = (case map_of [(0x1D, CTL), (0x2A, SHIFT), (0x36, SHIFT), (0x38, ALT), (0x9D, CTL), (0xB8, ALT)] i of
     Some c \<Rightarrow> c | None \<Rightarrow> 0)"

definition togglecode :: "nat \<Rightarrow> uint" where
  "togglecode i = (case map_of [(0x3A, CAPSLOCK), (0x45, NUMLOCK), (0x46, SCROLLLOCK)] i of Some c \<Rightarrow> c | None \<Rightarrow> 0)"

text \<open>\<^verbatim>\<open>KEY_UP\<close>, \<^verbatim>\<open>KEY_DN\<close>, \<^verbatim>\<open>KEY_PGUP\<close>, \<^verbatim>\<open>KEY_PGDN\<close>, \<^verbatim>\<open>KEY_LF\<close>, \<^verbatim>\<open>KEY_RT\<close>, \<^verbatim>\<open>KEY_HOME\<close>, \<^verbatim>\<open>KEY_END\<close>, \<^verbatim>\<open>KEY_INS\<close>, \<^verbatim>\<open>KEY_DEL\<close>:
  the part the three maps share.\<close>

definition special_keys :: "(nat \<times> uchar) list" where
  "special_keys = [(0xC8, 0xE2), (0xD0, 0xE3), (0xC9, 0xE6), (0xD1, 0xE7), (0xCB, 0xE4), (0xCD, 0xE5), (0x97, 0xE0),
     (0xCF, 0xE1), (0xD2, 0xE8), (0xD3, 0xE9)]"

definition normalmap :: "nat \<Rightarrow> uchar" where
  "normalmap = table
     ([0, 0x1B] @ bytes_of ''1234567890-='' @ [8, 9] @ bytes_of ''qwertyuiop[]'' @ [10, 0] @ bytes_of ''asdfghjkl;'' @
      [39, 96, 0, 92] @ bytes_of ''zxcvbnm,./'' @ [0] @ bytes_of ''*'' @ [0, 32, 0, 0, 0, 0, 0, 0] @
      [0, 0, 0, 0, 0, 0, 0] @ bytes_of ''789-456+1230.'' @ [0, 0, 0, 0])
     ([(0x9C, 10), (0xB5, 47)] @ special_keys)"

definition shiftmap :: "nat \<Rightarrow> uchar" where
  "shiftmap = table
     ([0, 27] @ bytes_of ''!@#$%^&*()_+'' @ [8, 9] @ bytes_of ''QWERTYUIOP{}'' @ [10, 0] @ bytes_of ''ASDFGHJKL:'' @
      [34, 126, 0, 124] @ bytes_of ''ZXCVBNM<>?'' @ [0] @ bytes_of ''*'' @ [0, 32, 0, 0, 0, 0, 0, 0] @
      [0, 0, 0, 0, 0, 0, 0] @ bytes_of ''789-456+1230.'' @ [0, 0, 0, 0])
     ([(0x9C, 10), (0xB5, 47)] @ special_keys)"

text \<open>\<^verbatim>\<open>C('/')\<close> is negative and wraps to 0xEF as a \<^verbatim>\<open>uchar\<close>.\<close>

definition ctl :: "char \<Rightarrow> uchar" where "ctl x = of_char x - of_char (CHR ''@'')"

definition ctlmap :: "nat \<Rightarrow> uchar" where
  "ctlmap = table
     (replicate 16 0 @ map ctl ''QWERTYUIOP'' @ [0, 0, 13, 0] @ map ctl ''ASDFGHJKL'' @ [0, 0, 0, 0, 28] @
      map ctl ''ZXCVBNM'' @ [0, 0] @ map ctl ''/'' @ [0, 0])
     ([(0x9C, 13), (0xB5, ctl (CHR ''/''))] @ special_keys)"

text \<open>One call of \<^verbatim>\<open>kbdgetc\<close> on the status \<open>st\<close> and the data byte of the controller.\<close>

definition charcode :: "uint \<Rightarrow> nat \<Rightarrow> uchar" where
  "charcode m = (if m = 0 then normalmap else if m = SHIFT then shiftmap else ctlmap)"

definition kbdgetc :: "uchar \<times> uchar \<Rightarrow> uint \<Rightarrow> int \<times> uint" where
  "kbdgetc io shift =
     (case io of (st, d) \<Rightarrow>
      let data = ucast d :: uint in
      if st AND 1 = 0 then (-1, shift)
      else if data = 0xE0 then (0, shift OR E0ESC)
      else if data AND 0x80 \<noteq> 0 then
        let data = (if shift AND E0ESC \<noteq> 0 then data else data AND 0x7F)
        in (0, shift AND NOT (shiftcode (unat data) OR E0ESC))
      else
        let (data, shift) = (if shift AND E0ESC \<noteq> 0 then (data OR 0x80, shift AND NOT E0ESC) else (data, shift));
            shift = shift OR shiftcode (unat data);
            shift = shift XOR togglecode (unat data);
            c = uint (charcode (shift AND (CTL OR SHIFT)) (unat data));
            c = (if shift AND CAPSLOCK \<noteq> 0 then
                   (if 97 \<le> c \<and> c \<le> 122 then c - 32 else if 65 \<le> c \<and> c \<le> 90 then c + 32 else c)
                 else c)
        in (c, shift))"

primrec kbd_keys :: "(uchar \<times> uchar) list \<Rightarrow> uint \<Rightarrow> int list \<times> uint" where
  "kbd_keys [] shift = ([], shift)"
| "kbd_keys (io # ios) shift =
     (case kbdgetc io shift of (c, shift) \<Rightarrow>
      if c < 0 then ([c], shift) else case kbd_keys ios shift of (cs, shift) \<Rightarrow> (c # cs, shift))"

definition kbdintr :: "(uchar \<times> uchar) list \<Rightarrow> (nat \<Rightarrow> uint) \<Rightarrow> 'z cons_st_scheme \<Rightarrow> 'z cons_st_scheme res" where
  "kbdintr ios ebp s =
     (case kbd_keys ios (kbd_shift s) of (keys, shift) \<Rightarrow> consoleintr keys ebp (s\<lparr>kbd_shift := shift\<rparr>))"

section \<open>Printing\<close>

text \<open>A state of the console in which printing works: nobody has panicked and the cursor is in the
  first 24 rows.\<close>

definition screen_ok :: "'z cons_st_scheme \<Rightarrow> bool" where
  "screen_ok s \<longleftrightarrow> \<not> panicked s \<and> cursor s < 24 * 80"

text \<open>The bytes that \<^verbatim>\<open>consputc\<close> sends to the serial port.\<close>

definition uart_bytes :: "int \<Rightarrow> uchar list" where
  "uart_bytes c = (if c = BACKSPACE then [8, 32, 8] else [of_int c])"

lemma uartputc_eq: "uartputc c s = s\<lparr>uart_out := uart_out s @ (if uart s then [of_int c] else [])\<rparr>"
  by (simp add: uartputc_def)

lemma cga_put_bound:
  assumes "pos < 1920" and "cga_put c pos cells = (q, cells')"
  shows "q < 2000" and "c \<noteq> 10 \<Longrightarrow> c \<noteq> BACKSPACE \<Longrightarrow> q = pos + 1 \<and> cells' pos = (of_int c AND 0xff) OR 0x0700"
proof -
  have "pos div 80 < 24" using assms(1) by (simp add: less_mult_imp_div_less)
  moreover have "80 * (pos div 80) + pos mod 80 = pos" by (rule mult_div_mod_eq)
  moreover have "pos mod 80 < 80" by simp
  ultimately have "pos + (80 - pos mod 80) < 2000" by linarith
  then show "q < 2000" using assms by (auto simp: cga_put_def split: if_splits)
  show "c \<noteq> 10 \<Longrightarrow> c \<noteq> BACKSPACE \<Longrightarrow> q = pos + 1 \<and> cells' pos = (of_int c AND 0xff) OR 0x0700"
    using assms(2) by (auto simp: cga_put_def)
qed

lemma cga_scroll_bound:
  assumes "q < 2000" and "cga_scroll q cells = (r, cells')"
  shows "r < 1920" and "q \<le> 1920 \<Longrightarrow> 0 < q \<Longrightarrow> 0 < r \<and> cells' (r - 1) = cells (q - 1)"
proof -
  have d: "q div 80 \<ge> 24 \<longleftrightarrow> q \<ge> 1920" by (simp add: less_eq_div_iff_mult_less_eq)
  show "r < 1920" using assms by (auto simp: cga_scroll_def d Let_def split: if_splits)
  show "0 < r \<and> cells' (r - 1) = cells (q - 1)" if "q \<le> 1920" "0 < q"
    using assms(2) that by (auto simp: cga_scroll_def d Let_def split: if_splits)
qed

text \<open>Printing one character changes the serial output, the screen and the cursor, nothing else.\<close>

lemma consputc_eq:
  assumes "screen_ok s"
  shows "\<exists>cells pos. consputc c s = Ok (s\<lparr>uart_out := uart_out s @ (if uart s then uart_bytes c else []), crt := cells, cursor := pos\<rparr>) \<and>
    pos < 24 * 80 \<and> (c \<noteq> 10 \<longrightarrow> c \<noteq> BACKSPACE \<longrightarrow> 0 < pos \<and> cells (pos - 1) = (of_int c AND 0xff) OR 0x0700)"
proof -
  have p: "cursor s < 1920" and np: "\<not> panicked s" using assms by (simp_all add: screen_ok_def)
  let ?t = "if c = BACKSPACE then uartputc 8 (uartputc 32 (uartputc 8 s)) else uartputc c s"
  have t: "?t = s\<lparr>uart_out := uart_out s @ (if uart s then uart_bytes c else [])\<rparr>"
    by (simp add: uartputc_eq uart_bytes_def)
  obtain q cells where q: "cga_put c (cursor s) (crt s) = (q, cells)" by (cases "cga_put c (cursor s) (crt s)")
  obtain r cells' where r: "cga_scroll q cells = (r, cells')" by (cases "cga_scroll q cells")
  note qb = cga_put_bound [OF p q]
  note rb = cga_scroll_bound [OF qb(1) r]
  have "consputc c s = Ok (s\<lparr>uart_out := uart_out s @ (if uart s then uart_bytes c else []), crt := cells'(r := 0x0720), cursor := r\<rparr>)"
    unfolding consputc_def if_not_P [OF np] t cgaputc_def using qb(1) q r by simp
  moreover have "0 < r \<and> (cells'(r := 0x0720)) (r - 1) = (of_int c AND 0xff) OR 0x0700" if "c \<noteq> 10" "c \<noteq> BACKSPACE"
    using qb(2) [OF that] rb(2) p by auto
  moreover have "r < 24 * 80" using rb(1) by simp
  ultimately show ?thesis by (intro exI conjI impI) (assumption | simp)+
qed

lemma consputc_screen_ok: "screen_ok s \<Longrightarrow> \<exists>s'. consputc c s = Ok s' \<and> screen_ok s'"
  using consputc_eq [of s c] by (auto simp: screen_ok_def)

text \<open>
  C23. Printing cannot leave the screen: while nobody has panicked and the cursor is in the first 24
  rows, writing any characters to the console returns, leaves the cursor there, sends exactly their
  bytes to the serial port if there is one, and after a printable character the cell before the
  cursor shows it, also when the screen scrolls.
\<close>

theorem console_output_stays_on_screen:
  assumes "screen_ok s"
  shows "\<exists>s'. consputs cs s = Ok s' \<and> screen_ok s' \<and>
    uart_out s' = uart_out s @ (if uart s then concat (map uart_bytes cs) else []) \<and>
    (cs \<noteq> [] \<and> last cs \<noteq> 10 \<and> last cs \<noteq> BACKSPACE \<longrightarrow> 0 < cursor s' \<and> crt s' (cursor s' - 1) = (of_int (last cs) AND 0xff) OR 0x0700) \<and>
    mach s' = mach s \<and> ptable s' = ptable s \<and> input_buf s' = input_buf s \<and> input_e s' = input_e s"
  using assms
proof (induction cs arbitrary: s)
  case Nil
  then show ?case by simp
next
  case (Cons c cs)
  obtain cells pos where c: "consputc c s = Ok (s\<lparr>uart_out := uart_out s @ (if uart s then uart_bytes c else []), crt := cells, cursor := pos\<rparr>)"
    (is "_ = Ok ?t") "pos < 24 * 80" "c \<noteq> 10 \<longrightarrow> c \<noteq> BACKSPACE \<longrightarrow> 0 < pos \<and> cells (pos - 1) = (of_int c AND 0xff) OR 0x0700"
    using consputc_eq [OF Cons.prems, of c] by blast
  have "screen_ok ?t" using c(2) Cons.prems by (simp add: screen_ok_def)
  from Cons.IH [OF this] c show ?case by (cases "cs = []") auto
qed

section \<open>Numbers\<close>

lemma printint_buf_length:
  assumes "x < base ^ n" and "0 < n" and "1 < base"
  shows "length (printint_buf ds base x) \<le> n"
  using assms
proof (induction ds base x arbitrary: n rule: printint_buf.induct)
  case (1 ds base x)
  show ?case
  proof (cases "base \<le> 1 \<or> x div base = 0")
    case True
    then show ?thesis using 1 by (subst printint_buf.simps) simp
  next
    case False
    obtain k where n: "n = Suc k" using 1 by (cases n) auto
    have "x div base < base ^ k" using 1 n by (simp add: less_mult_imp_div_less mult.commute)
    moreover have "0 < k" using calculation False by (cases k) auto
    ultimately have "length (printint_buf ds base (x div base)) \<le> k" using 1 False by simp
    then show ?thesis using False n by (subst printint_buf.simps) simp
  qed
qed

lemma atoi_from_append:
  assumes "\<forall>c\<in>set xs. 48 \<le> c \<and> c \<le> 57"
  shows "atoi_from n (xs @ ys) = atoi_from (atoi_from n xs) ys"
  using assms by (induction xs arbitrary: n) auto

lemma digit_nth: "d < 10 \<Longrightarrow> digits ! d = of_nat (48 + d)"
proof -
  assume "d < 10"
  then have "d \<in> set [0..<10]" by simp
  moreover have "\<forall>d\<in>set [0..<10]. digits ! d = of_nat (48 + d)" by code_simp
  ultimately show ?thesis by blast
qed

lemma unat_digit: "d < 10 \<Longrightarrow> unat (digits ! d) = 48 + d"
  by (simp add: digit_nth unat_word_ariths unsigned_of_nat take_bit_nat_eq_self)

lemma printint_buf_digits: "c \<in> set (printint_buf digits 10 x) \<Longrightarrow> 48 \<le> c \<and> c \<le> 57"
proof (induction digits "10::nat" x rule: printint_buf.induct)
  case (1 x)
  have "48 \<le> digits ! (x mod 10) \<and> digits ! (x mod 10) \<le> 57"
    using unat_digit [of "x mod 10"] by (simp add: word_le_nat_alt)
  then show ?case using 1 by (subst (asm) printint_buf.simps) (auto split: if_splits)
qed

text \<open>The number a string of digits denotes.\<close>

definition digit_value :: "uchar \<Rightarrow> nat" where
  "digit_value c = (case first_index (\<lambda>d. d = c) digits of Some i \<Rightarrow> i | None \<Rightarrow> 0)"

definition number :: "nat \<Rightarrow> uchar list \<Rightarrow> nat" where
  "number base cs = foldl (\<lambda>v c. v * base + digit_value c) 0 cs"

lemma digit_value_nth: "d < 16 \<Longrightarrow> digit_value (digits ! d) = d"
proof -
  assume "d < 16"
  then have "d \<in> set [0..<16]" by simp
  moreover have "\<forall>d\<in>set [0..<16]. digit_value (digits ! d) = d" by code_simp
  ultimately show ?thesis by blast
qed

lemma number_printint_buf:
  assumes "1 < base" and "base \<le> 16"
  shows "number base (rev (printint_buf digits base x)) = x"
  using assms
proof (induction digits base x rule: printint_buf.induct)
  case (1 base x)
  have "x mod base < base" using 1(2) by simp
  then have d: "digit_value (digits ! (x mod base)) = x mod base" using 1(3) by (intro digit_value_nth) simp
  show ?case
  proof (cases "x div base = 0")
    case True
    then show ?thesis using 1(2) d by (subst printint_buf.simps) (simp add: number_def div_eq_0_iff)
  next
    case False
    then have "number base (rev (printint_buf digits base (x div base))) = x div base" using 1 by simp
    then show ?thesis using 1(2) False d by (subst printint_buf.simps) (simp add: number_def)
  qed
qed

text \<open>\<^verbatim>\<open>atoi\<close> reads a decimal number that fits an \<^verbatim>\<open>int\<close>.\<close>

lemma atoi_printint_buf: "x < 2147483648 \<Longrightarrow> atoi (rev (printint_buf digits 10 x)) = int x"
proof (induction digits "10::nat" x rule: printint_buf.induct)
  case (1 x)
  have "x mod 10 \<le> 9" by simp
  then have d: "atoi_from k [digits ! (x mod 10)] = int32 (k * 10 + int (x mod 10))" for k
    using unat_digit [of "x mod 10"] by (simp add: word_le_nat_alt)
  show ?case
  proof (cases "x div 10 = 0")
    case True
    then have "x mod 10 = x" by (simp add: div_eq_0_iff)
    then show ?thesis using True d [of 0] 1(2) by (subst printint_buf.simps) (simp add: atoi_def int32_id)
  next
    case False
    have "atoi (rev (printint_buf digits 10 x)) = atoi_from (atoi (rev (printint_buf digits 10 (x div 10)))) [digits ! (x mod 10)]"
      using False printint_buf_digits by (subst printint_buf.simps) (simp add: atoi_def atoi_from_append)
    also have "\<dots> = int32 (int (x div 10) * 10 + int (x mod 10))" using 1 False d by simp
    also have "int (x div 10) * 10 + int (x mod 10) = int x" by presburger
    finally show ?thesis using 1(2) by (simp add: int32_id)
  qed
qed

lemma sint_unat: "if sint x < 0 then int (unat (- x)) = - sint x else int (unat (x :: uint)) = sint x"
proof -
  have s: "sint x = (uint x + 2 ^ 31) mod 2 ^ 32 - 2 ^ 31" using int_word_sint [of "uint x", where 'a = 32] by simp
  have lt: "uint x < 4294967296" "0 \<le> uint x" using uint_lt2p [of x] by simp_all
  have s': "sint x = (if uint x < 2147483648 then uint x else uint x - 4294967296)"
  proof (cases "uint x < 2147483648")
    case False
    have "(uint x + 2147483648) mod 4294967296 = (uint x + 2147483648 - 4294967296) mod 4294967296"
      by (rule minus_mod_self2 [symmetric])
    also have "\<dots> = uint x + 2147483648 - 4294967296" using lt False by (intro mod_pos_pos_trivial) linarith+
    finally show ?thesis using s False by simp
  qed (use s lt in simp)
  have n: "uint (- x) = (- uint x) mod 4294967296" by (simp add: uint_word_ariths)
  show ?thesis using s' lt n by (auto simp: zmod_zminus1_eq_if)
qed

text \<open>
  C24. \<^verbatim>\<open>printint\<close> never writes past its buffer of 16 bytes, for every 32-bit value and both bases the
  kernel uses, and prints digits that denote the value. A signed number that is not negative reads
  back with \<^verbatim>\<open>atoi\<close>; a negative one is printed as a minus sign and its absolute value, and \<^verbatim>\<open>atoi\<close>, which
  stops at the sign, reads it as 0.
\<close>

theorem printint_fits_and_reads_back:
  "length (printint_chars digits x 10 sign) \<le> 11 \<and> length (printint_chars digits x 16 sign) \<le> 9 \<and>
   number 10 (printint_chars digits x 10 False) = unat x \<and> number 16 (printint_chars digits x 16 False) = unat x \<and>
   (if sint x < 0 then printint_chars digits x 10 True = of_char (CHR ''-'') # printint_chars digits (- x) 10 False \<and> int (unat (- x)) = - sint x \<and>
      atoi (printint_chars digits x 10 True) = 0
    else printint_chars digits x 10 True = printint_chars digits x 10 False \<and> atoi (printint_chars digits x 10 True) = sint x)"
proof -
  have u: "unat y < 2 ^ 32" for y :: uint using unsigned_less [of y] by simp
  have l: "length (printint_buf digits 10 (unat y)) \<le> 10" "length (printint_buf digits 16 (unat y)) \<le> 8" for y :: uint
    using printint_buf_length [of "unat y" 10 10 digits] printint_buf_length [of "unat y" 16 8 digits] u [of y] by simp_all
  have "length (printint_chars digits x 10 sign) \<le> 11" "length (printint_chars digits x 16 sign) \<le> 9"
    using l(1) [of x] l(1) [of "- x"] l(2) [of x] l(2) [of "- x"] by (simp_all add: printint_chars_def Let_def)
  moreover have s: "if sint x < 0 then int (unat (- x)) = - sint x else int (unat x) = sint x" by (rule sint_unat)
  moreover have "unat x < 2147483648" if "\<not> sint x < 0"
  proof -
    have "int (unat x) < 2147483648" using s that sint_less [of x] by simp
    then show ?thesis by linarith
  qed
  moreover have "atoi (45 # cs) = 0" for cs by (simp add: atoi_def)
  ultimately show ?thesis
    by (cases "sint x < 0") (simp_all add: printint_chars_def Let_def atoi_printint_buf number_printint_buf)
qed

section \<open>Line editing\<close>

text \<open>The line being typed is \<open>cur\<close>, and everything before it has been read.\<close>

definition typing :: "uchar list \<Rightarrow> 'z cons_st_scheme \<Rightarrow> bool" where
  "typing cur s \<longleftrightarrow> screen_ok s \<and> length (input_buf s) = INPUT_BUF \<and> input_w s = input_r s \<and>
     ring INPUT_BUF (input_buf s) (input_r s) (input_e s) = cur \<and> length cur < INPUT_BUF"

text \<open>What a key does to the line: \<^verbatim>\<open>^U\<close> erases it, \<^verbatim>\<open>^H\<close> and delete take back the last character.\<close>

definition edit_key :: "int \<Rightarrow> uchar list \<Rightarrow> uchar list" where
  "edit_key c cur = (if c = 21 then [] else if c = 8 \<or> c = 0x7f then butlast cur else if c = 0 then cur else cur @ [of_int c])"

definition plain_key :: "int \<Rightarrow> bool" where
  "plain_key c \<longleftrightarrow> 0 \<le> c \<and> c < 256 \<and> c \<noteq> 4 \<and> c \<noteq> 10 \<and> c \<noteq> 13 \<and> c \<noteq> 16"

lemma ring_props: "INPUT_BUF dvd 2 ^ 32" "INPUT_BUF < 2 ^ 32" "0 < INPUT_BUF"
  by (simp_all add: INPUT_BUF_def)

lemma typing_len: "typing cur s \<Longrightarrow> unat (input_e s - input_r s) = length cur"
  by (auto simp: typing_def)

lemma typing_ne: "typing cur s \<Longrightarrow> input_e s \<noteq> input_w s \<longleftrightarrow> cur \<noteq> []"
  using ring_Nil_iff [of INPUT_BUF "input_buf s" "input_r s" "input_e s"] by (auto simp: typing_def)

lemma put_typing:
  assumes "screen_ok s"
  obtains t where "consputc c s = Ok t" "screen_ok t" "input_buf t = input_buf s" "input_r t = input_r s" "input_w t = input_w s"
    "input_e t = input_e s" "mach t = mach s" "ptable t = ptable s"
proof -
  obtain cells pos where "consputc c s = Ok (s\<lparr>uart_out := uart_out s @ (if uart s then uart_bytes c else []), crt := cells, cursor := pos\<rparr>)"
    "pos < 24 * 80" using consputc_eq [OF assms, of c] by blast
  then show thesis using assms by (intro that [of "s\<lparr>uart_out := uart_out s @ (if uart s then uart_bytes c else []), crt := cells, cursor := pos\<rparr>"])
    (simp_all add: screen_ok_def)
qed

lemma backspace_typing:
  assumes "typing cur s" and "cur \<noteq> []"
  shows "\<exists>t. consputc BACKSPACE (s\<lparr>input_e := input_e s - 1\<rparr>) = Ok t \<and> typing (butlast cur) t \<and> mach t = mach s \<and> ptable t = ptable s"
proof -
  let ?u = "s\<lparr>input_e := input_e s - 1\<rparr>"
  have u: "screen_ok ?u" using assms by (simp add: typing_def screen_ok_def)
  obtain t where t: "consputc BACKSPACE ?u = Ok t" "screen_ok t" "input_buf t = input_buf s" "input_r t = input_r s" "input_w t = input_w s"
    "input_e t = input_e s - 1" "mach t = mach s" "ptable t = ptable s"
    by (rule put_typing [OF u, of BACKSPACE]) simp
  have "input_r s \<noteq> input_e s" using typing_ne [OF assms(1)] assms by (auto simp: typing_def)
  from ring_unput [OF this, of INPUT_BUF "input_buf s"] have "typing (butlast cur) t"
    using assms t by (auto simp: typing_def)
  then show ?thesis using t by blast
qed

lemma kill_line_typing:
  assumes "typing cur s" and "10 \<notin> set cur"
  shows "\<exists>t. kill_line s = Ok t \<and> typing [] t \<and> mach t = mach s \<and> ptable t = ptable s"
  using assms
proof (induction cur arbitrary: s rule: rev_induct)
  case Nil
  then have "input_e s = input_w s" using typing_ne [OF Nil(1)] by simp
  then show ?case using Nil by (subst kill_line.simps) simp
next
  case (snoc c cur)
  have ne: "input_e s \<noteq> input_w s" using typing_ne [OF snoc.prems(1)] by simp
  have "input_buf s ! (unat (input_e s - 1) mod INPUT_BUF) = c"
    using ring_last [OF _ ring_props(1), of "input_r s" "input_e s" "input_buf s"] ne snoc.prems(1) by (auto simp: typing_def)
  then have go: "input_e s \<noteq> input_w s \<and> input_buf s ! (unat (input_e s - 1) mod INPUT_BUF) \<noteq> 10" using ne snoc.prems(2) by auto
  obtain t where t: "consputc BACKSPACE (s\<lparr>input_e := input_e s - 1\<rparr>) = Ok t" "typing cur t" "mach t = mach s" "ptable t = ptable s"
    using backspace_typing [OF snoc.prems(1)] by auto
  have "10 \<notin> set cur" using snoc.prems(2) by simp
  from snoc.IH [OF t(2) this] show ?case using t go by (subst kill_line.simps) simp
qed

text \<open>A character goes into the ring and on the screen.\<close>

lemma insert_typing:
  assumes "typing cur s"
  shows "\<exists>t. consputc c (s\<lparr>input_buf := (input_buf s)[unat (input_e s) mod INPUT_BUF := of_int c], input_e := input_e s + 1\<rparr>) = Ok t \<and>
    screen_ok t \<and> length (input_buf t) = INPUT_BUF \<and> input_r t = input_r s \<and> input_w t = input_w s \<and> input_e t = input_e s + 1 \<and>
    ring INPUT_BUF (input_buf t) (input_r t) (input_e t) = cur @ [of_int c] \<and> mach t = mach s \<and> ptable t = ptable s"
proof -
  let ?u = "s\<lparr>input_buf := (input_buf s)[unat (input_e s) mod INPUT_BUF := of_int c], input_e := input_e s + 1\<rparr>"
  have u: "screen_ok ?u" using assms by (simp add: typing_def screen_ok_def)
  obtain t where t: "consputc c ?u = Ok t" "screen_ok t" "input_buf t = input_buf ?u" "input_r t = input_r s" "input_w t = input_w s"
    "input_e t = input_e s + 1" "mach t = mach s" "ptable t = ptable s"
    by (rule put_typing [OF u, of c]) simp
  have "unat (input_e s - input_r s) < INPUT_BUF" using typing_len [OF assms] assms by (simp add: typing_def)
  from ring_put [OF ring_props(1,2) _ this, of "input_buf s" "of_int c"]
  have "ring INPUT_BUF (input_buf t) (input_r t) (input_e t) = cur @ [of_int c]" using assms t(3,4,6) by (simp add: typing_def)
  then show ?thesis using t assms by (auto simp: typing_def)
qed

lemma room_typing:
  assumes "typing cur s"
  shows "input_e s - input_r s < of_nat INPUT_BUF"
    and "input_e s + 1 = input_r s + of_nat INPUT_BUF \<longleftrightarrow> Suc (length cur) = INPUT_BUF"
proof -
  have e: "input_e s - input_r s = of_nat (length cur)"
    using arg_cong [OF typing_len [OF assms], of "of_nat :: nat \<Rightarrow> uint"] by simp
  have l: "length cur < 128" using assms by (simp add: typing_def INPUT_BUF_def)
  show "input_e s - input_r s < of_nat INPUT_BUF"
    unfolding e using l by (simp add: word_less_nat_alt INPUT_BUF_def unsigned_of_nat take_bit_nat_eq_self)
  have "input_e s + 1 = input_r s + of_nat INPUT_BUF \<longleftrightarrow> input_e s - input_r s + 1 = of_nat INPUT_BUF" by (auto simp: algebra_simps)
  also have "\<dots> \<longleftrightarrow> Suc (length cur) = INPUT_BUF"
    unfolding e using l by (simp add: word_unat_eq_iff INPUT_BUF_def unat_word_ariths unsigned_of_nat take_bit_nat_eq_self)
  finally show "input_e s + 1 = input_r s + of_nat INPUT_BUF \<longleftrightarrow> Suc (length cur) = INPUT_BUF" .
qed

lemma key_edits:
  assumes ty: "typing cur s" and "Suc (length cur) < INPUT_BUF" and "10 \<notin> set cur" and k: "plain_key c"
  shows "\<exists>t. console_key c s = Ok (False, t) \<and> typing (edit_key c cur) t \<and> mach t = mach s \<and> ptable t = ptable s"
proof -
  consider "c = 21" | "c = 8 \<or> c = 0x7f" | "c = 0" | "c \<noteq> 21" "c \<noteq> 8" "c \<noteq> 0x7f" "c \<noteq> 0" by blast
  then show ?thesis
  proof cases
    case 1
    then show ?thesis using kill_line_typing [OF ty assms(3)] by (auto simp: console_key_def edit_key_def)
  next
    case 2
    show ?thesis
    proof (cases "cur = []")
      case True
      then show ?thesis using 2 ty typing_ne [OF ty] by (auto simp: console_key_def edit_key_def)
    next
      case False
      then show ?thesis using 2 backspace_typing [OF ty False] typing_ne [OF ty] by (auto simp: console_key_def edit_key_def)
    qed
  next
    case 3
    then show ?thesis using ty by (auto simp: console_key_def edit_key_def)
  next
    case 4
    obtain t where t: "consputc c (s\<lparr>input_buf := (input_buf s)[unat (input_e s) mod INPUT_BUF := of_int c], input_e := input_e s + 1\<rparr>) = Ok t"
      "screen_ok t" "length (input_buf t) = INPUT_BUF" "input_r t = input_r s" "input_w t = input_w s" "input_e t = input_e s + 1"
      "ring INPUT_BUF (input_buf t) (input_r t) (input_e t) = cur @ [of_int c]" "mach t = mach s" "ptable t = ptable s"
      using insert_typing [OF ty, of c] by blast
    have "input_e t \<noteq> input_r t + of_nat INPUT_BUF" using room_typing(2) [OF ty] t assms(2) by simp
    then have "console_key c s = Ok (False, t)"
      using 4 k room_typing(1) [OF ty] t(1) by (simp add: console_key_def plain_key_def Let_def)
    moreover have "typing (cur @ [of_int c]) t" using t ty assms(2) by (simp add: typing_def)
    ultimately show ?thesis using 4 t by (auto simp: edit_key_def)
  qed
qed

lemma of_int_byte: "0 \<le> c \<Longrightarrow> c < 256 \<Longrightarrow> 0 \<le> d \<Longrightarrow> d < 256 \<Longrightarrow> (of_int c :: uchar) = of_int d \<longleftrightarrow> c = d"
  by (simp add: word_uint_eq_iff uint_word_of_int)

lemma edit_key_clean:
  assumes "plain_key c" and "10 \<notin> set cur" and "4 \<notin> set cur"
  shows "10 \<notin> set (edit_key c cur) \<and> 4 \<notin> set (edit_key c cur)"
proof -
  have "(of_int c :: uchar) \<noteq> 10" "(of_int c :: uchar) \<noteq> 4"
    using assms(1) of_int_byte [of c 10] of_int_byte [of c 4] by (auto simp: plain_key_def)
  then show ?thesis using assms(2,3) by (auto simp: edit_key_def dest: in_set_butlastD)
qed

lemma edit_key_length: "length (edit_key c cur) \<le> Suc (length cur)"
  by (auto simp: edit_key_def)

lemma keys_edit:
  assumes "typing cur s" and "length cur + length ks < INPUT_BUF" and "10 \<notin> set cur" and "4 \<notin> set cur" and "\<forall>c\<in>set ks. plain_key c"
  shows "\<exists>t. console_keys (ks @ rest) d s = console_keys rest d t \<and> typing (fold edit_key ks cur) t \<and> mach t = mach s \<and> ptable t = ptable s \<and>
    10 \<notin> set (fold edit_key ks cur) \<and> 4 \<notin> set (fold edit_key ks cur)"
  using assms
proof (induction ks arbitrary: cur s)
  case Nil
  then show ?case by auto
next
  case (Cons c ks)
  have k: "plain_key c" using Cons.prems by simp
  obtain t where t: "console_key c s = Ok (False, t)" "typing (edit_key c cur) t" "mach t = mach s" "ptable t = ptable s"
    using key_edits [OF Cons.prems(1) _ Cons.prems(3) k] Cons.prems(2) by auto
  have cl: "10 \<notin> set (edit_key c cur)" "4 \<notin> set (edit_key c cur)" using edit_key_clean [OF k Cons.prems(3,4)] by auto
  have len: "length (edit_key c cur) + length ks < INPUT_BUF" using edit_key_length [of c cur] Cons.prems(2) by simp
  have ks: "\<forall>c\<in>set ks. plain_key c" using Cons.prems(5) by simp
  have "\<not> c < 0" using k by (simp add: plain_key_def)
  then have "console_keys ((c # ks) @ rest) d s = console_keys (ks @ rest) d t" using t(1) by simp
  then show ?case using Cons.IH [OF t(2) len cl ks] t(3,4) by simp
qed

lemma enter_typing:
  assumes ty: "typing cur s" and tf: "table_free s" and st: "settle (mach s) = mach s"
  shows "\<exists>t. console_key 10 s = Ok (False, t) \<and> ring INPUT_BUF (input_buf t) (input_r t) (input_w t) = cur @ [10] \<and>
    mach t = mach s \<and> ptable t = wakeup1 (Some ChanInput) (ptable s)"
proof -
  obtain t where t: "consputc 10 (s\<lparr>input_buf := (input_buf s)[unat (input_e s) mod INPUT_BUF := of_int 10], input_e := input_e s + 1\<rparr>) = Ok t"
    "screen_ok t" "length (input_buf t) = INPUT_BUF" "input_r t = input_r s" "input_w t = input_w s" "input_e t = input_e s + 1"
    "ring INPUT_BUF (input_buf t) (input_r t) (input_e t) = cur @ [of_int 10]" "mach t = mach s" "ptable t = ptable s"
    using insert_typing [OF ty, of 10] by blast
  let ?u = "t\<lparr>input_w := input_e t\<rparr>"
  have "table_free ?u" "mach ?u = mach s" using tf t(8) unfolding table_free_def by simp_all
  then have "wakeup ChanInput ?u = Ok (?u\<lparr>mach := settle (mach s), ptable := wakeup1 (Some ChanInput) (ptable t)\<rparr>)"
    by (simp add: wakeup_eq)
  then have "console_key 10 s = Ok (False, ?u\<lparr>mach := settle (mach s), ptable := wakeup1 (Some ChanInput) (ptable t)\<rparr>)"
    using room_typing(1) [OF ty] t(1) by (simp add: console_key_def Let_def)
  moreover have "ring INPUT_BUF (input_buf t) (input_r t) (input_e t) = cur @ [10]" using t(7) by simp
  ultimately show ?thesis using t(9) st by (intro exI conjI) (assumption | simp)+
qed

lemma read_line:
  assumes "ring INPUT_BUF (input_buf s) (input_r s) (input_w s) = xs @ [10]" and "10 \<notin> set xs" and "4 \<notin> set xs" and "length xs < n"
  shows "consoleread_loop n acc s = (True, acc @ xs @ [10], s\<lparr>input_r := input_w s\<rparr>)"
  using assms
proof (induction xs arbitrary: n acc s)
  case Nil
  obtain k where n: "n = Suc k" using Nil by (cases n) auto
  have ne: "input_r s \<noteq> input_w s" using Nil(1) ring_Nil_iff [of INPUT_BUF "input_buf s" "input_r s" "input_w s"] by auto
  from ring_get [OF ne, of INPUT_BUF "input_buf s"] Nil(1)
  have g: "input_buf s ! (unat (input_r s) mod INPUT_BUF) = 10" "ring INPUT_BUF (input_buf s) (input_r s + 1) (input_w s) = []" by auto
  have "input_r s + 1 = input_w s" using g(2) by (simp add: ring_Nil_iff)
  then show ?case using n ne g(1) by simp
next
  case (Cons c xs)
  obtain k where n: "n = Suc k" using Cons by (cases n) auto
  have ne: "input_r s \<noteq> input_w s" using Cons(2) ring_Nil_iff [of INPUT_BUF "input_buf s" "input_r s" "input_w s"] by auto
  from ring_get [OF ne, of INPUT_BUF "input_buf s"] Cons(2)
  have g: "input_buf s ! (unat (input_r s) mod INPUT_BUF) = c" "ring INPUT_BUF (input_buf s) (input_r s + 1) (input_w s) = xs @ [10]" by auto
  let ?t = "s\<lparr>input_r := input_r s + 1\<rparr>"
  have "consoleread_loop k (acc @ [c]) ?t = (True, (acc @ [c]) @ xs @ [10], ?t\<lparr>input_r := input_w ?t\<rparr>)"
    by (rule Cons.IH) (use Cons.prems g n in simp_all)
  then show ?case using n ne g(1) Cons.prems by (auto simp: Let_def)
qed

text \<open>
  C25. What is typed is what is read. On an idle console whose input has all been read, typing fewer
  than 127 keys (any but newline, return, \<^verbatim>\<open>^D\<close> and \<^verbatim>\<open>^P\<close>) and then a newline makes \<^verbatim>\<open>consoleintr\<close> return, wakes
  the processes that wait for input, and the next read that asks for enough bytes gets the line as
  edited with backspace and \<^verbatim>\<open>^U\<close>, newline included, and consumes all of it.
\<close>

theorem typed_line_is_read:
  assumes "env_ok pid s" and "typing [] s" and "\<forall>c\<in>set ks. plain_key c" and "length ks < 127" and "length ks < n"
  shows "\<exists>t. consoleintr (ks @ [10]) ebp s = Ok t \<and> ptable t = wakeup1 (Some ChanInput) (ptable s) \<and>
    consoleread_loop n [] t = (True, fold edit_key ks [] @ [10], t\<lparr>input_r := input_w t\<rparr>)"
proof -
  let ?h = "s\<lparr>mach := acq ConsLock (mach s)\<rparr>"
  have h: "typing [] ?h" using assms(2) by (simp add: typing_def screen_ok_def)
  obtain t where t: "console_keys (ks @ [10]) False ?h = console_keys [10] False t" "typing (fold edit_key ks []) t" "mach t = mach ?h"
    "ptable t = ptable s" "10 \<notin> set (fold edit_key ks [])" "4 \<notin> set (fold edit_key ks [])"
    using keys_edit [OF h, of ks "[10]" False] assms(3,4) by (auto simp: INPUT_BUF_def)
  have ok: "mach_ok (mach s)" by (rule env_okD(1) [OF assms(1)])
  have "table_free t" using t(3) env_okD [OF assms(1)] unfolding table_free_def by (simp add: mach_ok_acq lock_free_acq)
  moreover have "settle (mach t) = mach t" using t(3) settle_acq [OF ok] by simp
  ultimately obtain u where u: "console_key 10 t = Ok (False, u)" "ring INPUT_BUF (input_buf u) (input_r u) (input_w u) = fold edit_key ks [] @ [10]"
    "mach u = mach t" "ptable u = wakeup1 (Some ChanInput) (ptable t)" using enter_typing [OF t(2)] by blast
  let ?v = "u\<lparr>mach := settle (mach s)\<rparr>"
  have "krelease ConsLock u = Ok ?v" by (rule krelease_eq [OF assms(1)]) (use u(3) t(3) in simp)
  then have "consoleintr (ks @ [10]) ebp s = Ok ?v"
    using t(1) u(1) by (simp add: consoleintr_def kacquire_eq [OF assms(1)])
  moreover have "length (fold edit_key ks []) \<le> length ks" 
  proof -
    have "length (fold edit_key ks cur) \<le> length cur + length ks" for cur
    proof (induction ks arbitrary: cur)
      case (Cons c ks)
      show ?case using Cons [of "edit_key c cur"] edit_key_length [of c cur] by simp
    qed simp
    from this [of "[]"] show ?thesis by simp
  qed
  then have "consoleread_loop n [] ?v = (True, [] @ fold edit_key ks [] @ [10], ?v\<lparr>input_r := input_w ?v\<rparr>)"
    by (intro read_line) (use u(2) t(5,6) assms(5) in simp_all)
  ultimately show ?thesis using u(4) t(4) by auto
qed

definition demo_cons :: cons_st where
  "demo_cons = mem_st.extend demo_mem \<lparr>bcache = [], disk = (\<lambda>_. []), disksize = 0, dtrace = [], log_start = 0, log_size = 0, log_outstanding = 0,
     log_committing = False, log_dev = 0, lh_n = 0, lh_block = [], panicked = False, cons_locking = True, uart = True, uart_out = [],
     crt = (\<lambda>_. 0), cursor = 1900, kbd_shift = 0, input_buf = replicate INPUT_BUF 0, input_r = 0xFFFFFFFF, input_w = 0xFFFFFFFF, input_e = 0xFFFFFFFF\<rparr>"

lemma demo_cons_spec: "env_ok 1 demo_cons" "typing [] demo_cons" "screen_ok demo_cons" "uart demo_cons" "uart_out demo_cons = []"
  using demo_sys_env
  by (simp_all add: demo_cons_def mem_st.defs demo_mem_def kern.defs env_ok_def curproc_def typing_def screen_ok_def ring_props)

text \<open>The keys \<^verbatim>\<open>l, x, backspace, s\<close> and enter.\<close>

lemma typed_line_is_read_witness:
  "\<exists>t. consoleintr ([108, 120, 8, 115] @ [10]) (\<lambda>_. 0) demo_cons = Ok t \<and> fst (snd (consoleread_loop 50 [] t)) = [108, 115, 10]"
proof -
  have k: "\<forall>c\<in>set [108, 120, 8, 115]. plain_key c" by (simp add: plain_key_def)
  have e: "fold edit_key [108, 120, 8, 115] [] = [108, 115]" by (simp add: edit_key_def)
  from typed_line_is_read [OF demo_cons_spec(1,2) k, of 50 "\<lambda>_. 0"] show ?thesis unfolding e by auto
qed

lemma console_output_stays_on_screen_witness:
  "\<exists>s'. consputs [88, 10, 65] demo_cons = Ok s' \<and> screen_ok s' \<and> uart_out s' = [88, 10, 65] \<and> crt s' (cursor s' - 1) = 0x0741"
  using console_output_stays_on_screen [OF demo_cons_spec(3), of "[88, 10, 65]"] demo_cons_spec(4,5)
  by (auto simp: uart_bytes_def BACKSPACE_def)

end
