(* ===== verification/Fs.thy ===== *)
theory Fs
  imports Console
begin

section \<open>Blocks, inodes and file contents (fs.c, fs.h, file.h, stat.h)\<close>

text \<open>
  The file system of \<^verbatim>\<open>fs.c\<close> over the log, with the block groups of \<^verbatim>\<open>fs.h\<close>. Disk quantities
  (block addresses, inode numbers, sizes) are 32-bit words, computed with wrap-around as in the
  code; a division by a zero field of the super block traps. A \<^verbatim>\<open>struct inode *\<close> is an index into
  \<open>icache\<close>, null is \<open>None\<close>.

  \<^verbatim>\<open>readi\<close> and \<^verbatim>\<open>writei\<close> move bytes between a file and memory; here \<^verbatim>\<open>readi\<close> returns, with its
  return value, the bytes it copies to \<^verbatim>\<open>dst\<close>, and \<^verbatim>\<open>writei\<close> takes the bytes at \<^verbatim>\<open>src\<close>, so that the
  callers decide which memory is meant. The function pointers of \<^verbatim>\<open>devsw\<close> are names of device
  functions: the console is the only device that installs any. The text that \<^verbatim>\<open>fs.c\<close> prints with
  \<^verbatim>\<open>cprintf\<close> when the disk is full or at start-up is left out.
\<close>

subsection \<open>Constants and disk layout\<close>

definition ROOTINO :: uint where "ROOTINO = 1"
definition ROOTDEV :: nat where "ROOTDEV = 1"
definition NDIRECT :: nat where "NDIRECT = 12"
definition NINDIRECT :: nat where "NINDIRECT = BSIZE div 4"
definition MAXFILE :: nat where "MAXFILE = NDIRECT + NINDIRECT"
definition NINODE :: nat where "NINODE = 50"
definition NDEV :: int where "NDEV = 10"
definition FSSIZE :: nat where "FSSIZE = 20000"
definition CONSOLE :: nat where "CONSOLE = 1"
definition T_DIR :: ushort where "T_DIR = 1"
definition T_FILE :: ushort where "T_FILE = 2"
definition T_DEV :: ushort where "T_DEV = 3"
definition DIRSIZ :: nat where "DIRSIZ = 14"
definition BPB :: nat where "BPB = BSIZE * 8"
definition IPB :: uint where "IPB = of_nat (BSIZE div 64)"

record dinode =
  di_type :: ushort
  di_major :: ushort
  di_minor :: ushort
  di_nlink :: ushort
  di_size :: uint
  di_addrs :: "uint list"

text \<open>The 64 bytes of a \<^verbatim>\<open>struct dinode\<close> at byte \<open>off\<close> of a block.\<close>

definition get_dinode :: "block \<Rightarrow> nat \<Rightarrow> dinode" where
  "get_dinode d off = \<lparr>di_type = get16 d off, di_major = get16 d (off + 2), di_minor = get16 d (off + 4), di_nlink = get16 d (off + 6),
     di_size = get32 d (off + 8), di_addrs = map (\<lambda>i. get32 d (off + 12 + 4 * i)) [0..<NDIRECT + 1]\<rparr>"

definition dinode_bytes :: "dinode \<Rightarrow> uchar list" where
  "dinode_bytes di = le16 (di_type di) @ le16 (di_major di) @ le16 (di_minor di) @ le16 (di_nlink di) @ le32 (di_size di) @
     concat (map le32 (di_addrs di))"

definition put_dinode :: "nat \<Rightarrow> dinode \<Rightarrow> block \<Rightarrow> block" where
  "put_dinode off di d = splice_at off (dinode_bytes di) d"

definition IBLOCK :: "uint \<Rightarrow> superblock \<Rightarrow> uint" where
  "IBLOCK i sb = sb_logstart sb + sb_nlog sb + (i div sb_ipg sb) * sb_bpg sb + (i mod sb_ipg sb) div IPB"

definition BBLOCK :: "uint \<Rightarrow> superblock \<Rightarrow> uint" where
  "BBLOCK b sb = sb_logstart sb + sb_nlog sb + ((b - (sb_logstart sb + sb_nlog sb)) div sb_bpg sb) * sb_bpg sb + sb_ipg sb div IPB"

subsection \<open>State\<close>

record inode =
  i_dev :: nat
  i_inum :: uint
  i_ref :: int
  i_lock :: sleeplock
  i_valid :: bool
  i_type :: ushort
  i_major :: ushort
  i_minor :: ushort
  i_nlink :: ushort
  i_size :: uint
  i_addrs :: "uint list"

datatype devfn = Console_dev

record fs_st = cons_st +
  sb :: superblock
  icache :: "inode list"
  devsw_read :: "devfn option list"
  devsw_write :: "devfn option list"

definition upd_ino :: "nat \<Rightarrow> (inode \<Rightarrow> inode) \<Rightarrow> 'z fs_st_scheme \<Rightarrow> 'z fs_st_scheme" where
  "upd_ino i f s = s\<lparr>icache := (icache s)[i := f (icache s ! i)]\<rparr>"

definition bdata :: "nat \<Rightarrow> 'z bio_st_scheme \<Rightarrow> block" where
  "bdata bp s = b_data (bcache s ! bp)"

text \<open>Integer division traps on zero.\<close>

definition nonzero :: "uint \<Rightarrow> unit res" where
  "nonzero w = (if w = 0 then Panic ''trap'' else Ok ())"

subsection \<open>Blocks\<close>

definition bzero :: "nat \<Rightarrow> nat \<Rightarrow> 'z log_st_scheme \<Rightarrow> 'z log_st_scheme res" where
  "bzero dev bno s =
     rbind (bread dev bno s) (\<lambda>(bp, s).
     rbind (log_write bp (bset bp (replicate BSIZE 0) s)) (\<lambda>s.
     brelse bp s))"

text \<open>Bit \<open>bi\<close> of a bitmap block, and the block with that bit set or cleared.\<close>

definition bitmap_bit :: "block \<Rightarrow> nat \<Rightarrow> bool" where
  "bitmap_bit d bi \<longleftrightarrow> (d ! (bi div 8)) AND push_bit (bi mod 8) 1 \<noteq> 0"

definition set_bitmap :: "nat \<Rightarrow> block \<Rightarrow> block" where
  "set_bitmap bi d = d[bi div 8 := (d ! (bi div 8)) OR push_bit (bi mod 8) 1]"

definition clear_bitmap :: "nat \<Rightarrow> block \<Rightarrow> block" where
  "clear_bitmap bi d = d[bi div 8 := (d ! (bi div 8)) AND NOT (push_bit (bi mod 8) 1)]"

text \<open>The loop over the groups: \<open>n\<close> groups from \<open>g\<close> on.\<close>

primrec balloc_groups :: "nat \<Rightarrow> nat \<Rightarrow> nat \<Rightarrow> superblock \<Rightarrow> 'z log_st_scheme \<Rightarrow> (uint \<times> 'z log_st_scheme) res" where
  "balloc_groups 0 g dev sblk s = Ok (0, s)"
| "balloc_groups (Suc n) g dev sblk s =
     (let group_start = sb_logstart sblk + sb_nlog sblk + of_nat g * sb_bpg sblk;
          bmap_block = group_start + sb_ipg sblk div IPB in
      rbind (bread dev (unat bmap_block) s) (\<lambda>(bp, s).
      case find (\<lambda>bi. \<not> bitmap_bit (bdata bp s) bi) [0..<min BPB (unat (sb_bpg sblk))] of
        Some bi \<Rightarrow>
          rbind (log_write bp (bset bp (set_bitmap bi (bdata bp s)) s)) (\<lambda>s.
          rbind (brelse bp s) (\<lambda>s.
          let abs_block = group_start + of_nat bi in
          rbind (bread dev (unat abs_block) s) (\<lambda>(bp, s).
          rbind (log_write bp (bset bp (replicate BSIZE 0) s)) (\<lambda>s.
          rbind (brelse bp s) (\<lambda>s.
          Ok (abs_block, s))))))
      | None \<Rightarrow>
          rbind (brelse bp s) (\<lambda>s.
          balloc_groups n (Suc g) dev sblk s)))"

definition balloc :: "nat \<Rightarrow> 'z log_st_scheme \<Rightarrow> (uint \<times> 'z log_st_scheme) res" where
  "balloc dev s =
     rbind (readsb dev s) (\<lambda>(sblk, s).
     balloc_groups (unat (sb_ngroups sblk)) 0 dev sblk s)"

definition bfree :: "nat \<Rightarrow> uint \<Rightarrow> 'z log_st_scheme \<Rightarrow> 'z log_st_scheme res" where
  "bfree dev b s =
     rbind (readsb dev s) (\<lambda>(sblk, s).
     rbind (nonzero (sb_bpg sblk)) (\<lambda>_.
     rbind (bread dev (unat (BBLOCK b sblk)) s) (\<lambda>(bp, s).
     let bi = unat ((b - (sb_logstart sblk + sb_nlog sblk)) mod sb_bpg sblk) in
     if bi div 8 \<ge> BSIZE then Undef
     else if \<not> bitmap_bit (bdata bp s) bi then Panic ''freeing free block''
     else rbind (log_write bp (bset bp (clear_bitmap bi (bdata bp s)) s)) (\<lambda>s.
       brelse bp s))))"

subsection \<open>Inodes\<close>

primrec iinit_loop :: "nat \<Rightarrow> nat \<Rightarrow> 'z fs_st_scheme \<Rightarrow> 'z fs_st_scheme" where
  "iinit_loop 0 i s = s"
| "iinit_loop (Suc n) i s =
     (case initsleeplock (InodeSleeplock i) ''inode'' s of (sl, s) \<Rightarrow>
      iinit_loop n (Suc i) (upd_ino i (\<lambda>x. x\<lparr>i_lock := sl\<rparr>) s))"

definition iinit :: "nat \<Rightarrow> 'z fs_st_scheme \<Rightarrow> 'z fs_st_scheme res" where
  "iinit dev s =
     (let s = s\<lparr>mach := initlock IcacheLock ''icache'' (mach s)\<rparr>;
          s = iinit_loop NINODE 0 s in
      rbind (readsb dev s) (\<lambda>(b, s). Ok (s\<lparr>sb := b\<rparr>)))"

definition iget :: "nat \<Rightarrow> uint \<Rightarrow> 'z fs_st_scheme \<Rightarrow> (nat \<times> 'z fs_st_scheme) res" where
  "iget dev inum s =
     rbind (kacquire IcacheLock s) (\<lambda>s.
     case first_index (\<lambda>ip. i_ref ip > 0 \<and> i_dev ip = dev \<and> i_inum ip = inum) (icache s) of
       Some i \<Rightarrow>
         rbind (krelease IcacheLock (upd_ino i (\<lambda>ip. ip\<lparr>i_ref := i_ref ip + 1\<rparr>) s)) (\<lambda>s. Ok (i, s))
     | None \<Rightarrow>
         (case first_index (\<lambda>ip. i_ref ip = 0) (icache s) of
            None \<Rightarrow> Panic ''iget: no inodes''
          | Some i \<Rightarrow>
              rbind (krelease IcacheLock (upd_ino i (\<lambda>ip. ip\<lparr>i_dev := dev, i_inum := inum, i_ref := 1, i_valid := False\<rparr>) s))
                (\<lambda>s. Ok (i, s))))"

definition idup :: "nat \<Rightarrow> 'z fs_st_scheme \<Rightarrow> (nat \<times> 'z fs_st_scheme) res" where
  "idup i s =
     rbind (kacquire IcacheLock s) (\<lambda>s.
     rbind (krelease IcacheLock (upd_ino i (\<lambda>ip. ip\<lparr>i_ref := i_ref ip + 1\<rparr>) s)) (\<lambda>s. Ok (i, s)))"

text \<open>The block and the byte offset of inode \<open>inum\<close> on disk.\<close>

definition inode_block :: "uint \<Rightarrow> 'z fs_st_scheme \<Rightarrow> nat res" where
  "inode_block inum s = rbind (nonzero (sb_ipg (sb s))) (\<lambda>_. Ok (unat (IBLOCK inum (sb s))))"

definition inode_off :: "uint \<Rightarrow> nat" where
  "inode_off inum = 64 * unat (inum mod IPB)"

primrec ialloc_from :: "nat \<Rightarrow> uint \<Rightarrow> nat \<Rightarrow> ushort \<Rightarrow> 'z fs_st_scheme \<Rightarrow> (nat \<times> 'z fs_st_scheme) res" where
  "ialloc_from 0 inum dev type s = Panic ''ialloc: no inodes''"
| "ialloc_from (Suc n) inum dev type s =
     rbind (inode_block inum s) (\<lambda>b.
     rbind (bread dev b s) (\<lambda>(bp, s).
     let dip = get_dinode (bdata bp s) (inode_off inum) in
     if di_type dip = 0 then
       let zero = \<lparr>di_type = type, di_major = 0, di_minor = 0, di_nlink = 0, di_size = 0, di_addrs = replicate (NDIRECT + 1) 0\<rparr> in
       rbind (log_write bp (bset bp (put_dinode (inode_off inum) zero (bdata bp s)) s)) (\<lambda>s.
       rbind (brelse bp s) (\<lambda>s.
       iget dev inum s))
     else rbind (brelse bp s) (\<lambda>s. ialloc_from n (inum + 1) dev type s)))"

definition ialloc :: "nat \<Rightarrow> ushort \<Rightarrow> 'z fs_st_scheme \<Rightarrow> (nat \<times> 'z fs_st_scheme) res" where
  "ialloc dev type s = ialloc_from (unat (sb_ninodes (sb s)) - 1) 1 dev type s"

definition iupdate :: "nat \<Rightarrow> 'z fs_st_scheme \<Rightarrow> 'z fs_st_scheme res" where
  "iupdate i s =
     (let ip = icache s ! i in
      rbind (inode_block (i_inum ip) s) (\<lambda>b.
      rbind (bread (i_dev ip) b s) (\<lambda>(bp, s).
      let di = \<lparr>di_type = i_type ip, di_major = i_major ip, di_minor = i_minor ip, di_nlink = i_nlink ip, di_size = i_size ip, di_addrs = i_addrs ip\<rparr> in
      rbind (log_write bp (bset bp (put_dinode (inode_off (i_inum ip)) di (bdata bp s)) s)) (\<lambda>s.
      brelse bp s))))"

definition ilock :: "nat option \<Rightarrow> 'z fs_st_scheme \<Rightarrow> 'z fs_st_scheme res" where
  "ilock ipp s =
     (case ipp of
        None \<Rightarrow> Panic ''ilock''
      | Some i \<Rightarrow>
          if i_ref (icache s ! i) < 1 then Panic ''ilock''
          else rbind (acquiresleep (InodeSleeplock i) (i_lock (icache s ! i)) s) (\<lambda>(sl, s).
            let s = upd_ino i (\<lambda>x. x\<lparr>i_lock := sl\<rparr>) s; ip = icache s ! i in
            if \<not> i_valid ip then
              rbind (inode_block (i_inum ip) s) (\<lambda>b.
              rbind (bread (i_dev ip) b s) (\<lambda>(bp, s).
              let dip = get_dinode (bdata bp s) (inode_off (i_inum ip));
                  s = upd_ino i (\<lambda>x. x\<lparr>i_type := di_type dip, i_major := di_major dip, i_minor := di_minor dip,
                        i_nlink := di_nlink dip, i_size := di_size dip, i_addrs := di_addrs dip\<rparr>) s in
              rbind (brelse bp s) (\<lambda>s.
              let s = upd_ino i (\<lambda>x. x\<lparr>i_valid := True\<rparr>) s in
              if i_type (icache s ! i) = 0 then Panic ''ilock: no type'' else Ok s)))
            else Ok s))"

definition iunlock :: "nat option \<Rightarrow> 'z fs_st_scheme \<Rightarrow> 'z fs_st_scheme res" where
  "iunlock ipp s =
     (case ipp of
        None \<Rightarrow> Panic ''iunlock''
      | Some i \<Rightarrow>
          rbind (holdingsleep (InodeSleeplock i) (i_lock (icache s ! i)) s) (\<lambda>(h, s).
          if \<not> h \<or> i_ref (icache s ! i) < 1 then Panic ''iunlock''
          else rbind (releasesleep (InodeSleeplock i) (i_lock (icache s ! i)) s) (\<lambda>(sl, s).
            Ok (upd_ino i (\<lambda>x. x\<lparr>i_lock := sl\<rparr>) s))))"

primrec itrunc_direct :: "nat \<Rightarrow> nat \<Rightarrow> nat \<Rightarrow> 'z fs_st_scheme \<Rightarrow> 'z fs_st_scheme res" where
  "itrunc_direct 0 j i s = Ok s"
| "itrunc_direct (Suc n) j i s =
     (let ip = icache s ! i in
      if i_addrs ip ! j \<noteq> 0
      then rbind (bfree (i_dev ip) (i_addrs ip ! j) s) (\<lambda>s.
           itrunc_direct n (Suc j) i (upd_ino i (\<lambda>x. x\<lparr>i_addrs := (i_addrs x)[j := 0]\<rparr>) s))
      else itrunc_direct n (Suc j) i s)"

primrec itrunc_indirect :: "nat \<Rightarrow> nat \<Rightarrow> nat \<Rightarrow> nat \<Rightarrow> 'z fs_st_scheme \<Rightarrow> 'z fs_st_scheme res" where
  "itrunc_indirect 0 j bp i s = Ok s"
| "itrunc_indirect (Suc n) j bp i s =
     (let a = get32 (bdata bp s) (4 * j) in
      if a \<noteq> 0 then rbind (bfree (i_dev (icache s ! i)) a s) (\<lambda>s. itrunc_indirect n (Suc j) bp i s)
      else itrunc_indirect n (Suc j) bp i s)"

definition itrunc :: "nat \<Rightarrow> 'z fs_st_scheme \<Rightarrow> 'z fs_st_scheme res" where
  "itrunc i s =
     rbind (itrunc_direct NDIRECT 0 i s) (\<lambda>s.
     let ip = icache s ! i in
     rbind (if i_addrs ip ! NDIRECT \<noteq> 0 then
              rbind (bread (i_dev ip) (unat (i_addrs ip ! NDIRECT)) s) (\<lambda>(bp, s).
              rbind (itrunc_indirect NINDIRECT 0 bp i s) (\<lambda>s.
              rbind (brelse bp s) (\<lambda>s.
              rbind (bfree (i_dev ip) (i_addrs ip ! NDIRECT) s) (\<lambda>s.
              Ok (upd_ino i (\<lambda>x. x\<lparr>i_addrs := (i_addrs x)[NDIRECT := 0]\<rparr>) s)))))
            else Ok s) (\<lambda>s.
     iupdate i (upd_ino i (\<lambda>x. x\<lparr>i_size := 0\<rparr>) s)))"

definition iput :: "nat \<Rightarrow> 'z fs_st_scheme \<Rightarrow> 'z fs_st_scheme res" where
  "iput i s =
     rbind (acquiresleep (InodeSleeplock i) (i_lock (icache s ! i)) s) (\<lambda>(sl, s).
     let s = upd_ino i (\<lambda>x. x\<lparr>i_lock := sl\<rparr>) s in
     rbind (if i_valid (icache s ! i) \<and> i_nlink (icache s ! i) = 0 then
              rbind (kacquire IcacheLock s) (\<lambda>s.
              let r = i_ref (icache s ! i) in
              rbind (krelease IcacheLock s) (\<lambda>s.
              if r = 1 then
                rbind (itrunc i s) (\<lambda>s.
                rbind (iupdate i (upd_ino i (\<lambda>x. x\<lparr>i_type := 0\<rparr>) s)) (\<lambda>s.
                Ok (upd_ino i (\<lambda>x. x\<lparr>i_valid := False\<rparr>) s)))
              else Ok s))
            else Ok s) (\<lambda>s.
     rbind (releasesleep (InodeSleeplock i) (i_lock (icache s ! i)) s) (\<lambda>(sl, s).
     let s = upd_ino i (\<lambda>x. x\<lparr>i_lock := sl\<rparr>) s in
     rbind (kacquire IcacheLock s) (\<lambda>s.
     krelease IcacheLock (upd_ino i (\<lambda>x. x\<lparr>i_ref := i_ref x - 1\<rparr>) s)))))"

definition iunlockput :: "nat \<Rightarrow> 'z fs_st_scheme \<Rightarrow> 'z fs_st_scheme res" where
  "iunlockput i s = rbind (iunlock (Some i) s) (\<lambda>s. iput i s)"

subsection \<open>The console as a device (console.c)\<close>

text \<open>The return value, the bytes copied to \<^verbatim>\<open>dst\<close>, and the state.\<close>

definition consoleread :: "nat \<Rightarrow> int \<Rightarrow> 'z fs_st_scheme \<Rightarrow> ((int \<times> uchar list) \<times> 'z fs_st_scheme) res" where
  "consoleread i n s =
     rbind (iunlock (Some i) s) (\<lambda>s.
     rbind (kacquire ConsLock s) (\<lambda>s.
     case consoleread_loop (nat n) [] s of
       (True, bytes, s) \<Rightarrow>
         rbind (krelease ConsLock s) (\<lambda>s.
         rbind (ilock (Some i) s) (\<lambda>s. Ok ((int (length bytes), bytes), s)))
     | (False, bytes, s) \<Rightarrow>
         rbind (myproc s) (\<lambda>(p, s).
         case p of
           None \<Rightarrow> Panic ''trap''
         | Some p \<Rightarrow>
             if p_killed (ptable s ! p) then
               rbind (krelease ConsLock s) (\<lambda>s.
               rbind (ilock (Some i) s) (\<lambda>s. Ok ((-1, bytes), s)))
             else Sleep ChanInput)))"

definition consolewrite :: "nat \<Rightarrow> uchar list \<Rightarrow> int \<Rightarrow> 'z fs_st_scheme \<Rightarrow> (int \<times> 'z fs_st_scheme) res" where
  "consolewrite i buf n s =
     rbind (iunlock (Some i) s) (\<lambda>s.
     rbind (kacquire ConsLock s) (\<lambda>s.
     rbind (consputs (map uint (take (nat n) buf)) s) (\<lambda>s.
     rbind (krelease ConsLock s) (\<lambda>s.
     rbind (ilock (Some i) s) (\<lambda>s.
     Ok (n, s))))))"

definition consoleinit :: "'z fs_st_scheme \<Rightarrow> 'z fs_st_scheme" where
  "consoleinit s =
     s\<lparr>mach := initlock ConsLock ''console'' (mach s),
       devsw_write := (devsw_write s)[CONSOLE := Some Console_dev],
       devsw_read := (devsw_read s)[CONSOLE := Some Console_dev], cons_locking := True\<rparr>"

subsection \<open>File contents\<close>

definition bmap :: "nat \<Rightarrow> nat \<Rightarrow> 'z fs_st_scheme \<Rightarrow> (uint \<times> 'z fs_st_scheme) res" where
  "bmap i bn s =
     (let ip = icache s ! i in
      if bn < NDIRECT then
        (if i_addrs ip ! bn = 0
         then rbind (balloc (i_dev ip) s) (\<lambda>(addr, s). Ok (addr, upd_ino i (\<lambda>x. x\<lparr>i_addrs := (i_addrs x)[bn := addr]\<rparr>) s))
         else Ok (i_addrs ip ! bn, s))
      else let bn = bn - NDIRECT in
        if bn < NINDIRECT then
          rbind (if i_addrs ip ! NDIRECT = 0
                 then rbind (balloc (i_dev ip) s) (\<lambda>(addr, s). Ok (addr, upd_ino i (\<lambda>x. x\<lparr>i_addrs := (i_addrs x)[NDIRECT := addr]\<rparr>) s))
                 else Ok (i_addrs ip ! NDIRECT, s)) (\<lambda>(addr, s).
          rbind (bread (i_dev ip) (unat addr) s) (\<lambda>(bp, s).
          let a = get32 (bdata bp s) (4 * bn) in
          rbind (if a = 0
                 then rbind (balloc (i_dev ip) s) (\<lambda>(addr, s).
                      rbind (log_write bp (bset bp (put32 (4 * bn) addr (bdata bp s)) s)) (\<lambda>s. Ok (addr, s)))
                 else Ok (a, s)) (\<lambda>(addr, s).
          rbind (brelse bp s) (\<lambda>s. Ok (addr, s)))))
        else Ok (0, s))"

record stat =
  st_type :: ushort
  st_dev :: nat
  st_ino :: uint
  st_nlink :: ushort
  st_size :: uint

definition stati :: "nat \<Rightarrow> 'z fs_st_scheme \<Rightarrow> stat" where
  "stati i s = (let ip = icache s ! i in \<lparr>st_type = i_type ip, st_dev = i_dev ip, st_ino = i_inum ip, st_nlink = i_nlink ip, st_size = i_size ip\<rparr>)"

text \<open>The loop of \<^verbatim>\<open>readi\<close>: \<open>n\<close> bytes from byte \<open>off\<close>. The check before it excludes a wrap of \<^verbatim>\<open>off + n\<close>,
  so the loop counts with natural numbers.\<close>

function readi_loop :: "nat \<Rightarrow> nat \<Rightarrow> nat \<Rightarrow> uchar list \<Rightarrow> 'z fs_st_scheme \<Rightarrow> (uchar list \<times> 'z fs_st_scheme) res" where
  "readi_loop i off n acc s =
     (if n = 0 then Ok (acc, s)
      else rbind (bmap i (off div BSIZE) s) (\<lambda>(addr, s).
        rbind (bread (i_dev (icache s ! i)) (unat addr) s) (\<lambda>(bp, s).
        let m = min n (BSIZE - off mod BSIZE); bytes = slice_at (off mod BSIZE) m (bdata bp s) in
        rbind (brelse bp s) (\<lambda>s.
        readi_loop i (off + m) (n - m) (acc @ bytes) s))))"
  by auto

termination by (relation "measure (\<lambda>(i, off, n, acc, s). n)") (auto simp: BSIZE_def)

declare readi_loop.simps [simp del]

definition readi :: "nat \<Rightarrow> uint \<Rightarrow> uint \<Rightarrow> 'z fs_st_scheme \<Rightarrow> ((int \<times> uchar list) \<times> 'z fs_st_scheme) res" where
  "readi i off n s =
     (let ip = icache s ! i in
      if i_type ip = T_DEV then
        (if sint (i_major ip) < 0 \<or> sint (i_major ip) \<ge> NDEV then Ok ((-1, []), s)
         else case devsw_read s ! unat (i_major ip) of
             None \<Rightarrow> Ok ((-1, []), s)
           | Some Console_dev \<Rightarrow> consoleread i (sint n) s)
      else if off > i_size ip \<or> off + n < off then Ok ((-1, []), s)
      else let n = (if off + n > i_size ip then i_size ip - off else n) in
        rbind (readi_loop i (unat off) (unat n) [] s) (\<lambda>(bytes, s). Ok ((sint n, bytes), s)))"

text \<open>The loop of \<^verbatim>\<open>writei\<close>, which stops when the disk is full; it returns the offset it reached.\<close>

function writei_loop :: "nat \<Rightarrow> nat \<Rightarrow> uchar list \<Rightarrow> 'z fs_st_scheme \<Rightarrow> (nat \<times> 'z fs_st_scheme) res" where
  "writei_loop i off src s =
     (if src = [] then Ok (off, s)
      else rbind (bmap i (off div BSIZE) s) (\<lambda>(addr, s).
        if addr = 0 then Ok (off, s)
        else rbind (bread (i_dev (icache s ! i)) (unat addr) s) (\<lambda>(bp, s).
          let m = min (length src) (BSIZE - off mod BSIZE) in
          rbind (log_write bp (bset bp (splice_at (off mod BSIZE) (take m src) (bdata bp s)) s)) (\<lambda>s.
          rbind (brelse bp s) (\<lambda>s.
          writei_loop i (off + m) (drop m src) s)))))"
  by auto

termination by (relation "measure (\<lambda>(i, off, src, s). length src)") (auto simp: BSIZE_def)

declare writei_loop.simps [simp del]

definition writei :: "nat \<Rightarrow> uchar list \<Rightarrow> uint \<Rightarrow> 'z fs_st_scheme \<Rightarrow> (int \<times> 'z fs_st_scheme) res" where
  "writei i src off s =
     (let ip = icache s ! i; n = of_nat (length src) :: uint in
      if i_type ip = T_DEV then
        (if sint (i_major ip) < 0 \<or> sint (i_major ip) \<ge> NDEV then Ok (-1, s)
         else case devsw_write s ! unat (i_major ip) of
             None \<Rightarrow> Ok (-1, s)
           | Some Console_dev \<Rightarrow> consolewrite i src (sint n) s)
      else if off > i_size ip \<or> off + n < off then Ok (-1, s)
      else if off + n > of_nat (MAXFILE * BSIZE) then Ok (-1, s)
      else rbind (writei_loop i (unat off) src s) (\<lambda>(off, s).
        rbind (if n > 0 \<and> of_nat off > i_size (icache s ! i)
               then iupdate i (upd_ino i (\<lambda>x. x\<lparr>i_size := of_nat off\<rparr>) s) else Ok s) (\<lambda>s.
        Ok (sint n, s))))"

end
