(* ===== verification/Path.thy ===== *)
theory Path
  imports Fs
begin

section \<open>Directories and path names (fs.c)\<close>

text \<open>
  A directory is a file of 16-byte entries, a 16-bit inode number and a name of 14 bytes that is
  zero-terminated only when it is shorter. Paths are the bytes of a C string without its
  terminator, the \<^verbatim>\<open>name\<close> buffers of \<^verbatim>\<open>skipelem\<close> and \<^verbatim>\<open>namex\<close> lists of 14 bytes.

  A 32-bit offset that would wrap makes \<^verbatim>\<open>readi\<close> fail, so that the directory scans panic before
  they could wrap: they count with natural numbers.
\<close>

record dirent =
  de_inum :: ushort
  de_name :: "uchar list"

definition dirent_bytes :: "dirent \<Rightarrow> uchar list" where
  "dirent_bytes de = le16 (de_inum de) @ de_name de"

definition bytes_dirent :: "uchar list \<Rightarrow> dirent" where
  "bytes_dirent bs = \<lparr>de_inum = get16 bs 0, de_name = slice_at 2 DIRSIZ bs\<rparr>"

definition namecmp :: "uchar list \<Rightarrow> uchar list \<Rightarrow> int" where
  "namecmp s t = strncmp s t DIRSIZ"

text \<open>The entry that \<^verbatim>\<open>readi\<close> fetches at \<open>off\<close>, or the given panic.\<close>

definition read_dirent :: "string \<Rightarrow> nat \<Rightarrow> nat \<Rightarrow> 'z fs_st_scheme \<Rightarrow> (dirent \<times> 'z fs_st_scheme) res" where
  "read_dirent msg dp off s =
     rbind (readi dp (of_nat off) 16 s) (\<lambda>((r, bytes), s).
     if r \<noteq> 16 then Panic msg else Ok (bytes_dirent bytes, s))"

function dirlookup_from :: "nat \<Rightarrow> uchar list \<Rightarrow> nat \<Rightarrow> 'z fs_st_scheme \<Rightarrow> ((nat \<times> uint) option \<times> 'z fs_st_scheme) res" where
  "dirlookup_from dp name off s =
     (if unat (i_size (icache s ! dp)) \<le> off \<or> 2 ^ 32 \<le> off then Ok (None, s)
      else rbind (read_dirent ''dirlookup read'' dp off s) (\<lambda>(de, s).
        if de_inum de = 0 then dirlookup_from dp name (off + 16) s
        else if namecmp name (de_name de) = 0 then
          rbind (iget (i_dev (icache s ! dp)) (ucast (de_inum de)) s) (\<lambda>(ip, s). Ok (Some (ip, of_nat off), s))
        else dirlookup_from dp name (off + 16) s))"
  by auto

termination by (relation "measure (\<lambda>(dp, name, off, s). 2 ^ 32 - off)") auto

declare dirlookup_from.simps [simp del]

text \<open>The inode found, with the offset of its entry, which the code stores in \<^verbatim>\<open>*poff\<close>.\<close>

definition dirlookup :: "nat \<Rightarrow> uchar list \<Rightarrow> 'z fs_st_scheme \<Rightarrow> ((nat \<times> uint) option \<times> 'z fs_st_scheme) res" where
  "dirlookup dp name s =
     (if i_type (icache s ! dp) \<noteq> T_DIR then Panic ''dirlookup not DIR'' else dirlookup_from dp name 0 s)"

function dirlink_slot :: "nat \<Rightarrow> nat \<Rightarrow> 'z fs_st_scheme \<Rightarrow> (nat \<times> 'z fs_st_scheme) res" where
  "dirlink_slot dp off s =
     (if unat (i_size (icache s ! dp)) \<le> off \<or> 2 ^ 32 \<le> off then Ok (off, s)
      else rbind (read_dirent ''dirlink read'' dp off s) (\<lambda>(de, s).
        if de_inum de = 0 then Ok (off, s) else dirlink_slot dp (off + 16) s))"
  by auto

termination by (relation "measure (\<lambda>(dp, off, s). 2 ^ 32 - off)") auto

declare dirlink_slot.simps [simp del]

definition dirlink :: "nat \<Rightarrow> uchar list \<Rightarrow> uint \<Rightarrow> 'z fs_st_scheme \<Rightarrow> (int \<times> 'z fs_st_scheme) res" where
  "dirlink dp name inum s =
     rbind (dirlookup dp name s) (\<lambda>(r, s).
     case r of
       Some (ip, _) \<Rightarrow> rbind (iput ip s) (\<lambda>s. Ok (-1, s))
     | None \<Rightarrow>
         rbind (dirlink_slot dp 0 s) (\<lambda>(off, s).
         let de = \<lparr>de_inum = ucast inum, de_name = strncpy (replicate DIRSIZ 0) name DIRSIZ\<rparr> in
         rbind (writei dp (dirent_bytes de) (of_nat off) s) (\<lambda>(r, s).
         if r \<noteq> 16 then Panic ''dirlink'' else Ok (0, s))))"

definition slash :: uchar where "slash = of_char (CHR ''/'')"

text \<open>\<^verbatim>\<open>None\<close> is a null result; otherwise the rest of the path and the name buffer.\<close>

definition skipelem :: "uchar list \<Rightarrow> uchar list \<Rightarrow> (uchar list \<times> uchar list) option" where
  "skipelem path name =
     (let path = dropWhile (\<lambda>c. c = slash) path in
      if path = [] then None
      else let s = takeWhile (\<lambda>c. c \<noteq> slash) path; path = dropWhile (\<lambda>c. c \<noteq> slash) path; len = length s;
               name = (if len \<ge> DIRSIZ then splice_at 0 (take DIRSIZ s) name else (splice_at 0 s name)[len := 0])
        in Some (dropWhile (\<lambda>c. c = slash) path, name))"

lemma skipelem_shorter: "skipelem path name = Some (path', name') \<Longrightarrow> length path' < length path"
proof -
  assume a: "skipelem path name = Some (path', name')"
  let ?p = "dropWhile (\<lambda>c. c = slash) path"
  from a have ne: "?p \<noteq> []" by (auto simp: skipelem_def Let_def split: if_splits)
  then have "hd ?p \<noteq> slash" by (rule hd_dropWhile)
  then have "length (dropWhile (\<lambda>c. c \<noteq> slash) ?p) < length ?p"
    using ne by (cases ?p) (auto simp: length_dropWhile_le le_imp_less_Suc)
  moreover have "length path' = length (dropWhile (\<lambda>c. c = slash) (dropWhile (\<lambda>c. c \<noteq> slash) ?p))"
    using a unfolding skipelem_def Let_def if_not_P [OF ne] by simp
  ultimately show ?thesis
    using length_dropWhile_le [of "\<lambda>c. c = slash" "dropWhile (\<lambda>c. c \<noteq> slash) ?p"] length_dropWhile_le [of "\<lambda>c. c = slash" path]
    by linarith
qed

text \<open>The loop of \<^verbatim>\<open>namex\<close>, and its result: the inode, or null, and the name buffer.\<close>

function namex_loop :: "uchar list \<Rightarrow> bool \<Rightarrow> uchar list \<Rightarrow> nat \<Rightarrow> 'z fs_st_scheme \<Rightarrow> ((nat option \<times> uchar list) \<times> 'z fs_st_scheme) res" where
  "namex_loop path nameiparent name ip s =
     (case skipelem path name of
        None \<Rightarrow>
          if nameiparent then rbind (iput ip s) (\<lambda>s. Ok ((None, name), s)) else Ok ((Some ip, name), s)
      | Some (path, name) \<Rightarrow>
          rbind (ilock (Some ip) s) (\<lambda>s.
          if i_type (icache s ! ip) \<noteq> T_DIR then rbind (iunlockput ip s) (\<lambda>s. Ok ((None, name), s))
          else if nameiparent \<and> path = [] then rbind (iunlock (Some ip) s) (\<lambda>s. Ok ((Some ip, name), s))
          else rbind (dirlookup ip name s) (\<lambda>(r, s).
            case r of
              None \<Rightarrow> rbind (iunlockput ip s) (\<lambda>s. Ok ((None, name), s))
            | Some (next, _) \<Rightarrow> rbind (iunlockput ip s) (\<lambda>s. namex_loop path nameiparent name next s))))"
  by auto

termination by (relation "measure (\<lambda>(path, par, name, ip, s). length path)") (auto dest: skipelem_shorter)

declare namex_loop.simps [simp del]

definition namex :: "uchar list \<Rightarrow> bool \<Rightarrow> uchar list \<Rightarrow> 'z fs_st_scheme \<Rightarrow> ((nat option \<times> uchar list) \<times> 'z fs_st_scheme) res" where
  "namex path nameiparent name s =
     rbind (if path \<noteq> [] \<and> hd path = slash then iget ROOTDEV ROOTINO s
            else rbind (myproc s) (\<lambda>(p, s).
              case p of
                None \<Rightarrow> Panic ''trap''
              | Some p \<Rightarrow> (case p_cwd (ptable s ! p) of None \<Rightarrow> Undef | Some ip \<Rightarrow> idup ip s))) (\<lambda>(ip, s).
     namex_loop path nameiparent name ip s)"

definition namei :: "uchar list \<Rightarrow> 'z fs_st_scheme \<Rightarrow> (nat option \<times> 'z fs_st_scheme) res" where
  "namei path s = rbind (namex path False (replicate DIRSIZ 0) s) (\<lambda>((ip, _), s). Ok (ip, s))"

definition nameiparent :: "uchar list \<Rightarrow> uchar list \<Rightarrow> 'z fs_st_scheme \<Rightarrow> ((nat option \<times> uchar list) \<times> 'z fs_st_scheme) res" where
  "nameiparent path name s = namex path True name s"

section \<open>Path names\<close>

text \<open>The elements of a path: its maximal stretches without slashes.\<close>

fun split_path :: "uchar list \<Rightarrow> uchar list \<Rightarrow> uchar list list" where
  "split_path cur [] = (if cur = [] then [] else [cur])"
| "split_path cur (c # cs) =
     (if c = slash then (if cur = [] then split_path [] cs else cur # split_path [] cs)
      else split_path (cur @ [c]) cs)"

definition path_elems :: "uchar list \<Rightarrow> uchar list list" where
  "path_elems path = split_path [] path"

lemma path_elems_slash [simp]: "path_elems (slash # cs) = path_elems cs"
  by (simp add: path_elems_def)

lemma path_elems_dropWhile [simp]: "path_elems (dropWhile (\<lambda>c. c = slash) path) = path_elems path"
  by (induction path) auto

lemma split_path_run:
  "split_path cur xs = (if cur @ takeWhile (\<lambda>c. c \<noteq> slash) xs = [] then path_elems (dropWhile (\<lambda>c. c \<noteq> slash) xs)
     else (cur @ takeWhile (\<lambda>c. c \<noteq> slash) xs) # path_elems (dropWhile (\<lambda>c. c \<noteq> slash) xs))"
  by (induction xs arbitrary: cur) (auto simp: path_elems_def)

lemma path_elems_Cons:
  assumes "hd xs \<noteq> slash" and "xs \<noteq> []"
  shows "path_elems xs = takeWhile (\<lambda>c. c \<noteq> slash) xs # path_elems (dropWhile (\<lambda>c. c = slash) (dropWhile (\<lambda>c. c \<noteq> slash) xs))"
  using assms split_path_run [of "[]" xs] by (cases xs) (auto simp: path_elems_def [of "_ # _"])

lemma path_elems_Nil_iff: "path_elems path = [] \<longleftrightarrow> dropWhile (\<lambda>c. c = slash) path = []"
proof (cases "dropWhile (\<lambda>c. c = slash) path = []")
  case True
  then show ?thesis using path_elems_dropWhile [of path] unfolding True by (simp add: path_elems_def [of "[]"])
next
  case False
  then have "hd (dropWhile (\<lambda>c. c = slash) path) \<noteq> slash" by (rule hd_dropWhile)
  from path_elems_Cons [OF this False] False show ?thesis by simp
qed

text \<open>The name buffer that \<^verbatim>\<open>skipelem\<close> leaves, and what comparing it with \<^verbatim>\<open>namecmp\<close> means.\<close>

definition elem_name :: "uchar list \<Rightarrow> uchar list \<Rightarrow> uchar list" where
  "elem_name e name = (if length e \<ge> DIRSIZ then take DIRSIZ e else e @ [0] @ drop (Suc (length e)) name)"

lemma skipelem_name:
  assumes "length name = DIRSIZ"
  shows "(if length e \<ge> DIRSIZ then splice_at 0 (take DIRSIZ e) name else (splice_at 0 e name)[length e := 0]) = elem_name e name"
proof (cases "length e \<ge> DIRSIZ")
  case True
  then show ?thesis using assms by (simp add: elem_name_def splice_at_def)
next
  case False
  then have "splice_at 0 e name = e @ drop (length e) name" using assms by (simp add: splice_at_def)
  moreover have "drop (length e) name = name ! length e # drop (Suc (length e)) name"
    using False assms by (simp add: Cons_nth_drop_Suc)
  ultimately show ?thesis using False by (simp add: elem_name_def)
qed

lemma skipelem_elems:
  assumes "length name = DIRSIZ"
  shows "skipelem path name =
    (case path_elems path of
       [] \<Rightarrow> None
     | e # es \<Rightarrow> Some (dropWhile (\<lambda>c. c = slash) (dropWhile (\<lambda>c. c \<noteq> slash) (dropWhile (\<lambda>c. c = slash) path)), elem_name e name))"
proof (cases "dropWhile (\<lambda>c. c = slash) path = []")
  case True
  then have "path_elems path = []" by (simp add: path_elems_Nil_iff)
  moreover have "skipelem path name = None" unfolding skipelem_def Let_def if_P [OF True] ..
  ultimately show ?thesis by simp
next
  case False
  then have h: "hd (dropWhile (\<lambda>c. c = slash) path) \<noteq> slash" by (rule hd_dropWhile)
  have e: "path_elems path = takeWhile (\<lambda>c. c \<noteq> slash) (dropWhile (\<lambda>c. c = slash) path) #
      path_elems (dropWhile (\<lambda>c. c = slash) (dropWhile (\<lambda>c. c \<noteq> slash) (dropWhile (\<lambda>c. c = slash) path)))"
    using path_elems_Cons [OF h False] unfolding path_elems_dropWhile .
  show ?thesis unfolding skipelem_def Let_def if_not_P [OF False] skipelem_name [OF assms] e by simp
qed

lemma strncmp_zero_iff: "strncmp p q n = 0 \<longleftrightarrow> take n (cstring p) = take n (cstring q)"
proof (induction p q n rule: strncmp.induct)
  case (1 p q n)
  show ?case
  proof (cases "n = 0")
    case True
    then show ?thesis by (simp add: strncmp.simps)
  next
    case False
    have c: "cstring xs = (if cread xs 0 = 0 then [] else cread xs 0 # cstring (tl xs))" for xs
      by (cases xs) (auto simp: cstring_def cread_def)
    show ?thesis
    proof (cases "cread p 0 \<noteq> 0 \<and> cread p 0 = cread q 0")
      case True
      then have c0: "0 < n \<and> cread p 0 \<noteq> 0 \<and> cread p 0 = cread q 0" using True False by (metis gr0I)
      have "strncmp p q n = strncmp (tl p) (tl q) (n - 1)" by (subst strncmp.simps, subst if_P [OF c0]) (rule refl)
      moreover have "take n (cstring p) = cread p 0 # take (n - 1) (cstring (tl p))"
        "take n (cstring q) = cread p 0 # take (n - 1) (cstring (tl q))"
        using True False c [of p] c [of q] by (cases n; simp)+
      moreover have "strncmp (tl p) (tl q) (n - 1) = 0 \<longleftrightarrow> take (n - 1) (cstring (tl p)) = take (n - 1) (cstring (tl q))"
        by (rule 1 [OF c0])
      ultimately show ?thesis by simp
    next
      case False': False
      then have "strncmp p q n = int (unat (cread p 0)) - int (unat (cread q 0))"
        using False by (auto simp: strncmp.simps [of p q n])
      then have "strncmp p q n = 0 \<longleftrightarrow> cread p 0 = cread q 0" by (simp add: word_uint_eq_iff)
      then show ?thesis using False' False c [of p] c [of q] by (cases n) auto
    qed
  qed
qed

lemma cstring_elem_name:
  assumes "0 \<notin> set e"
  shows "take DIRSIZ (cstring (elem_name e name)) = take DIRSIZ e"
proof -
  have t: "takeWhile (\<lambda>c. c \<noteq> 0) e = e" using assms by (simp add: takeWhile_eq_all_conv) blast
  have "takeWhile (\<lambda>c. c \<noteq> 0) (take DIRSIZ e) = take DIRSIZ e"
    using assms by (simp add: takeWhile_eq_all_conv) (metis in_set_takeD)
  moreover have "takeWhile (\<lambda>c. c \<noteq> 0) (e @ 0 # ys) = e" for ys using t by (simp add: takeWhile_append1 takeWhile_tail t)
  ultimately show ?thesis by (simp add: elem_name_def cstring_def del: takeWhile_eq_all_conv)
qed

lemma path_elems_no_nul:
  assumes "0 \<notin> set path" and "e \<in> set (path_elems path)"
  shows "0 \<notin> set e"
proof -
  have "0 \<notin> set cur \<Longrightarrow> 0 \<notin> set xs \<Longrightarrow> e \<in> set (split_path cur xs) \<Longrightarrow> 0 \<notin> set e" for cur xs
  proof (induction xs arbitrary: cur)
    case Nil
    then show ?case by (auto split: if_splits)
  next
    case (Cons c xs)
    have "0 \<notin> set e" if "e \<in> set (split_path [] xs)" using Cons.IH [of "[]"] Cons.prems(2) that by simp
    moreover have "0 \<notin> set e" if "e \<in> set (split_path (cur @ [c]) xs)"
      using Cons.IH [of "cur @ [c]"] Cons.prems(1,2) that by simp
    ultimately show ?case using Cons.prems by (auto split: if_splits)
  qed
  then show ?thesis using assms(2) assms(1) unfolding path_elems_def by (metis empty_iff empty_set)
qed

text \<open>
  C20. \<^verbatim>\<open>skipelem\<close> walks through the elements of a path: it returns null exactly when the path has
  no element left; otherwise the path it returns has the remaining elements and no leading slash,
  and comparing the buffer it fills with \<^verbatim>\<open>namecmp\<close> compares the first 14 bytes of the element.
\<close>

theorem skipelem_next_element:
  assumes "length name = DIRSIZ" and "0 \<notin> set path"
  shows "(skipelem path name = None \<longleftrightarrow> path_elems path = []) \<and>
    (\<forall>rest buf. skipelem path name = Some (rest, buf) \<longrightarrow>
       path_elems rest = tl (path_elems path) \<and> length buf = DIRSIZ \<and> (rest = [] \<longleftrightarrow> tl (path_elems path) = []) \<and>
       (\<forall>t. namecmp t buf = 0 \<longleftrightarrow> take DIRSIZ (cstring t) = take DIRSIZ (hd (path_elems path))))"
proof (cases "path_elems path")
  case Nil
  then show ?thesis using skipelem_elems [OF assms(1), of path] by simp
next
  case (Cons e es)
  let ?p = "dropWhile (\<lambda>c. c = slash) path"
  let ?rest = "dropWhile (\<lambda>c. c = slash) (dropWhile (\<lambda>c. c \<noteq> slash) ?p)"
  have ne: "?p \<noteq> []" using Cons by (metis path_elems_Nil_iff list.distinct(1))
  have "hd ?p \<noteq> slash" using ne by (rule hd_dropWhile)
  from path_elems_Cons [OF this ne] have r: "path_elems ?rest = es" using Cons by simp
  have nul: "0 \<notin> set e" using path_elems_no_nul [OF assms(2), of e] Cons by simp
  have "length (elem_name e name) = DIRSIZ" using assms(1) by (simp add: elem_name_def)
  moreover have "?rest = [] \<longleftrightarrow> es = []" using r by (metis dropWhile_idem path_elems_Nil_iff)
  ultimately show ?thesis
    using skipelem_elems [OF assms(1), of path] Cons r cstring_elem_name [OF nul, of name]
    by (auto simp: namecmp_def strncmp_zero_iff)
qed

lemma skipelem_next_element_witness:
  "length (replicate 14 (0::uchar)) = DIRSIZ \<and> 0 \<notin> set (bytes_of ''/usr//rm'') \<and>
   path_elems (bytes_of ''/usr//rm'') = [bytes_of ''usr'', bytes_of ''rm''] \<and>
   (skipelem (bytes_of ''/usr//rm'') (replicate 14 0) = None \<longleftrightarrow> path_elems (bytes_of ''/usr//rm'') = [])"
proof -
  have a: "length (replicate 14 (0::uchar)) = DIRSIZ" by (simp add: DIRSIZ_def)
  have b: "(0::uchar) \<notin> set (bytes_of ''/usr//rm'')" by code_simp
  have c: "path_elems (bytes_of ''/usr//rm'') = [bytes_of ''usr'', bytes_of ''rm'']" by code_simp
  show ?thesis using skipelem_next_element [OF a b] a b c by blast
qed

end
