(* ===== verification/File.thy ===== *)
theory File
  imports Path
begin

section \<open>Open files and pipes (file.c, file.h, pipe.c)\<close>

text \<open>
  The system-wide file table and the pipes. A \<^verbatim>\<open>struct file *\<close> is an index into \<open>ftable\<close>. A pipe
  fills a page from \<^verbatim>\<open>kalloc\<close> and is named by the address of that page; its fields are kept in
  \<open>pipes\<close>, not in the bytes of the page.

  Reads return the bytes copied to the caller's buffer next to the return value, writes take the
  bytes of the caller's buffer. A process that finds a pipe full or empty calls \<^verbatim>\<open>sleep\<close> in the
  middle of \<^verbatim>\<open>pipewrite\<close> or \<^verbatim>\<open>piperead\<close>: the \<open>_start\<close> and \<open>_resume\<close> operations are the parts before
  and after it, \<open>Blocked\<close> with what is left to do. \<open>pipewrite\<close> and \<open>piperead\<close> themselves return
  \<open>Sleep\<close> in that case.
\<close>

definition NFILE :: nat where "NFILE = 100"

definition PIPESIZE :: nat where "PIPESIZE = 512"

datatype fdtype = FD_NONE | FD_PIPE | FD_INODE

record kfile =
  f_type :: fdtype
  f_ref :: int
  f_readable :: bool
  f_writable :: bool
  f_pipe :: uint
  f_ip :: "nat option"
  f_off :: uint

record pipe =
  pi_data :: "uchar list"
  pi_nread :: uint
  pi_nwrite :: uint
  pi_readopen :: bool
  pi_writeopen :: bool

record file_st = fs_st +
  ftable :: "kfile list"
  pipes :: "uint \<Rightarrow> pipe"

definition upd_file :: "nat \<Rightarrow> (kfile \<Rightarrow> kfile) \<Rightarrow> 'z file_st_scheme \<Rightarrow> 'z file_st_scheme" where
  "upd_file f g s = s\<lparr>ftable := (ftable s)[f := g (ftable s ! f)]\<rparr>"

definition upd_pipe :: "uint \<Rightarrow> (pipe \<Rightarrow> pipe) \<Rightarrow> 'z file_st_scheme \<Rightarrow> 'z file_st_scheme" where
  "upd_pipe p g s = s\<lparr>pipes := (pipes s)(p := g (pipes s p))\<rparr>"

abbreviation pipe_lock :: "uint \<Rightarrow> lockid" where "pipe_lock p \<equiv> PipeLock (unat p)"
abbreviation nread_chan :: "uint \<Rightarrow> chan" where "nread_chan p \<equiv> ChanNread (unat p)"
abbreviation nwrite_chan :: "uint \<Rightarrow> chan" where "nwrite_chan p \<equiv> ChanNwrite (unat p)"

subsection \<open>Pipes\<close>

definition pipeclose :: "uint \<Rightarrow> bool \<Rightarrow> 'z file_st_scheme \<Rightarrow> 'z file_st_scheme res" where
  "pipeclose p writable s =
     rbind (kacquire (pipe_lock p) s) (\<lambda>s.
     rbind (if writable then wakeup (nread_chan p) (upd_pipe p (\<lambda>x. x\<lparr>pi_writeopen := False\<rparr>) s)
            else wakeup (nwrite_chan p) (upd_pipe p (\<lambda>x. x\<lparr>pi_readopen := False\<rparr>) s)) (\<lambda>s.
     if \<not> pi_readopen (pipes s p) \<and> \<not> pi_writeopen (pipes s p)
     then rbind (krelease (pipe_lock p) s) (\<lambda>s. kfree p s)
     else krelease (pipe_lock p) s))"

datatype 'a outcome = Return 'a | Blocked "uchar list"

text \<open>Whether the current process has been killed.\<close>

definition killed :: "'z kern_scheme \<Rightarrow> (bool \<times> 'z kern_scheme) res" where
  "killed s = rbind (myproc s) (\<lambda>(p, s). case p of None \<Rightarrow> Panic ''trap'' | Some p \<Rightarrow> Ok (p_killed (ptable s ! p), s))"

definition pipe_full :: "pipe \<Rightarrow> bool" where
  "pipe_full x \<longleftrightarrow> pi_nwrite x = pi_nread x + of_nat PIPESIZE"

definition pipe_put :: "uchar \<Rightarrow> pipe \<Rightarrow> pipe" where
  "pipe_put c x = x\<lparr>pi_data := (pi_data x)[unat (pi_nwrite x) mod PIPESIZE := c], pi_nwrite := pi_nwrite x + 1\<rparr>"

text \<open>The loop of \<^verbatim>\<open>pipewrite\<close> on the bytes left to write; \<open>None\<close> when all are written.\<close>

primrec pipewrite_loop :: "uint \<Rightarrow> uchar list \<Rightarrow> 'z file_st_scheme \<Rightarrow> (bool outcome \<times> 'z file_st_scheme) res" where
  "pipewrite_loop p [] s = Ok (Return True, s)"
| "pipewrite_loop p (c # cs) s =
     (if pipe_full (pipes s p) then
        rbind (if \<not> pi_readopen (pipes s p) then Ok (True, s) else killed s) (\<lambda>(stop, s).
        if stop then Ok (Return False, s)
        else rbind (wakeup (nread_chan p) s) (\<lambda>s. Ok (Blocked (c # cs), s)))
      else pipewrite_loop p cs (upd_pipe p (pipe_put c) s))"

definition pipewrite_run :: "uint \<Rightarrow> uchar list \<Rightarrow> int \<Rightarrow> 'z file_st_scheme \<Rightarrow> (int outcome \<times> 'z file_st_scheme) res" where
  "pipewrite_run p bytes n s =
     rbind (pipewrite_loop p bytes s) (\<lambda>(r, s).
     case r of
       Return True \<Rightarrow> rbind (wakeup (nread_chan p) s) (\<lambda>s. rbind (krelease (pipe_lock p) s) (\<lambda>s. Ok (Return n, s)))
     | Return False \<Rightarrow> rbind (krelease (pipe_lock p) s) (\<lambda>s. Ok (Return (-1), s))
     | Blocked rest \<Rightarrow> rbind (sleep (nwrite_chan p) (pipe_lock p) s) (\<lambda>s. Ok (Blocked rest, s)))"

definition pipewrite_start :: "uint \<Rightarrow> uchar list \<Rightarrow> int \<Rightarrow> 'z file_st_scheme \<Rightarrow> (int outcome \<times> 'z file_st_scheme) res" where
  "pipewrite_start p bytes n s = rbind (kacquire (pipe_lock p) s) (pipewrite_run p bytes n)"

definition pipewrite_resume :: "nat \<Rightarrow> uint \<Rightarrow> uchar list \<Rightarrow> int \<Rightarrow> 'z file_st_scheme \<Rightarrow> (int outcome \<times> 'z file_st_scheme) res" where
  "pipewrite_resume proc p rest n s = rbind (sleep_return proc (pipe_lock p) s) (pipewrite_run p rest n)"

definition pipewrite :: "uint \<Rightarrow> uchar list \<Rightarrow> int \<Rightarrow> 'z file_st_scheme \<Rightarrow> (int \<times> 'z file_st_scheme) res" where
  "pipewrite p bytes n s =
     rbind (pipewrite_start p bytes n s) (\<lambda>(r, s).
     case r of Return v \<Rightarrow> Ok (v, s) | Blocked _ \<Rightarrow> Sleep (nwrite_chan p))"

text \<open>The copying loop of \<^verbatim>\<open>piperead\<close>.\<close>

primrec piperead_loop :: "nat \<Rightarrow> pipe \<Rightarrow> uchar list \<times> pipe" where
  "piperead_loop 0 x = ([], x)"
| "piperead_loop (Suc n) x =
     (if pi_nread x = pi_nwrite x then ([], x)
      else let c = pi_data x ! (unat (pi_nread x) mod PIPESIZE)
           in case piperead_loop n (x\<lparr>pi_nread := pi_nread x + 1\<rparr>) of (cs, x) \<Rightarrow> (c # cs, x))"

definition piperead_run :: "uint \<Rightarrow> int \<Rightarrow> 'z file_st_scheme \<Rightarrow> ((int \<times> uchar list) outcome \<times> 'z file_st_scheme) res" where
  "piperead_run p n s =
     (if pi_nread (pipes s p) = pi_nwrite (pipes s p) \<and> pi_writeopen (pipes s p) then
        rbind (killed s) (\<lambda>(stop, s).
        if stop then rbind (krelease (pipe_lock p) s) (\<lambda>s. Ok (Return (-1, []), s))
        else rbind (sleep (nread_chan p) (pipe_lock p) s) (\<lambda>s. Ok (Blocked [], s)))
      else case piperead_loop (nat n) (pipes s p) of (bytes, x) \<Rightarrow>
        rbind (wakeup (nwrite_chan p) (upd_pipe p (\<lambda>_. x) s)) (\<lambda>s.
        rbind (krelease (pipe_lock p) s) (\<lambda>s. Ok (Return (int (length bytes), bytes), s))))"

definition piperead_start :: "uint \<Rightarrow> int \<Rightarrow> 'z file_st_scheme \<Rightarrow> ((int \<times> uchar list) outcome \<times> 'z file_st_scheme) res" where
  "piperead_start p n s = rbind (kacquire (pipe_lock p) s) (piperead_run p n)"

definition piperead_resume :: "nat \<Rightarrow> uint \<Rightarrow> int \<Rightarrow> 'z file_st_scheme \<Rightarrow> ((int \<times> uchar list) outcome \<times> 'z file_st_scheme) res" where
  "piperead_resume proc p n s = rbind (sleep_return proc (pipe_lock p) s) (piperead_run p n)"

definition piperead :: "uint \<Rightarrow> int \<Rightarrow> 'z file_st_scheme \<Rightarrow> ((int \<times> uchar list) \<times> 'z file_st_scheme) res" where
  "piperead p n s =
     rbind (piperead_start p n s) (\<lambda>(r, s).
     case r of Return v \<Rightarrow> Ok (v, s) | Blocked _ \<Rightarrow> Sleep (nread_chan p))"

subsection \<open>Files\<close>

definition fileinit :: "'z file_st_scheme \<Rightarrow> 'z file_st_scheme" where
  "fileinit s = s\<lparr>mach := initlock FtableLock ''ftable'' (mach s)\<rparr>"

definition filealloc :: "'z file_st_scheme \<Rightarrow> (nat option \<times> 'z file_st_scheme) res" where
  "filealloc s =
     rbind (kacquire FtableLock s) (\<lambda>s.
     case first_index (\<lambda>f. f_ref f = 0) (ftable s) of
       Some f \<Rightarrow> rbind (krelease FtableLock (upd_file f (\<lambda>x. x\<lparr>f_ref := 1\<rparr>) s)) (\<lambda>s. Ok (Some f, s))
     | None \<Rightarrow> rbind (krelease FtableLock s) (\<lambda>s. Ok (None, s)))"

definition filedup :: "nat \<Rightarrow> 'z file_st_scheme \<Rightarrow> (nat \<times> 'z file_st_scheme) res" where
  "filedup f s =
     rbind (kacquire FtableLock s) (\<lambda>s.
     if f_ref (ftable s ! f) < 1 then Panic ''filedup''
     else rbind (krelease FtableLock (upd_file f (\<lambda>x. x\<lparr>f_ref := f_ref x + 1\<rparr>) s)) (\<lambda>s. Ok (f, s)))"

definition fileclose :: "nat \<Rightarrow> 'z file_st_scheme \<Rightarrow> 'z file_st_scheme res" where
  "fileclose f s =
     rbind (kacquire FtableLock s) (\<lambda>s.
     if f_ref (ftable s ! f) < 1 then Panic ''fileclose''
     else let s = upd_file f (\<lambda>x. x\<lparr>f_ref := f_ref x - 1\<rparr>) s in
       if f_ref (ftable s ! f) > 0 then krelease FtableLock s
       else let ff = ftable s ! f in
         rbind (krelease FtableLock (upd_file f (\<lambda>x. x\<lparr>f_ref := 0, f_type := FD_NONE\<rparr>) s)) (\<lambda>s.
         case f_type ff of
           FD_PIPE \<Rightarrow> pipeclose (f_pipe ff) (f_writable ff) s
         | FD_INODE \<Rightarrow>
             rbind (begin_op s) (\<lambda>s.
             rbind (case f_ip ff of None \<Rightarrow> Undef | Some ip \<Rightarrow> iput ip s) (\<lambda>s.
             end_op s))
         | FD_NONE \<Rightarrow> Ok s))"

definition filestat :: "nat \<Rightarrow> 'z file_st_scheme \<Rightarrow> (stat option \<times> 'z file_st_scheme) res" where
  "filestat f s =
     (let x = ftable s ! f in
      if f_type x = FD_INODE then
        (case f_ip x of
           None \<Rightarrow> Panic ''ilock''
         | Some ip \<Rightarrow>
             rbind (ilock (Some ip) s) (\<lambda>s.
             let st = stati ip s in
             rbind (iunlock (Some ip) s) (\<lambda>s. Ok (Some st, s))))
      else Ok (None, s))"

definition fileread :: "nat \<Rightarrow> int \<Rightarrow> 'z file_st_scheme \<Rightarrow> ((int \<times> uchar list) \<times> 'z file_st_scheme) res" where
  "fileread f n s =
     (let x = ftable s ! f in
      if \<not> f_readable x then Ok ((-1, []), s)
      else case f_type x of
        FD_PIPE \<Rightarrow> piperead (f_pipe x) n s
      | FD_INODE \<Rightarrow>
          (case f_ip x of
             None \<Rightarrow> Panic ''ilock''
           | Some ip \<Rightarrow>
               rbind (ilock (Some ip) s) (\<lambda>s.
               rbind (readi ip (f_off (ftable s ! f)) (of_int n) s) (\<lambda>((r, bytes), s).
               let s = (if r > 0 then upd_file f (\<lambda>x. x\<lparr>f_off := f_off x + of_int r\<rparr>) s else s) in
               rbind (iunlock (Some ip) s) (\<lambda>s. Ok ((r, bytes), s)))))
      | FD_NONE \<Rightarrow> Panic ''fileread'')"

definition filewrite_max :: nat where "filewrite_max = nat (((MAXOPBLOCKS - 1 - 1 - 2) div 2) * 512)"

text \<open>The \<^verbatim>\<open>while\<close> loop of \<^verbatim>\<open>filewrite\<close> on the bytes left; the result is whether all were written.\<close>

function filewrite_loop :: "nat \<Rightarrow> nat \<Rightarrow> uchar list \<Rightarrow> 'z file_st_scheme \<Rightarrow> (bool \<times> 'z file_st_scheme) res" where
  "filewrite_loop f ip rest s =
     (if rest = [] then Ok (True, s)
      else let n1 = min (length rest) filewrite_max in
        rbind (begin_op s) (\<lambda>s.
        rbind (ilock (Some ip) s) (\<lambda>s.
        rbind (writei ip (take n1 rest) (f_off (ftable s ! f)) s) (\<lambda>(r, s).
        let s = (if r > 0 then upd_file f (\<lambda>x. x\<lparr>f_off := f_off x + of_int r\<rparr>) s else s) in
        rbind (iunlock (Some ip) s) (\<lambda>s.
        rbind (end_op s) (\<lambda>s.
        if r < 0 then Ok (False, s)
        else if r \<noteq> int n1 then Panic ''short filewrite''
        else filewrite_loop f ip (drop n1 rest) s))))))"
  by auto

termination by (relation "measure (\<lambda>(f, ip, rest, s). length rest)") (auto simp: filewrite_max_def MAXOPBLOCKS_def)

declare filewrite_loop.simps [simp del]

definition filewrite :: "nat \<Rightarrow> uchar list \<Rightarrow> int \<Rightarrow> 'z file_st_scheme \<Rightarrow> (int \<times> 'z file_st_scheme) res" where
  "filewrite f bytes n s =
     (let x = ftable s ! f in
      if \<not> f_writable x then Ok (-1, s)
      else case f_type x of
        FD_PIPE \<Rightarrow> pipewrite (f_pipe x) bytes n s
      | FD_INODE \<Rightarrow>
          if n < 0 then Ok (-1, s)
          else if n = 0 then Ok (0, s)
          else (case f_ip x of
             None \<Rightarrow> rbind (begin_op s) (\<lambda>s. Panic ''ilock'')
           | Some ip \<Rightarrow> rbind (filewrite_loop f ip bytes s) (\<lambda>(done, s). Ok (if done then n else -1, s)))
      | FD_NONE \<Rightarrow> Panic ''filewrite'')"

definition pipealloc_bad :: "uint \<Rightarrow> nat option \<Rightarrow> nat option \<Rightarrow> 'z file_st_scheme \<Rightarrow> ((nat \<times> nat) option \<times> 'z file_st_scheme) res" where
  "pipealloc_bad p f0 f1 s =
     rbind (if p \<noteq> 0 then kfree p s else Ok s) (\<lambda>s.
     rbind (case f0 of None \<Rightarrow> Ok s | Some f \<Rightarrow> fileclose f s) (\<lambda>s.
     rbind (case f1 of None \<Rightarrow> Ok s | Some f \<Rightarrow> fileclose f s) (\<lambda>s. Ok (None, s))))"

definition pipealloc :: "'z file_st_scheme \<Rightarrow> ((nat \<times> nat) option \<times> 'z file_st_scheme) res" where
  "pipealloc s =
     rbind (filealloc s) (\<lambda>(f0, s).
     case f0 of
       None \<Rightarrow> pipealloc_bad 0 None None s
     | Some r \<Rightarrow>
         rbind (filealloc s) (\<lambda>(f1, s).
         case f1 of
           None \<Rightarrow> pipealloc_bad 0 f0 None s
         | Some w \<Rightarrow>
             rbind (kalloc s) (\<lambda>(p, s).
             if p = 0 then pipealloc_bad 0 f0 f1 s
             else let s = upd_pipe p (\<lambda>x. x\<lparr>pi_readopen := True, pi_writeopen := True, pi_nwrite := 0, pi_nread := 0\<rparr>) s;
                      s = s\<lparr>mach := initlock (pipe_lock p) ''pipe'' (mach s)\<rparr>;
                      s = upd_file r (\<lambda>x. x\<lparr>f_type := FD_PIPE, f_readable := True, f_writable := False, f_pipe := p\<rparr>) s;
                      s = upd_file w (\<lambda>x. x\<lparr>f_type := FD_PIPE, f_readable := False, f_writable := True, f_pipe := p\<rparr>) s in
               Ok (Some (r, w), s))))"

section \<open>Pipes as queues\<close>

definition pipe_inv :: "pipe \<Rightarrow> bool" where
  "pipe_inv x \<longleftrightarrow> length (pi_data x) = PIPESIZE \<and> unat (pi_nwrite x - pi_nread x) \<le> PIPESIZE"

definition pipe_contents :: "pipe \<Rightarrow> uchar list" where
  "pipe_contents x = ring PIPESIZE (pi_data x) (pi_nread x) (pi_nwrite x)"

definition pipe_get :: "pipe \<Rightarrow> (uchar \<times> pipe) option" where
  "pipe_get x = (if pi_nread x = pi_nwrite x then None
     else Some (pi_data x ! (unat (pi_nread x) mod PIPESIZE), x\<lparr>pi_nread := pi_nread x + 1\<rparr>))"

lemma pipe_full_iff: "pipe_full x \<longleftrightarrow> unat (pi_nwrite x - pi_nread x) = PIPESIZE"
proof -
  have "pipe_full x \<longleftrightarrow> pi_nwrite x - pi_nread x = of_nat PIPESIZE" by (auto simp: pipe_full_def algebra_simps)
  then show ?thesis by (simp add: word_unat_eq_iff PIPESIZE_def)
qed

lemma unat_pred_le: "d \<noteq> (0::uint) \<Longrightarrow> unat (d - 1) \<le> unat d"
  by (simp add: unat_minus_one)

interpretation pq: byte_queue pipe_inv pipe_contents PIPESIZE pipe_full pipe_put pipe_get
proof
  fix x :: pipe and c x'
  assume i: "pipe_inv x"
  then show "length (pipe_contents x) \<le> PIPESIZE" by (simp add: pipe_contents_def pipe_inv_def)
  show "pipe_full x \<longleftrightarrow> length (pipe_contents x) = PIPESIZE" by (simp add: pipe_contents_def pipe_full_iff)
  show "pipe_get x = None \<longleftrightarrow> pipe_contents x = []" by (simp add: pipe_get_def pipe_contents_def ring_Nil_iff)
  {
    assume "\<not> pipe_full x"
    then have lt: "unat (pi_nwrite x - pi_nread x) < PIPESIZE" using i by (simp add: pipe_inv_def pipe_full_iff)
    have "unat (pi_nwrite x + 1 - pi_nread x) = Suc (unat (pi_nwrite x - pi_nread x))"
      using unat_succ [OF lt] by (simp add: PIPESIZE_def algebra_simps)
    then show "pipe_inv (pipe_put c x)" using i lt by (simp add: pipe_inv_def pipe_put_def)
    show "pipe_contents (pipe_put c x) = pipe_contents x @ [c]"
      using ring_put [of PIPESIZE "pi_data x"] i lt by (simp add: pipe_contents_def pipe_put_def pipe_inv_def PIPESIZE_def)
  }
  assume "pipe_get x = Some (c, x')"
  then have ne: "pi_nread x \<noteq> pi_nwrite x" and c: "c = pi_data x ! (unat (pi_nread x) mod PIPESIZE)"
    and x': "x' = x\<lparr>pi_nread := pi_nread x + 1\<rparr>" by (auto simp: pipe_get_def split: if_splits)
  have "unat (pi_nwrite x - (pi_nread x + 1)) \<le> unat (pi_nwrite x - pi_nread x)"
    using unat_pred_le [of "pi_nwrite x - pi_nread x"] ne by (simp add: diff_diff_eq)
  then show "pipe_inv x' \<and> pipe_contents x = c # pipe_contents x'"
    using i ring_get [OF ne, of PIPESIZE "pi_data x"] by (auto simp: pipe_inv_def pipe_contents_def c x')
qed

lemma piperead_loop_get: "piperead_loop n x = get_upto pipe_get n x"
  by (induction n arbitrary: x) (auto simp: pipe_get_def split: prod.splits)

lemma upd_pipe_simps [simp]:
  "pipes (upd_pipe p f s) p = f (pipes s p)" "mach (upd_pipe p f s) = mach s" "ptable (upd_pipe p f s) = ptable s"
  "upd_pipe p g (upd_pipe p f s) = upd_pipe p (\<lambda>x. g (f x)) s"
  by (simp_all add: upd_pipe_def)

lemma upd_pipe_same: "upd_pipe p (\<lambda>_. pipes s p) s = s"
  by (simp add: upd_pipe_def)

lemma upd_pipe_const: "upd_pipe p f s = upd_pipe p (\<lambda>_. f (pipes s p)) s"
  by (simp add: upd_pipe_def)

text \<open>What the loop of \<^verbatim>\<open>pipewrite\<close> does to the pipe: it fills it and, if bytes are left, stops there.\<close>

lemma pipewrite_loop_eq:
  assumes "put_all pipe_full pipe_put cs (pipes s p) = (rest, x)"
  shows "pipewrite_loop p cs s = pipewrite_loop p rest (upd_pipe p (\<lambda>_. x) s) \<and> (rest \<noteq> [] \<longrightarrow> pipe_full x)"
  using assms
proof (induction cs arbitrary: s)
  case Nil
  then show ?case by (auto simp: upd_pipe_same)
next
  case (Cons c cs)
  show ?case
  proof (cases "pipe_full (pipes s p)")
    case True
    then show ?thesis using Cons.prems by (auto simp: upd_pipe_same)
  next
    case False
    let ?t = "upd_pipe p (pipe_put c) s"
    from False Cons.prems have "put_all pipe_full pipe_put cs (pipes ?t p) = (rest, x)" by simp
    from Cons.IH [OF this] show ?thesis using False by simp
  qed
qed

lemma killed_acq:
  assumes "env_ok pid s" and "curproc s = Some q" and "mach t = acq L (mach s)" and "ptable t = ptable s"
  shows "killed t = Ok (p_killed (ptable s ! q), t)"
proof -
  have ok: "mach_ok (mach s)" by (rule env_okD(1) [OF assms(1)])
  have "curproc t = Some q" using assms(2,3) ok by (simp add: curproc_def cproc_push)
  moreover have "t\<lparr>mach := settle (mach t)\<rparr> = t" using settle_acq [OF ok, of L] by (simp add: assms(3) [symmetric])
  ultimately have "myproc t = Ok (Some q, t)" using myproc_eq [of t] mach_ok_acq [OF ok, of L] assms(3) by simp
  then show ?thesis by (simp add: killed_def assms(4))
qed

lemma put_all_fits:
  assumes "pipe_inv x" and "length bytes \<le> PIPESIZE - length (pipe_contents x)"
  shows "\<exists>x'. put_all pipe_full pipe_put bytes x = ([], x') \<and> pipe_inv x' \<and> pipe_contents x' = pipe_contents x @ bytes"
proof -
  obtain rest x' where x': "put_all pipe_full pipe_put bytes x = (rest, x')" by (cases "put_all pipe_full pipe_put bytes x")
  from pq.put_all_spec [OF assms(1) this] show ?thesis using assms(2) x' by auto
qed

lemma pipewrite_fits:
  assumes env: "env_ok pid s" and "pipe_inv (pipes s p)" and "length bytes \<le> PIPESIZE - length (pipe_contents (pipes s p))"
  shows "\<exists>x. pipewrite p bytes n s = Ok (n, rouse (nread_chan p) (upd_pipe p (\<lambda>_. x) s)) \<and> pipe_inv x \<and>
    pipe_contents x = pipe_contents (pipes s p) @ bytes"
proof -
  obtain x where x: "put_all pipe_full pipe_put bytes (pipes s p) = ([], x)" "pipe_inv x"
    "pipe_contents x = pipe_contents (pipes s p) @ bytes" using put_all_fits [OF assms(2,3)] by blast
  let ?h = "s\<lparr>mach := acq (pipe_lock p) (mach s)\<rparr>"
  let ?u = "upd_pipe p (\<lambda>_. x) s"
  have "pipewrite_loop p bytes ?h = Ok (Return True, ?u\<lparr>mach := acq (pipe_lock p) (mach s)\<rparr>)"
    using pipewrite_loop_eq [of bytes ?h p "[]" x] x(1) by (simp add: upd_pipe_def)
  moreover have envu: "env_ok pid ?u" using env by (simp add: env_ok_def curproc_def)
  have "wakeup (nread_chan p) (?u\<lparr>mach := acq (pipe_lock p) (mach s)\<rparr>) =
      Ok (?u\<lparr>ptable := wakeup1 (Some (nread_chan p)) (ptable s), mach := acq (pipe_lock p) (mach s)\<rparr>)"
    using wakeup_acq [OF envu, of "pipe_lock p" "nread_chan p"] by simp
  moreover have "krelease (pipe_lock p) (?u\<lparr>ptable := wakeup1 (Some (nread_chan p)) (ptable s), mach := acq (pipe_lock p) (mach s)\<rparr>) =
      Ok (rouse (nread_chan p) ?u)"
    using krelease_eq [OF envu, of "?u\<lparr>ptable := wakeup1 (Some (nread_chan p)) (ptable s), mach := acq (pipe_lock p) (mach s)\<rparr>" "pipe_lock p"]
    by (simp add: rouse_def sync_def)
  ultimately have "pipewrite p bytes n s = Ok (n, rouse (nread_chan p) ?u)"
    by (simp add: pipewrite_def pipewrite_start_def pipewrite_run_def kacquire_eq [OF env])
  then show ?thesis using x by blast
qed

lemma piperead_gets:
  assumes env: "env_ok pid s" and "pipe_inv (pipes s p)" and "pipe_contents (pipes s p) \<noteq> [] \<or> \<not> pi_writeopen (pipes s p)"
  shows "\<exists>x. piperead p n s = Ok ((int (length (take (nat n) (pipe_contents (pipes s p)))), take (nat n) (pipe_contents (pipes s p))),
        rouse (nwrite_chan p) (upd_pipe p (\<lambda>_. x) s)) \<and>
      pipe_inv x \<and> pipe_contents x = drop (nat n) (pipe_contents (pipes s p))"
proof -
  obtain ds x where x: "get_upto pipe_get (nat n) (pipes s p) = (ds, x)" by (cases "get_upto pipe_get (nat n) (pipes s p)")
  have g: "pipe_inv x" "ds = take (nat n) (pipe_contents (pipes s p))" "pipe_contents x = drop (nat n) (pipe_contents (pipes s p))"
    using pq.get_upto_spec [OF assms(2) x] by simp_all
  let ?u = "upd_pipe p (\<lambda>_. x) s"
  have envu: "env_ok pid ?u" using env by (simp add: env_ok_def curproc_def)
  have ne: "\<not> (pi_nread (pipes s p) = pi_nwrite (pipes s p) \<and> pi_writeopen (pipes s p))"
    using assms(3) by (auto simp: pipe_contents_def ring_Nil_iff)
  have "upd_pipe p (\<lambda>_. x) (s\<lparr>mach := acq (pipe_lock p) (mach s)\<rparr>) = ?u\<lparr>mach := acq (pipe_lock p) (mach s)\<rparr>"
    by (simp add: upd_pipe_def)
  moreover have "wakeup (nwrite_chan p) (?u\<lparr>mach := acq (pipe_lock p) (mach s)\<rparr>) =
      Ok (?u\<lparr>ptable := wakeup1 (Some (nwrite_chan p)) (ptable s), mach := acq (pipe_lock p) (mach s)\<rparr>)"
    using wakeup_acq [OF envu, of "pipe_lock p" "nwrite_chan p"] by simp
  moreover have "krelease (pipe_lock p) (?u\<lparr>ptable := wakeup1 (Some (nwrite_chan p)) (ptable s), mach := acq (pipe_lock p) (mach s)\<rparr>) =
      Ok (rouse (nwrite_chan p) ?u)"
    using krelease_eq [OF envu, of "?u\<lparr>ptable := wakeup1 (Some (nwrite_chan p)) (ptable s), mach := acq (pipe_lock p) (mach s)\<rparr>" "pipe_lock p"]
    by (simp add: rouse_def sync_def)
  ultimately have "piperead p n s = Ok ((int (length ds), ds), rouse (nwrite_chan p) ?u)"
  proof -
    assume w: "upd_pipe p (\<lambda>_. x) (s\<lparr>mach := acq (pipe_lock p) (mach s)\<rparr>) = ?u\<lparr>mach := acq (pipe_lock p) (mach s)\<rparr>"
      "wakeup (nwrite_chan p) (?u\<lparr>mach := acq (pipe_lock p) (mach s)\<rparr>) =
        Ok (?u\<lparr>ptable := wakeup1 (Some (nwrite_chan p)) (ptable s), mach := acq (pipe_lock p) (mach s)\<rparr>)"
      "krelease (pipe_lock p) (?u\<lparr>ptable := wakeup1 (Some (nwrite_chan p)) (ptable s), mach := acq (pipe_lock p) (mach s)\<rparr>) =
        Ok (rouse (nwrite_chan p) ?u)"
    have pe: "pipes (s\<lparr>mach := acq (pipe_lock p) (mach s)\<rparr>) p = pipes s p" by simp
    show ?thesis
      unfolding piperead_def piperead_start_def piperead_run_def kacquire_eq [OF env] rbind.simps pe if_not_P [OF ne] piperead_loop_get x
      by (simp add: w)
  qed
  then show ?thesis using g by blast
qed

text \<open>
  C21. A pipe is a first-in first-out queue of at most 512 bytes, also when its 32-bit counters wrap
  around: a write that fits appends its bytes and wakes the readers, a read from a pipe that is
  not empty (or has no writer left) removes as many of the oldest bytes as fit and wakes the
  writers, and what was written to an empty pipe is what is read back.
\<close>

theorem pipe_is_fifo:
  assumes "env_ok pid s" and "pipe_inv (pipes s p)" and "length bytes \<le> PIPESIZE - length (pipe_contents (pipes s p))"
    and "0 < length (pipe_contents (pipes s p) @ bytes)"
  shows "\<exists>s1 s2. pipewrite p bytes n s = Ok (n, s1) \<and> ptable s1 = wakeup1 (Some (nread_chan p)) (ptable s) \<and>
    pipe_inv (pipes s1 p) \<and> pipe_contents (pipes s1 p) = pipe_contents (pipes s p) @ bytes \<and>
    (let old = pipe_contents (pipes s p) @ bytes; got = take (nat m) old in
     piperead p m s1 = Ok ((int (length got), got), s2) \<and> ptable s2 = wakeup1 (Some (nwrite_chan p)) (ptable s1) \<and>
     pipe_inv (pipes s2 p) \<and> pipe_contents (pipes s2 p) = drop (nat m) old)"
proof -
  obtain x where x: "pipewrite p bytes n s = Ok (n, rouse (nread_chan p) (upd_pipe p (\<lambda>_. x) s))" "pipe_inv x"
    "pipe_contents x = pipe_contents (pipes s p) @ bytes" using pipewrite_fits [OF assms(1-3)] by blast
  let ?s1 = "rouse (nread_chan p) (upd_pipe p (\<lambda>_. x) s)"
  have s1: "pipes ?s1 p = x" "ptable ?s1 = wakeup1 (Some (nread_chan p)) (ptable s)" by (simp_all add: rouse_def sync_def)
  have "env_ok pid (upd_pipe p (\<lambda>_. x) s)" using assms(1) by (simp add: env_ok_def curproc_def)
  then have env1: "env_ok pid ?s1" by (rule env_ok_rouse)
  obtain y where y: "piperead p m ?s1 = Ok ((int (length (take (nat m) (pipe_contents x))), take (nat m) (pipe_contents x)),
        rouse (nwrite_chan p) (upd_pipe p (\<lambda>_. y) ?s1))" "pipe_inv y" "pipe_contents y = drop (nat m) (pipe_contents x)"
    using piperead_gets [OF env1, of p m] x(2,3) assms(4) unfolding s1(1) by auto
  let ?s2 = "rouse (nwrite_chan p) (upd_pipe p (\<lambda>_. y) ?s1)"
  have s2: "pipes ?s2 p = y" "ptable ?s2 = wakeup1 (Some (nwrite_chan p)) (ptable ?s1)" by (simp_all add: rouse_def sync_def)
  show ?thesis
    by (rule exI [of _ ?s1], rule exI [of _ ?s2], unfold Let_def s1(1) s2(1), intro conjI)
      (use x y s1 s2 in simp_all)
qed

text \<open>
  C22. A writer never loses a wakeup or a byte: when more is written than fits, with a reader there
  and the process not killed, exactly the bytes that fit have been appended, the pipe is full, the
  rest is kept for later, and every process that sleeps for data has been made runnable before the
  writer goes to sleep.
\<close>

theorem pipewrite_blocks_full:
  assumes "env_ok pid s" and "pipe_inv (pipes s p)" and "PIPESIZE - length (pipe_contents (pipes s p)) < length bytes"
    and "pi_readopen (pipes s p)" and "\<not> p_killed (ptable s ! the (curproc s))"
  shows "\<exists>t. pipewrite_loop p bytes (s\<lparr>mach := acq (pipe_lock p) (mach s)\<rparr>) =
      Ok (Blocked (drop (PIPESIZE - length (pipe_contents (pipes s p))) bytes), t) \<and>
    pipe_full (pipes t p) \<and> pipe_contents (pipes t p) = pipe_contents (pipes s p) @ take (PIPESIZE - length (pipe_contents (pipes s p))) bytes \<and>
    ptable t = wakeup1 (Some (nread_chan p)) (ptable s) \<and>
    (\<forall>i<length (ptable t). \<not> (p_state (ptable t ! i) = SLEEPING \<and> p_chan (ptable t ! i) = Some (nread_chan p)))"
proof -
  let ?k = "PIPESIZE - length (pipe_contents (pipes s p))"
  let ?h = "s\<lparr>mach := acq (pipe_lock p) (mach s)\<rparr>"
  obtain rest x where x: "put_all pipe_full pipe_put bytes (pipes s p) = (rest, x)" by (cases "put_all pipe_full pipe_put bytes (pipes s p)")
  have g: "pipe_contents x = pipe_contents (pipes s p) @ take ?k bytes" "rest = drop ?k bytes"
    using pq.put_all_spec [OF assms(2) x] by simp_all
  let ?u = "upd_pipe p (\<lambda>_. x) s"
  let ?hu = "?u\<lparr>mach := acq (pipe_lock p) (mach s)\<rparr>"
  have ne: "rest \<noteq> []" using assms(3) g(2) by simp
  have eq: "upd_pipe p (\<lambda>_. x) ?h = ?hu" by (simp add: upd_pipe_def)
  have loop: "pipewrite_loop p bytes ?h = pipewrite_loop p rest ?hu" "pipe_full x"
    using pipewrite_loop_eq [of bytes ?h p rest x] x ne eq by simp_all
  have ro: "pi_readopen x"
  proof -
    have "pi_readopen (snd (put_all pipe_full pipe_put cs y)) = pi_readopen y" for cs y
      by (induction cs arbitrary: y) (auto simp: pipe_put_def)
    from this [of bytes "pipes s p"] show ?thesis using x assms(4) by simp
  qed
  have envu: "env_ok pid ?u" using assms(1) by (simp add: env_ok_def curproc_def)
  obtain q where q: "curproc ?u = Some q" using envu by (auto simp: env_ok_def)
  have k: "killed ?hu = Ok (p_killed (ptable ?u ! q), ?hu)" by (rule killed_acq [OF envu q]) simp_all
  have nk: "\<not> p_killed (ptable s ! q)" using assms(5) q by (simp add: curproc_def)
  have w: "wakeup (nread_chan p) ?hu = Ok (?u\<lparr>ptable := wakeup1 (Some (nread_chan p)) (ptable s), mach := acq (pipe_lock p) (mach s)\<rparr>)"
    using wakeup_acq [OF envu, of "pipe_lock p" "nread_chan p"] by simp
  obtain c cs where rest: "rest = c # cs" using ne by (cases rest) auto
  have "pipewrite_loop p rest ?hu = Ok (Blocked rest, ?u\<lparr>ptable := wakeup1 (Some (nread_chan p)) (ptable s), mach := acq (pipe_lock p) (mach s)\<rparr>)"
    unfolding rest using loop(2) ro k nk w by simp
  then show ?thesis unfolding loop(1) g(2) using loop(2) g(1) by (auto simp: wakeup1_def)
qed

subsection \<open>A concrete environment\<close>

text \<open>A pipe with one byte in it, whose counters are about to wrap around.\<close>

definition demo_pipe :: pipe where
  "demo_pipe = \<lparr>pi_data = replicate PIPESIZE 7, pi_nread = 0xFFFFFFFE, pi_nwrite = 0xFFFFFFFF, pi_readopen = True, pi_writeopen = True\<rparr>"

definition demo_file :: file_st where
  "demo_file = mem_st.extend demo_mem \<lparr>bcache = [], disk = (\<lambda>_. []), disksize = 0, dtrace = [], log_start = 0, log_size = 0, log_outstanding = 0,
     log_committing = False, log_dev = 0, lh_n = 0, lh_block = [], panicked = False, cons_locking = True, uart = True, uart_out = [], crt = (\<lambda>_. 0), cursor = 0,
     kbd_shift = 0, input_buf = replicate INPUT_BUF 0, input_r = 0, input_w = 0, input_e = 0,
     sb = superblock_of (replicate BSIZE 0), icache = [], devsw_read = [], devsw_write = [],
     ftable = [], pipes = (\<lambda>_. demo_pipe)\<rparr>"

lemma demo_file_env: "env_ok 1 demo_file" "pipes demo_file p = demo_pipe"
  using demo_sys_env by (simp_all add: demo_file_def mem_st.defs demo_mem_def kern.defs env_ok_def curproc_def)

lemma demo_pipe_spec: "pipe_inv demo_pipe" "pipe_contents demo_pipe = [7]" "pi_readopen demo_pipe"
  by (simp_all add: demo_pipe_def pipe_inv_def pipe_contents_def ring_def PIPESIZE_def)

lemma pipe_is_fifo_witness:
  "pipe_contents (pipes demo_file 0x80400000) = [7] \<and>
   (\<exists>s1 s2. pipewrite 0x80400000 [1, 2, 3] 3 demo_file = Ok (3, s1) \<and> piperead 0x80400000 2 s1 = Ok ((2, [7, 1]), s2) \<and>
      pipe_contents (pipes s2 0x80400000) = [2, 3])"
proof -
  have "length [1, 2, 3 :: uchar] \<le> PIPESIZE - length (pipe_contents (pipes demo_file 0x80400000))"
    "0 < length (pipe_contents (pipes demo_file 0x80400000) @ [1, 2, 3])"
    by (simp_all add: demo_file_env demo_pipe_spec PIPESIZE_def)
  from pipe_is_fifo [OF demo_file_env(1) _ this, where n = 3 and m = 2] show ?thesis
    by (simp add: demo_file_env demo_pipe_spec Let_def) blast
qed

lemma pipewrite_blocks_full_witness:
  "\<exists>t. pipewrite_loop 0x80400000 (replicate 600 1) (demo_file\<lparr>mach := acq (pipe_lock 0x80400000) (mach demo_file)\<rparr>) =
     Ok (Blocked (drop 511 (replicate 600 1)), t) \<and> pipe_full (pipes t 0x80400000)"
proof -
  have p: "pipe_inv (pipes demo_file 0x80400000)" "pi_readopen (pipes demo_file 0x80400000)" by (simp_all add: demo_file_env demo_pipe_spec)
  have k: "PIPESIZE - length (pipe_contents (pipes demo_file 0x80400000)) = 511" by (simp add: demo_file_env demo_pipe_spec PIPESIZE_def)
  have b: "PIPESIZE - length (pipe_contents (pipes demo_file 0x80400000)) < length (replicate 600 (1::uchar))" unfolding k by simp
  have "\<not> p_killed (ptable demo_file ! the (curproc demo_file))"
    by (simp add: demo_file_def mem_st.defs demo_mem_def kern.defs demo_sys_def curproc_def me_def two_cpus_def first_proc_def free_proc_def lapicid_def)
  from pipewrite_blocks_full [OF demo_file_env(1) p(1) b p(2) this] show ?thesis unfolding k by blast
qed

end
