(* ===== verification/Vm.thy ===== *)
theory Vm
  imports Kalloc
begin

section \<open>Page tables (vm.c, mmu.h)\<close>

text \<open>
  Two-level page tables in the kernel's memory: a page directory and its page tables are pages
  of \<open>memory\<close>, read and written as 32-bit words. A \<^verbatim>\<open>pte_t *\<close> is the address of the entry, null is
  \<open>None\<close>. \<open>translate\<close> is what the MMU does with a page directory; the routines of \<^verbatim>\<open>vm.c\<close> are the
  code. Loops over page addresses count with natural numbers; \<open>deallocuvm\<close> on a size whose loop
  would wrap around does not end.

  \<open>uload\<close> and \<open>ustore\<close> are the loads and stores the kernel makes through user addresses while the
  page table of the process is installed: a page that is not present (or not writeable, for a
  store) is a page fault in the kernel, on which \<^verbatim>\<open>trap\<close> panics. The messages of \<^verbatim>\<open>allocuvm\<close> are
  left out.
\<close>

subsection \<open>Entries and indices\<close>

definition PDX :: "uint \<Rightarrow> nat" where "PDX va = unat (drop_bit 22 va AND 0x3FF)"

definition PTX :: "uint \<Rightarrow> nat" where "PTX va = unat (drop_bit 12 va AND 0x3FF)"

definition PGADDR :: "nat \<Rightarrow> nat \<Rightarrow> nat \<Rightarrow> uint" where
  "PGADDR d t off = push_bit 22 (of_nat d) OR push_bit 12 (of_nat t) OR of_nat off"

definition PTE_P :: uint where "PTE_P = 1"
definition PTE_W :: uint where "PTE_W = 2"
definition PTE_U :: uint where "PTE_U = 4"

definition PTE_ADDR :: "uint \<Rightarrow> uint" where "PTE_ADDR pte = pte AND NOT 0xFFF"
definition PTE_FLAGS :: "uint \<Rightarrow> uint" where "PTE_FLAGS pte = pte AND 0xFFF"

definition NPDENTRIES :: nat where "NPDENTRIES = 1024"

subsection \<open>Bytes in memory\<close>

primrec store_bytes :: "nat \<Rightarrow> uchar list \<Rightarrow> mem \<Rightarrow> mem" where
  "store_bytes a [] m = m"
| "store_bytes a (b # bs) m = store_bytes (Suc a) bs (m(a := b))"

definition load_bytes :: "mem \<Rightarrow> nat \<Rightarrow> nat \<Rightarrow> uchar list" where
  "load_bytes m a n = map (\<lambda>i. m (a + i)) [0..<n]"

subsection \<open>Walking and mapping\<close>

definition walkpgdir :: "uint \<Rightarrow> uint \<Rightarrow> bool \<Rightarrow> 'z mem_st_scheme \<Rightarrow> (nat option \<times> 'z mem_st_scheme) res" where
  "walkpgdir pgdir va alloc s =
     (let pde = unat pgdir + 4 * PDX va; e = ld32 (memory s) pde in
      if e AND PTE_P \<noteq> 0 then Ok (Some (unat (P2V (PTE_ADDR e)) + 4 * PTX va), s)
      else if \<not> alloc then Ok (None, s)
      else rbind (kalloc s) (\<lambda>(pgtab, s).
        if pgtab = 0 then Ok (None, s)
        else let m = memset (memory s) (unat pgtab) 0 (unat PGSIZE);
                 s = s\<lparr>memory := st32 pde (V2P pgtab OR PTE_P OR PTE_W OR PTE_U) m\<rparr>
          in Ok (Some (unat pgtab + 4 * PTX va), s)))"

text \<open>The loop of \<^verbatim>\<open>mappages\<close>; \<open>a\<close> and \<open>last\<close> are page addresses, so \<open>a\<close> meets \<open>last\<close> exactly.\<close>

function mappages_loop :: "uint \<Rightarrow> uint \<Rightarrow> uint \<Rightarrow> uint \<Rightarrow> uint \<Rightarrow> 'z mem_st_scheme \<Rightarrow> (int \<times> 'z mem_st_scheme) res" where
  "mappages_loop pgdir a end pa perm s =
     rbind (walkpgdir pgdir a True s) (\<lambda>(pte, s).
     case pte of
       None \<Rightarrow> Ok (-1, s)
     | Some pte \<Rightarrow>
         if ld32 (memory s) pte AND PTE_P \<noteq> 0 then Panic ''remap''
         else let s = s\<lparr>memory := st32 pte (pa OR perm OR PTE_P) (memory s)\<rparr> in
           if a = end \<or> unat (end - a) < unat PGSIZE then Ok (0, s)
           else mappages_loop pgdir (a + PGSIZE) end (pa + PGSIZE) perm s)"
  by auto

termination
proof (relation "measure (\<lambda>(pgdir, a, l, pa, perm, s). unat (l - a))")
  fix a l :: uint and pgdir pa perm :: uint and s s' :: "'z mem_st_scheme"
  assume "\<not> (a = l \<or> unat (l - a) < unat PGSIZE)"
  then have "unat (l - a - PGSIZE) < unat (l - a)"
    unfolding unat_sub_if_size [of "l - a"] by (simp add: PGSIZE_def word_size word_le_nat_alt)
  then show "((pgdir, a + PGSIZE, l, pa + PGSIZE, perm, s'), pgdir, a, l, pa, perm, s) \<in> measure (\<lambda>(pgdir, a, l, pa, perm, s). unat (l - a))"
    by (simp add: diff_diff_eq)
qed simp

declare mappages_loop.simps [simp del]

definition mappages :: "uint \<Rightarrow> uint \<Rightarrow> uint \<Rightarrow> uint \<Rightarrow> uint \<Rightarrow> 'z mem_st_scheme \<Rightarrow> (int \<times> 'z mem_st_scheme) res" where
  "mappages pgdir va sz pa perm s = mappages_loop pgdir (PGROUNDDOWN va) (PGROUNDDOWN (va + sz - 1)) pa perm s"

subsection \<open>Freeing\<close>

lemma next_table: "(a::nat) < (a div 2 ^ 22 + 1) * 2 ^ 22"
  using div_mult_mod_eq [of a "2 ^ 22"] mod_less_divisor [of "2 ^ 22" a] by (simp add: algebra_simps)

function deallocuvm_loop :: "uint \<Rightarrow> nat \<Rightarrow> uint \<Rightarrow> 'z mem_st_scheme \<Rightarrow> 'z mem_st_scheme res" where
  "deallocuvm_loop pgdir a oldsz s =
     (if 2 ^ 32 \<le> a then Diverge
      else if unat oldsz \<le> a then Ok s
      else rbind (walkpgdir pgdir (of_nat a) False s) (\<lambda>(pte, s).
        case pte of
          None \<Rightarrow> deallocuvm_loop pgdir ((a div 2 ^ 22 + 1) * 2 ^ 22) oldsz s
        | Some pte \<Rightarrow>
            let e = ld32 (memory s) pte in
            if e AND PTE_P \<noteq> 0 then
              (if PTE_ADDR e = 0 then Panic ''kfree''
               else rbind (kfree (P2V (PTE_ADDR e)) s) (\<lambda>s.
                 deallocuvm_loop pgdir (a + 4096) oldsz (s\<lparr>memory := st32 pte 0 (memory s)\<rparr>)))
            else deallocuvm_loop pgdir (a + 4096) oldsz s))"
  by auto

termination
  by (relation "measure (\<lambda>(pgdir, a, oldsz, s). 2 ^ 32 - a)") (use next_table in \<open>auto intro!: diff_less_mono2\<close>)

declare deallocuvm_loop.simps [simp del]

definition deallocuvm :: "uint \<Rightarrow> uint \<Rightarrow> uint \<Rightarrow> 'z mem_st_scheme \<Rightarrow> (uint \<times> 'z mem_st_scheme) res" where
  "deallocuvm pgdir oldsz newsz s =
     (if newsz \<ge> oldsz then Ok (oldsz, s)
      else rbind (deallocuvm_loop pgdir (unat (PGROUNDUP newsz)) oldsz s) (\<lambda>s. Ok (newsz, s)))"

primrec freevm_tables :: "nat \<Rightarrow> nat \<Rightarrow> uint \<Rightarrow> 'z mem_st_scheme \<Rightarrow> 'z mem_st_scheme res" where
  "freevm_tables 0 i pgdir s = Ok s"
| "freevm_tables (Suc n) i pgdir s =
     (let e = ld32 (memory s) (unat pgdir + 4 * i) in
      rbind (if e AND PTE_P \<noteq> 0 then kfree (P2V (PTE_ADDR e)) s else Ok s) (freevm_tables n (Suc i) pgdir))"

definition freevm :: "uint \<Rightarrow> 'z mem_st_scheme \<Rightarrow> 'z mem_st_scheme res" where
  "freevm pgdir s =
     (if pgdir = 0 then Panic ''freevm: no pgdir''
      else rbind (deallocuvm pgdir KERNBASE 0 s) (\<lambda>(_, s).
        rbind (freevm_tables NPDENTRIES 0 pgdir s) (\<lambda>s.
        kfree pgdir s)))"

subsection \<open>The kernel part\<close>

record kmap =
  k_virt :: uint
  k_phys_start :: uint
  k_phys_end :: uint
  k_perm :: uint

definition kmap_table :: "uint \<Rightarrow> kmap list" where
  "kmap_table data =
     [\<lparr>k_virt = KERNBASE, k_phys_start = 0, k_phys_end = EXTMEM, k_perm = PTE_W\<rparr>,
      \<lparr>k_virt = KERNLINK, k_phys_start = V2P KERNLINK, k_phys_end = V2P data, k_perm = 0\<rparr>,
      \<lparr>k_virt = data, k_phys_start = V2P data, k_phys_end = PHYSTOP, k_perm = PTE_W\<rparr>,
      \<lparr>k_virt = DEVSPACE, k_phys_start = DEVSPACE, k_phys_end = 0, k_perm = PTE_W\<rparr>]"

primrec setupkvm_loop :: "kmap list \<Rightarrow> uint \<Rightarrow> 'z mem_st_scheme \<Rightarrow> (uint \<times> 'z mem_st_scheme) res" where
  "setupkvm_loop [] pgdir s = Ok (pgdir, s)"
| "setupkvm_loop (k # ks) pgdir s =
     rbind (mappages pgdir (k_virt k) (k_phys_end k - k_phys_start k) (k_phys_start k) (k_perm k) s) (\<lambda>(r, s).
     if r < 0 then rbind (freevm pgdir s) (\<lambda>s. Ok (0, s)) else setupkvm_loop ks pgdir s)"

definition setupkvm :: "'z mem_st_scheme \<Rightarrow> (uint \<times> 'z mem_st_scheme) res" where
  "setupkvm s =
     rbind (kalloc s) (\<lambda>(pgdir, s).
     if pgdir = 0 then Ok (0, s)
     else let s = s\<lparr>memory := memset (memory s) (unat pgdir) 0 (unat PGSIZE)\<rparr> in
       if P2V PHYSTOP > DEVSPACE then Panic ''PHYSTOP too high''
       else setupkvm_loop (kmap_table (kdata s)) pgdir s)"

definition kvmalloc :: "'z mem_st_scheme \<Rightarrow> 'z mem_st_scheme res" where
  "kvmalloc s = rbind (setupkvm s) (\<lambda>(pgdir, s). Ok (switchkvm (s\<lparr>kpgdir := pgdir\<rparr>)))"

subsection \<open>User memory\<close>

definition inituvm :: "uint \<Rightarrow> uchar list \<Rightarrow> 'z mem_st_scheme \<Rightarrow> 'z mem_st_scheme res" where
  "inituvm pgdir init s =
     (if length init \<ge> unat PGSIZE then Panic ''inituvm: more than a page''
      else rbind (kalloc s) (\<lambda>(pg, s).
        if pg = 0 then Undef
        else let s = s\<lparr>memory := memset (memory s) (unat pg) 0 (unat PGSIZE)\<rparr> in
          rbind (mappages pgdir 0 PGSIZE (V2P pg) (PTE_W OR PTE_U) s) (\<lambda>(_, s).
          Ok (s\<lparr>memory := store_bytes (unat pg) init (memory s)\<rparr>))))"

function allocuvm_loop :: "uint \<Rightarrow> nat \<Rightarrow> uint \<Rightarrow> uint \<Rightarrow> 'z mem_st_scheme \<Rightarrow> (uint \<times> 'z mem_st_scheme) res" where
  "allocuvm_loop pgdir a oldsz newsz s =
     (if unat newsz \<le> a then Ok (newsz, s)
      else rbind (kalloc s) (\<lambda>(pg, s).
        if pg = 0 then rbind (deallocuvm pgdir newsz oldsz s) (\<lambda>(_, s). Ok (0, s))
        else let s = s\<lparr>memory := memset (memory s) (unat pg) 0 (unat PGSIZE)\<rparr> in
          rbind (mappages pgdir (of_nat a) PGSIZE (V2P pg) (PTE_W OR PTE_U) s) (\<lambda>(r, s).
          if r < 0 then
            rbind (deallocuvm pgdir newsz oldsz s) (\<lambda>(_, s).
            rbind (kfree pg s) (\<lambda>s. Ok (0, s)))
          else allocuvm_loop pgdir (a + 4096) oldsz newsz s)))"
  by auto

termination by (relation "measure (\<lambda>(pgdir, a, oldsz, newsz, s). unat newsz - a)") auto

declare allocuvm_loop.simps [simp del]

definition allocuvm :: "uint \<Rightarrow> uint \<Rightarrow> uint \<Rightarrow> 'z mem_st_scheme \<Rightarrow> (uint \<times> 'z mem_st_scheme) res" where
  "allocuvm pgdir oldsz newsz s =
     (if newsz \<ge> KERNBASE then Ok (0, s)
      else if newsz < oldsz then Ok (oldsz, s)
      else allocuvm_loop pgdir (unat (PGROUNDUP oldsz)) oldsz newsz s)"

definition clearpteu :: "uint \<Rightarrow> uint \<Rightarrow> 'z mem_st_scheme \<Rightarrow> 'z mem_st_scheme res" where
  "clearpteu pgdir uva s =
     rbind (walkpgdir pgdir uva False s) (\<lambda>(pte, s).
     case pte of
       None \<Rightarrow> Panic ''clearpteu''
     | Some pte \<Rightarrow> Ok (s\<lparr>memory := st32 pte (ld32 (memory s) pte AND NOT PTE_U) (memory s)\<rparr>))"

function copyuvm_loop :: "uint \<Rightarrow> uint \<Rightarrow> nat \<Rightarrow> uint \<Rightarrow> 'z mem_st_scheme \<Rightarrow> (uint \<times> 'z mem_st_scheme) res" where
  "copyuvm_loop pgdir d i sz s =
     (if unat sz \<le> i then Ok (d, s)
      else rbind (walkpgdir pgdir (of_nat i) False s) (\<lambda>(pte, s).
        case pte of
          None \<Rightarrow> Panic ''copyuvm: pte should exist''
        | Some pte \<Rightarrow>
            let e = ld32 (memory s) pte in
            if e AND PTE_P = 0 then Panic ''copyuvm: page not present''
            else let pa = PTE_ADDR e; flags = PTE_FLAGS e in
              rbind (kalloc s) (\<lambda>(pg, s).
              if pg = 0 then rbind (freevm d s) (\<lambda>s. Ok (0, s))
              else let s = s\<lparr>memory := memmove (memory s) (unat pg) (unat (P2V pa)) (unat PGSIZE)\<rparr> in
                rbind (mappages d (of_nat i) PGSIZE (V2P pg) flags s) (\<lambda>(r, s).
                if r < 0 then rbind (kfree pg s) (\<lambda>s. rbind (freevm d s) (\<lambda>s. Ok (0, s)))
                else copyuvm_loop pgdir d (i + 4096) sz s))))"
  by auto

termination by (relation "measure (\<lambda>(pgdir, d, i, sz, s). unat sz - i)") auto

declare copyuvm_loop.simps [simp del]

definition copyuvm :: "uint \<Rightarrow> uint \<Rightarrow> 'z mem_st_scheme \<Rightarrow> (uint \<times> 'z mem_st_scheme) res" where
  "copyuvm pgdir sz s =
     rbind (setupkvm s) (\<lambda>(d, s).
     if d = 0 then Ok (0, s) else copyuvm_loop pgdir d 0 sz s)"

text \<open>\<^verbatim>\<open>uva2ka\<close> reads through the result of \<^verbatim>\<open>walkpgdir\<close> without testing it for null.\<close>

definition uva2ka :: "uint \<Rightarrow> uint \<Rightarrow> 'z mem_st_scheme \<Rightarrow> (uint \<times> 'z mem_st_scheme) res" where
  "uva2ka pgdir uva s =
     rbind (walkpgdir pgdir uva False s) (\<lambda>(pte, s).
     case pte of
       None \<Rightarrow> Undef
     | Some pte \<Rightarrow>
         let e = ld32 (memory s) pte in
         if e AND PTE_P = 0 then Ok (0, s)
         else if e AND PTE_U = 0 then Ok (0, s)
         else Ok (P2V (PTE_ADDR e), s))"

function copyout :: "uint \<Rightarrow> uint \<Rightarrow> uchar list \<Rightarrow> 'z mem_st_scheme \<Rightarrow> (int \<times> 'z mem_st_scheme) res" where
  "copyout pgdir va buf s =
     (if buf = [] then Ok (0, s)
      else let va0 = PGROUNDDOWN va in
        rbind (uva2ka pgdir va0 s) (\<lambda>(pa0, s).
        if pa0 = 0 then Ok (-1, s)
        else let n = min (4096 - unat va mod 4096) (length buf);
                 s = s\<lparr>memory := store_bytes (unat pa0 + unat va mod 4096) (take n buf) (memory s)\<rparr>
          in copyout pgdir (va0 + PGSIZE) (drop n buf) s))"
  by auto

termination by (relation "measure (\<lambda>(pgdir, va, buf, s). length buf)") auto

declare copyout.simps [simp del]

subsection \<open>What the MMU does\<close>

definition translate :: "mem \<Rightarrow> uint \<Rightarrow> uint \<Rightarrow> uint option" where
  "translate m pgdir va =
     (let e = ld32 m (unat pgdir + 4 * PDX va) in
      if e AND PTE_P = 0 then None
      else let pte = ld32 m (unat (P2V (PTE_ADDR e)) + 4 * PTX va)
        in if pte AND PTE_P = 0 then None else Some pte)"

text \<open>The kernel address of the byte at \<open>va\<close>, for an access that needs the flags \<open>perm\<close>.\<close>

definition resolve :: "mem \<Rightarrow> uint \<Rightarrow> uint \<Rightarrow> uint \<Rightarrow> nat option" where
  "resolve m pgdir perm va =
     (case translate m pgdir va of
        None \<Rightarrow> None
      | Some pte \<Rightarrow> if pte AND perm = perm then Some (unat (P2V (PTE_ADDR pte)) + unat va mod 4096) else None)"

primrec uload :: "nat \<Rightarrow> mem \<Rightarrow> uint \<Rightarrow> uint \<Rightarrow> uchar list res" where
  "uload 0 m pgdir va = Ok []"
| "uload (Suc n) m pgdir va =
     (case resolve m pgdir PTE_P va of
        None \<Rightarrow> Panic ''trap''
      | Some a \<Rightarrow> rbind (uload n m pgdir (va + 1)) (\<lambda>bs. Ok (m a # bs)))"

primrec ustore :: "uchar list \<Rightarrow> uint \<Rightarrow> uint \<Rightarrow> mem \<Rightarrow> mem res" where
  "ustore [] pgdir va m = Ok m"
| "ustore (b # bs) pgdir va m =
     (case resolve m pgdir (PTE_P OR PTE_W) va of
        None \<Rightarrow> Panic ''trap''
      | Some a \<Rightarrow> ustore bs pgdir (va + 1) (m(a := b)))"

end
