(* ===== verification/Syscall.thy ===== *)
theory Syscall
  imports File Vm
begin

section \<open>Fetching system call arguments (syscall.c)\<close>

text \<open>
  The kernel reads the arguments of a system call from the user stack, and the strings and
  structures they point to from user memory. Its accesses go through the page table of the
  current process, as \<open>uload\<close> and \<open>ustore\<close> of the theory of page tables describe. \<open>None\<close> is the
  return value -1.

  \<^verbatim>\<open>fetchstr\<close> returns the address of a string; here its bytes come with it, because the callers
  only read it.
\<close>

text \<open>\<^verbatim>\<open>myproc()\<close> where the code uses the process it returns: on a null pointer the kernel traps.\<close>

definition this_proc :: "'z kern_scheme \<Rightarrow> (nat \<times> 'z kern_scheme) res" where
  "this_proc s = rbind (myproc s) (\<lambda>(p, s). case p of None \<Rightarrow> Panic ''trap'' | Some p \<Rightarrow> Ok (p, s))"

definition pgdir_of :: "proc \<Rightarrow> uint" where
  "pgdir_of p = (case p_pgdir p of None \<Rightarrow> 0 | Some a \<Rightarrow> of_nat a)"

definition fetchint :: "uint \<Rightarrow> 'z mem_st_scheme \<Rightarrow> (uint option \<times> 'z mem_st_scheme) res" where
  "fetchint addr s =
     rbind (this_proc s) (\<lambda>(cur, s).
     let p = ptable s ! cur in
     if addr \<ge> p_sz p \<or> addr + 4 > p_sz p then Ok (None, s)
     else rbind (uload 4 (memory s) (pgdir_of p) addr) (\<lambda>bs. Ok (Some (of_le32 bs), s)))"

text \<open>The loop of \<^verbatim>\<open>fetchstr\<close> over the \<open>n\<close> bytes between \<^verbatim>\<open>s\<close> and \<^verbatim>\<open>ep\<close>.\<close>

primrec fetchstr_loop :: "nat \<Rightarrow> mem \<Rightarrow> uint \<Rightarrow> uint \<Rightarrow> uchar list \<Rightarrow> uchar list option res" where
  "fetchstr_loop 0 m pgdir va acc = Ok None"
| "fetchstr_loop (Suc n) m pgdir va acc =
     (case resolve m pgdir PTE_P va of
        None \<Rightarrow> Panic ''trap''
      | Some a \<Rightarrow> if m a = 0 then Ok (Some acc) else fetchstr_loop n m pgdir (va + 1) (acc @ [m a]))"

definition fetchstr :: "uint \<Rightarrow> 'z mem_st_scheme \<Rightarrow> (uchar list option \<times> 'z mem_st_scheme) res" where
  "fetchstr addr s =
     rbind (this_proc s) (\<lambda>(cur, s).
     let p = ptable s ! cur in
     if addr \<ge> p_sz p then Ok (None, s)
     else rbind (fetchstr_loop (unat (p_sz p) - unat addr) (memory s) (pgdir_of p) addr []) (\<lambda>r. Ok (r, s)))"

definition argint :: "nat \<Rightarrow> 'z mem_st_scheme \<Rightarrow> (uint option \<times> 'z mem_st_scheme) res" where
  "argint n s =
     rbind (this_proc s) (\<lambda>(cur, s).
     fetchint (tf_esp (p_tf (ptable s ! cur)) + 4 + 4 * of_nat n) s)"

definition argptr :: "nat \<Rightarrow> int \<Rightarrow> 'z mem_st_scheme \<Rightarrow> (uint option \<times> 'z mem_st_scheme) res" where
  "argptr n len s =
     rbind (this_proc s) (\<lambda>(cur, s).
     rbind (argint n s) (\<lambda>(r, s).
     case r of
       None \<Rightarrow> Ok (None, s)
     | Some i \<Rightarrow>
         let sz = p_sz (ptable s ! cur) in
         if len < 0 \<or> i \<ge> sz \<or> i + of_int len > sz then Ok (None, s) else Ok (Some i, s)))"

definition argstr :: "nat \<Rightarrow> 'z mem_st_scheme \<Rightarrow> (uchar list option \<times> 'z mem_st_scheme) res" where
  "argstr n s =
     rbind (argint n s) (\<lambda>(r, s).
     case r of None \<Rightarrow> Ok (None, s) | Some addr \<Rightarrow> fetchstr addr s)"

text \<open>A store of \<open>bytes\<close> at a user address of the current process, and a load.\<close>

definition copy_to_user :: "uint \<Rightarrow> uchar list \<Rightarrow> 'z mem_st_scheme \<Rightarrow> 'z mem_st_scheme res" where
  "copy_to_user va bytes s =
     rbind (this_proc s) (\<lambda>(cur, s).
     rbind (ustore bytes (pgdir_of (ptable s ! cur)) va (memory s)) (\<lambda>m. Ok (s\<lparr>memory := m\<rparr>)))"

definition copy_from_user :: "uint \<Rightarrow> nat \<Rightarrow> 'z mem_st_scheme \<Rightarrow> (uchar list \<times> 'z mem_st_scheme) res" where
  "copy_from_user va n s =
     rbind (this_proc s) (\<lambda>(cur, s).
     rbind (uload n (memory s) (pgdir_of (ptable s ! cur)) va) (\<lambda>bs. Ok (bs, s)))"

end
