(* ===== verification/Exec.thy ===== *)
theory Exec
  imports Syscall
begin

section \<open>Loading a program (exec.c, elf.h, vm.c: loaduvm)\<close>

text \<open>
  \<^verbatim>\<open>exec\<close> with all its ways to fail: \<open>exec_bad\<close> is the code at the label \<^verbatim>\<open>bad\<close>, \<open>None\<close> a failed
  step. The path and the arguments are the bytes of their C strings, read from the memory of the
  caller. The structures of \<^verbatim>\<open>elf.h\<close> are decoded from the bytes of the file.
\<close>

definition ELF_MAGIC :: uint where "ELF_MAGIC = 0x464C457F"
definition ELF_PROG_LOAD :: uint where "ELF_PROG_LOAD = 1"
definition MAXARG :: nat where "MAXARG = 32"

record elfhdr =
  e_magic :: uint
  e_entry :: uint
  e_phoff :: uint
  e_phnum :: ushort

definition elfhdr_of :: "uchar list \<Rightarrow> elfhdr" where
  "elfhdr_of bs = \<lparr>e_magic = get32 bs 0, e_entry = get32 bs 24, e_phoff = get32 bs 28, e_phnum = get16 bs 44\<rparr>"

record proghdr =
  ph_type :: uint
  ph_off :: uint
  ph_vaddr :: uint
  ph_filesz :: uint
  ph_memsz :: uint

definition proghdr_of :: "uchar list \<Rightarrow> proghdr" where
  "proghdr_of bs = \<lparr>ph_type = get32 bs 0, ph_off = get32 bs 4, ph_vaddr = get32 bs 8, ph_filesz = get32 bs 16, ph_memsz = get32 bs 20\<rparr>"

text \<open>\<^verbatim>\<open>loaduvm\<close>: whether the segment was loaded. Its callers keep \<^verbatim>\<open>sz\<close> below \<^verbatim>\<open>KERNBASE\<close>.\<close>

function loaduvm_loop :: "uint \<Rightarrow> uint \<Rightarrow> nat \<Rightarrow> uint \<Rightarrow> nat \<Rightarrow> uint \<Rightarrow> 'z fs_st_scheme \<Rightarrow> (bool \<times> 'z fs_st_scheme) res" where
  "loaduvm_loop pgdir addr ip off i sz s =
     (if unat sz \<le> i then Ok (True, s)
      else rbind (walkpgdir pgdir (addr + of_nat i) False s) (\<lambda>(pte, s).
        case pte of
          None \<Rightarrow> Panic ''loaduvm: address should exist''
        | Some pte \<Rightarrow>
            let pa = PTE_ADDR (ld32 (memory s) pte); n = min (unat sz - i) 4096 in
            rbind (readi ip (off + of_nat i) (of_nat n) s) (\<lambda>((r, bytes), s).
            let s = s\<lparr>memory := store_bytes (unat (P2V pa)) bytes (memory s)\<rparr> in
            if r \<noteq> int n then Ok (False, s)
            else loaduvm_loop pgdir addr ip off (i + 4096) sz s)))"
  by auto

termination by (relation "measure (\<lambda>(pgdir, addr, ip, off, i, sz, s). unat sz - i)") auto

declare loaduvm_loop.simps [simp del]

definition loaduvm :: "uint \<Rightarrow> uint \<Rightarrow> nat \<Rightarrow> uint \<Rightarrow> uint \<Rightarrow> 'z fs_st_scheme \<Rightarrow> (bool \<times> 'z fs_st_scheme) res" where
  "loaduvm pgdir addr ip off sz s =
     (if addr mod PGSIZE \<noteq> 0 then Panic ''loaduvm: addr must be page aligned''
      else loaduvm_loop pgdir addr ip off 0 sz s)"

definition exec_bad :: "uint \<Rightarrow> nat option \<Rightarrow> 'z fs_st_scheme \<Rightarrow> (int \<times> 'z fs_st_scheme) res" where
  "exec_bad pgdir ip s =
     rbind (if pgdir \<noteq> 0 then freevm pgdir s else Ok s) (\<lambda>s.
     rbind (case ip of None \<Rightarrow> Ok s | Some i \<Rightarrow> rbind (iunlockput i s) end_op) (\<lambda>s.
     Ok (-1, s)))"

text \<open>The loop over the program headers: the size of the image, or \<open>None\<close> to go to \<^verbatim>\<open>bad\<close>.\<close>

primrec exec_load :: "nat \<Rightarrow> uint \<Rightarrow> uint \<Rightarrow> uint \<Rightarrow> nat \<Rightarrow> 'z fs_st_scheme \<Rightarrow> (uint option \<times> 'z fs_st_scheme) res" where
  "exec_load 0 off sz pgdir ip s = Ok (Some sz, s)"
| "exec_load (Suc n) off sz pgdir ip s =
     rbind (readi ip off 32 s) (\<lambda>((r, bytes), s).
     if r \<noteq> 32 then Ok (None, s)
     else let ph = proghdr_of bytes in
       if ph_type ph \<noteq> ELF_PROG_LOAD then exec_load n (off + 32) sz pgdir ip s
       else if ph_memsz ph < ph_filesz ph then Ok (None, s)
       else if ph_vaddr ph + ph_memsz ph < ph_vaddr ph then Ok (None, s)
       else rbind (allocuvm pgdir sz (ph_vaddr ph + ph_memsz ph) s) (\<lambda>(sz, s).
         if sz = 0 then Ok (None, s)
         else if ph_vaddr ph mod PGSIZE \<noteq> 0 then Ok (None, s)
         else rbind (loaduvm pgdir (ph_vaddr ph) ip (ph_off ph) (ph_filesz ph) s) (\<lambda>(ok, s).
           if \<not> ok then Ok (None, s) else exec_load n (off + 32) sz pgdir ip s)))"

text \<open>The loop that pushes the arguments; \<open>ustack\<close> collects the addresses it stores.\<close>

primrec exec_args :: "uchar list list \<Rightarrow> nat \<Rightarrow> uint \<Rightarrow> uint list \<Rightarrow> uint \<Rightarrow> 'z mem_st_scheme \<Rightarrow> ((uint \<times> uint list) option \<times> 'z mem_st_scheme) res" where
  "exec_args [] argc sp ustack pgdir s = Ok (Some (sp, ustack), s)"
| "exec_args (a # argv) argc sp ustack pgdir s =
     (if argc \<ge> MAXARG then Ok (None, s)
      else let sp = (sp - of_nat (length a + 1)) AND NOT 3 in
        rbind (copyout pgdir sp (a @ [0]) s) (\<lambda>(r, s).
        if r < 0 then Ok (None, s) else exec_args argv (argc + 1) sp (ustack @ [sp]) pgdir s))"

definition last_elem :: "uchar list \<Rightarrow> uchar list" where
  "last_elem path = rev (takeWhile (\<lambda>c. c \<noteq> slash) (rev path))"

text \<open>From the allocation of the stack on; the inode has been released.\<close>

definition exec_stack :: "uchar list \<Rightarrow> uchar list list \<Rightarrow> nat \<Rightarrow> elfhdr \<Rightarrow> uint \<Rightarrow> uint \<Rightarrow> 'z fs_st_scheme \<Rightarrow> (int \<times> 'z fs_st_scheme) res" where
  "exec_stack path argv cur elf pgdir sz s =
     (let sz = PGROUNDUP sz in
      rbind (allocuvm pgdir sz (sz + 2 * PGSIZE) s) (\<lambda>(sz, s).
      if sz = 0 then exec_bad pgdir None s
      else rbind (clearpteu pgdir (sz - 2 * PGSIZE) s) (\<lambda>s.
        rbind (exec_args argv 0 sz [] pgdir s) (\<lambda>(r, s).
        case r of
          None \<Rightarrow> exec_bad pgdir None s
        | Some (sp, addrs) \<Rightarrow>
            let argc = of_nat (length argv) :: uint;
                ustack = [0xffffffff, argc, sp - (argc + 1) * 4] @ addrs @ [0];
                sp = sp - (3 + argc + 1) * 4 in
            rbind (copyout pgdir sp (concat (map le32 ustack)) s) (\<lambda>(r, s).
            if r < 0 then exec_bad pgdir None s
            else let oldpgdir = pgdir_of (ptable s ! cur);
                     s = upd_proc cur (\<lambda>p. p\<lparr>p_name := safestrcpy (p_name p) (last_elem path) 16, p_pgdir := Some (unat pgdir),
                           p_sz := sz, p_tf := (p_tf p)\<lparr>tf_eip := e_entry elf, tf_esp := sp\<rparr>\<rparr>) s in
              rbind (switchuvm (Some cur) s) (\<lambda>s.
              rbind (freevm oldpgdir s) (\<lambda>s. Ok (0, s))))))))"

definition exec :: "uchar list \<Rightarrow> uchar list list \<Rightarrow> 'z fs_st_scheme \<Rightarrow> (int \<times> 'z fs_st_scheme) res" where
  "exec path argv s =
     rbind (this_proc s) (\<lambda>(cur, s).
     rbind (begin_op s) (\<lambda>s.
     rbind (namei path s) (\<lambda>(ip, s).
     case ip of
       None \<Rightarrow> rbind (end_op s) (\<lambda>s. Ok (-1, s))
     | Some i \<Rightarrow>
         rbind (ilock ip s) (\<lambda>s.
         rbind (readi i 0 52 s) (\<lambda>((r, bytes), s).
         if r \<noteq> 52 then exec_bad 0 ip s
         else let elf = elfhdr_of bytes in
           if e_magic elf \<noteq> ELF_MAGIC then exec_bad 0 ip s
           else rbind (setupkvm s) (\<lambda>(pgdir, s).
             if pgdir = 0 then exec_bad 0 ip s
             else rbind (exec_load (unat (e_phnum elf)) (e_phoff elf) 0 pgdir i s) (\<lambda>(r, s).
               case r of
                 None \<Rightarrow> exec_bad pgdir ip s
               | Some sz \<Rightarrow>
                   rbind (iunlockput i s) (\<lambda>s.
                   rbind (end_op s) (\<lambda>s.
                   exec_stack path argv cur elf pgdir sz s)))))))))"

end
