(* ===== verification/Life.thy ===== *)
theory Life
  imports Exec
begin

section \<open>The life of a process (proc.c: allocproc to wait, forkret)\<close>

text \<open>
  The operations of \<^verbatim>\<open>proc.c\<close> that use memory and files, put together from the critical sections
  of the process table and from the page tables, the file table and the inodes: creation,
  growth, \<^verbatim>\<open>fork\<close>, \<^verbatim>\<open>exit\<close>, \<^verbatim>\<open>wait\<close>.

  \<^verbatim>\<open>exit\<close> does not return: its result is the state in which control goes to the scheduler.
  \<^verbatim>\<open>wait\<close> sleeps while no child has exited: \<open>wait_start\<close> and \<open>wait_resume\<close> are the parts before and
  after, \<open>None\<close> when the process is asleep. \<open>first_ret\<close> is the static variable of \<^verbatim>\<open>forkret\<close>, \<open>init\<close>
  the program linked into the kernel.
\<close>

record sys_st = file_st +
  first_ret :: bool

definition allocproc :: "'z mem_st_scheme \<Rightarrow> (nat option \<times> 'z mem_st_scheme) res" where
  "allocproc s =
     rbind (allocproc_slot s) (\<lambda>(r, s).
     case r of
       None \<Rightarrow> Ok (None, s)
     | Some p \<Rightarrow>
         rbind (kalloc s) (\<lambda>(ks, s).
         if ks = 0 then Ok (None, upd_proc p (\<lambda>q. q\<lparr>p_kstack := None, p_state := UNUSED\<rparr>) s)
         else Ok (Some p, allocproc_stack p (unat ks) s)))"

definition user_tf :: trapframe where
  "user_tf = zero_tf\<lparr>tf_cs := 0x1B, tf_ds := 0x23, tf_es := 0x23, tf_ss := 0x23, tf_eflags := 0x200, tf_esp := PGSIZE, tf_eip := 0\<rparr>"

definition userinit :: "uchar list \<Rightarrow> 'z fs_st_scheme \<Rightarrow> 'z fs_st_scheme res" where
  "userinit init s =
     rbind (allocproc s) (\<lambda>(r, s).
     case r of
       None \<Rightarrow> Undef
     | Some p \<Rightarrow>
         let s = s\<lparr>initproc := Some p\<rparr> in
         rbind (setupkvm s) (\<lambda>(pgdir, s).
         if pgdir = 0 then Panic ''userinit: out of memory?''
         else rbind (inituvm pgdir init (upd_proc p (\<lambda>q. q\<lparr>p_pgdir := Some (unat pgdir)\<rparr>) s)) (\<lambda>s.
           let s = upd_proc p (\<lambda>q. q\<lparr>p_sz := PGSIZE, p_tf := user_tf, p_is_privileged := 0,
                     p_name := safestrcpy (p_name q) (bytes_of ''initcode'') 16\<rparr>) s in
           rbind (namei (bytes_of ''/'') s) (\<lambda>(cwd, s).
           fork_ready p (upd_proc p (\<lambda>q. q\<lparr>p_cwd := cwd\<rparr>) s)))))"

definition growproc :: "int \<Rightarrow> 'z mem_st_scheme \<Rightarrow> (int \<times> 'z mem_st_scheme) res" where
  "growproc n s =
     rbind (this_proc s) (\<lambda>(cur, s).
     let p = ptable s ! cur; sz = p_sz p;
         finish = (\<lambda>sz s. rbind (switchuvm (Some cur) (upd_proc cur (\<lambda>p. p\<lparr>p_sz := sz\<rparr>) s)) (\<lambda>s. Ok (0, s))) in
     if n > 0 then
       (if sz + of_int n > KERNBASE then Ok (-1, s)
        else rbind (allocuvm (pgdir_of p) sz (sz + of_int n) s) (\<lambda>(sz, s).
          if sz = 0 then Ok (-1, s) else finish sz s))
     else if n < 0 then
       rbind (deallocuvm (pgdir_of p) sz (sz + of_int n) s) (\<lambda>(sz, s).
         if sz = 0 then Ok (-1, s) else finish sz s)
     else finish sz s)"

text \<open>The loop of \<^verbatim>\<open>fork\<close> over the open files: the descriptors of the child.\<close>

primrec dup_files :: "nat option list \<Rightarrow> nat option list \<Rightarrow> 'z file_st_scheme \<Rightarrow> (nat option list \<times> 'z file_st_scheme) res" where
  "dup_files [] old s = Ok ([], s)"
| "dup_files (f # fs) old s =
     rbind (case f of None \<Rightarrow> Ok (hd old, s) | Some f \<Rightarrow> rbind (filedup f s) (\<lambda>(f, s). Ok (Some f, s))) (\<lambda>(g, s).
     rbind (dup_files fs (tl old) s) (\<lambda>(gs, s). Ok (g # gs, s)))"

definition fork :: "'z file_st_scheme \<Rightarrow> (int \<times> 'z file_st_scheme) res" where
  "fork s =
     rbind (this_proc s) (\<lambda>(cur, s).
     rbind (allocproc s) (\<lambda>(r, s).
     case r of
       None \<Rightarrow> Ok (-1, s)
     | Some np \<Rightarrow>
         rbind (copyuvm (pgdir_of (ptable s ! cur)) (p_sz (ptable s ! cur)) s) (\<lambda>(pgdir, s).
         if pgdir = 0 then
           rbind (case p_kstack (ptable s ! np) of None \<Rightarrow> kfree 0 s | Some ks \<Rightarrow> kfree (of_nat ks) s) (\<lambda>s.
           Ok (-1, upd_proc np (\<lambda>q. q\<lparr>p_pgdir := None, p_kstack := None, p_state := UNUSED\<rparr>) s))
         else rbind (dup_files (p_ofile (ptable s ! cur)) (p_ofile (ptable s ! np)) s) (\<lambda>(ofile, s).
           case p_cwd (ptable s ! cur) of
             None \<Rightarrow> Undef
           | Some d \<Rightarrow>
               rbind (idup d s) (\<lambda>(d, s).
               let s = fork_copy cur np (Some (unat pgdir)) ofile (Some d) s; pid = p_pid (ptable s ! np) in
               rbind (fork_ready np s) (\<lambda>s. Ok (pid, s)))))))"

primrec close_files :: "nat \<Rightarrow> nat \<Rightarrow> nat \<Rightarrow> 'z file_st_scheme \<Rightarrow> 'z file_st_scheme res" where
  "close_files 0 fd cur s = Ok s"
| "close_files (Suc n) fd cur s =
     (case p_ofile (ptable s ! cur) ! fd of
        None \<Rightarrow> close_files n (Suc fd) cur s
      | Some f \<Rightarrow>
          rbind (fileclose f s) (\<lambda>s.
          close_files n (Suc fd) cur (upd_proc cur (\<lambda>p. p\<lparr>p_ofile := (p_ofile p)[fd := None]\<rparr>) s)))"

definition exit :: "'z file_st_scheme \<Rightarrow> 'z file_st_scheme res" where
  "exit s =
     rbind (this_proc s) (\<lambda>(cur, s).
     if Some cur = initproc s then Panic ''init exiting''
     else rbind (close_files NOFILE 0 cur s) (\<lambda>s.
       rbind (begin_op s) (\<lambda>s.
       rbind (case p_cwd (ptable s ! cur) of None \<Rightarrow> Undef | Some d \<Rightarrow> iput d s) (\<lambda>s.
       rbind (end_op s) (\<lambda>s.
       exit_table cur (upd_proc cur (\<lambda>p. p\<lparr>p_cwd := None\<rparr>) s))))))"

text \<open>One round of the loop of \<^verbatim>\<open>wait\<close>, with the process table locked.\<close>

definition wait_run :: "nat \<Rightarrow> 'z mem_st_scheme \<Rightarrow> (int option \<times> 'z mem_st_scheme) res" where
  "wait_run cur s =
     (case wait_search cur (ptable s) of
        Exited i \<Rightarrow>
          let pid = p_pid (ptable s ! i) in
          rbind (kfree (case p_kstack (ptable s ! i) of None \<Rightarrow> 0 | Some ks \<Rightarrow> of_nat ks) s) (\<lambda>s.
          let s = upd_proc i (\<lambda>p. p\<lparr>p_kstack := None\<rparr>) s in
          rbind (freevm (pgdir_of (ptable s ! i)) s) (\<lambda>s.
          rbind (krelease PtableLock (wait_clear i s)) (\<lambda>s. Ok (Some pid, s))))
      | Havekids b \<Rightarrow>
          if \<not> b \<or> p_killed (ptable s ! cur) then rbind (krelease PtableLock s) (\<lambda>s. Ok (Some (-1), s))
          else rbind (sleep (ChanProc cur) PtableLock s) (\<lambda>s. Ok (None, s)))"

definition wait_start :: "'z mem_st_scheme \<Rightarrow> (int option \<times> 'z mem_st_scheme) res" where
  "wait_start s =
     rbind (this_proc s) (\<lambda>(cur, s).
     rbind (kacquire PtableLock s) (wait_run cur))"

definition wait_resume :: "nat \<Rightarrow> 'z mem_st_scheme \<Rightarrow> (int option \<times> 'z mem_st_scheme) res" where
  "wait_resume cur s = rbind (sleep_return cur PtableLock s) (wait_run cur)"

definition wait :: "'z mem_st_scheme \<Rightarrow> (int \<times> 'z mem_st_scheme) res" where
  "wait s =
     rbind (this_proc s) (\<lambda>(cur, s).
     rbind (kacquire PtableLock s) (\<lambda>s.
     rbind (wait_run cur s) (\<lambda>(r, s).
     case r of Some pid \<Rightarrow> Ok (pid, s) | None \<Rightarrow> Sleep (ChanProc cur))))"

definition forkret :: "'z sys_st_scheme \<Rightarrow> 'z sys_st_scheme res" where
  "forkret s =
     rbind (krelease PtableLock s) (\<lambda>s.
     if first_ret s then rbind (iinit ROOTDEV (s\<lparr>first_ret := False\<rparr>)) (\<lambda>s. initlog ROOTDEV s)
     else Ok s)"

end
