(* ===== verification/Sysproc.thy ===== *)
theory Sysproc
  imports Life
begin

section \<open>Process system calls (sysproc.c)\<close>

text \<open>
  Each handler fetches its arguments and calls the operation; the result is the value for
  \<^verbatim>\<open>%eax\<close>. A \<^verbatim>\<open>struct procinfo\<close> in user memory is 56 bytes, decoded and encoded at its offsets.
\<close>

text \<open>An \<^verbatim>\<open>int\<close> argument.\<close>

definition argi :: "nat \<Rightarrow> 'z mem_st_scheme \<Rightarrow> (int option \<times> 'z mem_st_scheme) res" where
  "argi n s = rbind (argint n s) (\<lambda>(r, s). Ok (map_option sint r, s))"

definition sys_fork :: "'z file_st_scheme \<Rightarrow> (int \<times> 'z file_st_scheme) res" where
  "sys_fork s = fork s"

definition sys_exit :: "'z file_st_scheme \<Rightarrow> 'z file_st_scheme res" where
  "sys_exit s = exit s"

definition sys_wait :: "'z mem_st_scheme \<Rightarrow> (int \<times> 'z mem_st_scheme) res" where
  "sys_wait s = wait s"

definition sys_kill :: "'z mem_st_scheme \<Rightarrow> (int \<times> 'z mem_st_scheme) res" where
  "sys_kill s =
     rbind (argi 0 s) (\<lambda>(r, s).
     case r of None \<Rightarrow> Ok (-1, s) | Some pid \<Rightarrow> kill pid s)"

definition sys_getpid :: "'z mem_st_scheme \<Rightarrow> (int \<times> 'z mem_st_scheme) res" where
  "sys_getpid s = rbind (this_proc s) (\<lambda>(cur, s). Ok (p_pid (ptable s ! cur), s))"

definition procinfo_bytes :: "procinfo \<Rightarrow> uchar list" where
  "procinfo_bytes p =
     le32 (of_int (pi_pid p)) @ le32 (of_int (pi_ppid p)) @ pi_state p @ le32 (pi_sz p) @ le32 (pi_cputicks p) @ pi_name p @
     le32 (of_int (pi_nice p)) @ le32 (of_int (pi_is_privileged p))"

definition bytes_procinfo :: "uchar list \<Rightarrow> procinfo" where
  "bytes_procinfo bs =
     \<lparr>pi_pid = sint (get32 bs 0), pi_ppid = sint (get32 bs 4), pi_state = slice_at 8 PSTATE_LEN bs, pi_sz = get32 bs 24,
      pi_cputicks = get32 bs 28, pi_name = slice_at 32 16 bs, pi_nice = sint (get32 bs 48), pi_is_privileged = sint (get32 bs 52)\<rparr>"

definition sys_getprocinfo :: "'z mem_st_scheme \<Rightarrow> (int \<times> 'z mem_st_scheme) res" where
  "sys_getprocinfo s =
     rbind (argi 0 s) (\<lambda>(r, s).
     case r of
       None \<Rightarrow> Ok (-1, s)
     | Some pid \<Rightarrow>
         rbind (argptr 1 56 s) (\<lambda>(r, s).
         case r of
           None \<Rightarrow> Ok (-1, s)
         | Some addr \<Rightarrow>
             if addr = 0 then rbind (getprocinfo pid None s) (\<lambda>(v, _, s). Ok (v, s))
             else rbind (copy_from_user addr 56 s) (\<lambda>(bs, s).
               rbind (getprocinfo pid (Some (bytes_procinfo bs)) s) (\<lambda>(v, info, s).
               case info of
                 None \<Rightarrow> Ok (v, s)
               | Some info \<Rightarrow> rbind (copy_to_user addr (procinfo_bytes info) s) (\<lambda>s. Ok (v, s))))))"

definition sys_sbrk :: "'z mem_st_scheme \<Rightarrow> (int \<times> 'z mem_st_scheme) res" where
  "sys_sbrk s =
     rbind (argi 0 s) (\<lambda>(r, s).
     case r of
       None \<Rightarrow> Ok (-1, s)
     | Some n \<Rightarrow>
         rbind (this_proc s) (\<lambda>(cur, s).
         let addr = sint (p_sz (ptable s ! cur)) in
         rbind (growproc n s) (\<lambda>(r, s). Ok (if r < 0 then -1 else addr, s))))"

text \<open>The loop of \<^verbatim>\<open>sys_sleep\<close>: the comparison \<^verbatim>\<open>ticks - ticks0 < n\<close> is unsigned.\<close>

definition sleep_run :: "uint \<Rightarrow> uint \<Rightarrow> 'z kern_scheme \<Rightarrow> (int option \<times> 'z kern_scheme) res" where
  "sleep_run ticks0 n s =
     (if ticks s - ticks0 < n then
        rbind (this_proc s) (\<lambda>(cur, s).
        if p_killed (ptable s ! cur) then rbind (krelease TicksLock s) (\<lambda>s. Ok (Some (-1), s))
        else rbind (sleep ChanTicks TicksLock s) (\<lambda>s. Ok (None, s)))
      else rbind (krelease TicksLock s) (\<lambda>s. Ok (Some 0, s)))"

definition sys_sleep_resume :: "nat \<Rightarrow> uint \<Rightarrow> uint \<Rightarrow> 'z kern_scheme \<Rightarrow> (int option \<times> 'z kern_scheme) res" where
  "sys_sleep_resume cur ticks0 n s = rbind (sleep_return cur TicksLock s) (sleep_run ticks0 n)"

definition sys_sleep :: "'z mem_st_scheme \<Rightarrow> (int \<times> 'z mem_st_scheme) res" where
  "sys_sleep s =
     rbind (argint 0 s) (\<lambda>(r, s).
     case r of
       None \<Rightarrow> Ok (-1, s)
     | Some n \<Rightarrow>
         rbind (kacquire TicksLock s) (\<lambda>s.
         rbind (sleep_run (ticks s) n s) (\<lambda>(r, s).
         case r of Some v \<Rightarrow> Ok (v, s) | None \<Rightarrow> Sleep ChanTicks)))"

definition sys_uptime :: "'z kern_scheme \<Rightarrow> (int \<times> 'z kern_scheme) res" where
  "sys_uptime s =
     rbind (kacquire TicksLock s) (\<lambda>s.
     let xticks = ticks s in
     rbind (krelease TicksLock s) (\<lambda>s. Ok (sint xticks, s)))"

definition sys_nice :: "'z mem_st_scheme \<Rightarrow> (int \<times> 'z mem_st_scheme) res" where
  "sys_nice s =
     rbind (argi 0 s) (\<lambda>(r, s).
     case r of
       None \<Rightarrow> Ok (-1, s)
     | Some pid \<Rightarrow>
         rbind (argi 1 s) (\<lambda>(r, s).
         case r of None \<Rightarrow> Ok (-1, s) | Some priority \<Rightarrow> nice pid priority s))"

end
