(* ===== verification/Fcntl.thy ===== *)
theory Fcntl
  imports Xv6_Prelude
begin

section \<open>Modes of open (fcntl.h)\<close>

text \<open>The flags that the file system calls of the kernel and the shell share.\<close>

definition O_RDONLY :: uint where "O_RDONLY = 0"
definition O_WRONLY :: uint where "O_WRONLY = 1"
definition O_RDWR :: uint where "O_RDWR = 2"
definition O_CREATE :: uint where "O_CREATE = 0x200"

end
