(* ===== verification/Sysfile.thy ===== *)
theory Sysfile
  imports Sysproc Fcntl
begin

section \<open>File system calls (sysfile.c)\<close>

text \<open>
  The handlers of \<^verbatim>\<open>sysfile.c\<close> with all their error paths. The bytes that a read delivers are
  stored at the user's buffer when the file operation returns, those of a write are loaded
  before it. A \<^verbatim>\<open>goto bad\<close> is a call of the definition for that label.
\<close>

text \<open>The descriptor and the file.\<close>

definition argfd :: "nat \<Rightarrow> 'z file_st_scheme \<Rightarrow> ((nat \<times> nat) option \<times> 'z file_st_scheme) res" where
  "argfd n s =
     rbind (argi n s) (\<lambda>(r, s).
     case r of
       None \<Rightarrow> Ok (None, s)
     | Some fd \<Rightarrow>
         if fd < 0 \<or> fd \<ge> int NOFILE then Ok (None, s)
         else rbind (this_proc s) (\<lambda>(cur, s).
           Ok (map_option (\<lambda>f. (nat fd, f)) (p_ofile (ptable s ! cur) ! nat fd), s)))"

definition fdalloc :: "nat \<Rightarrow> 'z kern_scheme \<Rightarrow> (nat option \<times> 'z kern_scheme) res" where
  "fdalloc f s =
     rbind (this_proc s) (\<lambda>(cur, s).
     case first_index (\<lambda>x. x = None) (take NOFILE (p_ofile (ptable s ! cur))) of
       None \<Rightarrow> Ok (None, s)
     | Some fd \<Rightarrow> Ok (Some fd, upd_proc cur (\<lambda>p. p\<lparr>p_ofile := (p_ofile p)[fd := Some f]\<rparr>) s))"

definition sys_dup :: "'z file_st_scheme \<Rightarrow> (int \<times> 'z file_st_scheme) res" where
  "sys_dup s =
     rbind (argfd 0 s) (\<lambda>(r, s).
     case r of
       None \<Rightarrow> Ok (-1, s)
     | Some (_, f) \<Rightarrow>
         rbind (fdalloc f s) (\<lambda>(r, s).
         case r of
           None \<Rightarrow> Ok (-1, s)
         | Some fd \<Rightarrow> rbind (filedup f s) (\<lambda>(_, s). Ok (int fd, s))))"

text \<open>The arguments of \<^verbatim>\<open>read\<close> and \<^verbatim>\<open>write\<close>: file, buffer, count.\<close>

definition args_rw :: "'z file_st_scheme \<Rightarrow> ((nat \<times> uint \<times> int) option \<times> 'z file_st_scheme) res" where
  "args_rw s =
     rbind (argfd 0 s) (\<lambda>(r, s).
     case r of
       None \<Rightarrow> Ok (None, s)
     | Some (_, f) \<Rightarrow>
         rbind (argi 2 s) (\<lambda>(r, s).
         case r of
           None \<Rightarrow> Ok (None, s)
         | Some n \<Rightarrow>
             rbind (argptr 1 n s) (\<lambda>(r, s). Ok (map_option (\<lambda>p. (f, p, n)) r, s))))"

definition sys_read :: "'z file_st_scheme \<Rightarrow> (int \<times> 'z file_st_scheme) res" where
  "sys_read s =
     rbind (args_rw s) (\<lambda>(r, s).
     case r of
       None \<Rightarrow> Ok (-1, s)
     | Some (f, p, n) \<Rightarrow>
         rbind (fileread f n s) (\<lambda>((v, bytes), s).
         rbind (copy_to_user p bytes s) (\<lambda>s. Ok (v, s))))"

definition sys_write :: "'z file_st_scheme \<Rightarrow> (int \<times> 'z file_st_scheme) res" where
  "sys_write s =
     rbind (args_rw s) (\<lambda>(r, s).
     case r of
       None \<Rightarrow> Ok (-1, s)
     | Some (f, p, n) \<Rightarrow>
         rbind (copy_from_user p (nat n) s) (\<lambda>(bytes, s).
         filewrite f bytes n s))"

definition sys_close :: "'z file_st_scheme \<Rightarrow> (int \<times> 'z file_st_scheme) res" where
  "sys_close s =
     rbind (argfd 0 s) (\<lambda>(r, s).
     case r of
       None \<Rightarrow> Ok (-1, s)
     | Some (fd, f) \<Rightarrow>
         rbind (this_proc s) (\<lambda>(cur, s).
         rbind (fileclose f (upd_proc cur (\<lambda>p. p\<lparr>p_ofile := (p_ofile p)[fd := None]\<rparr>) s)) (\<lambda>s.
         Ok (0, s))))"

text \<open>The 20 bytes of a \<^verbatim>\<open>struct stat\<close> that \<^verbatim>\<open>stati\<close> writes: type, padding, dev, ino, nlink, padding,
  size. The padding keeps the bytes \<open>old\<close> of the user's buffer.\<close>

definition stat_bytes :: "stat \<Rightarrow> uchar list \<Rightarrow> uchar list" where
  "stat_bytes st old =
     le16 (st_type st) @ slice_at 2 2 old @ le32 (of_nat (st_dev st)) @ le32 (st_ino st) @ le16 (st_nlink st) @ slice_at 14 2 old @
     le32 (st_size st)"

definition sys_fstat :: "'z file_st_scheme \<Rightarrow> (int \<times> 'z file_st_scheme) res" where
  "sys_fstat s =
     rbind (argfd 0 s) (\<lambda>(r, s).
     case r of
       None \<Rightarrow> Ok (-1, s)
     | Some (_, f) \<Rightarrow>
         rbind (argptr 1 20 s) (\<lambda>(r, s).
         case r of
           None \<Rightarrow> Ok (-1, s)
         | Some p \<Rightarrow>
             rbind (filestat f s) (\<lambda>(st, s).
             case st of
               None \<Rightarrow> Ok (-1, s)
             | Some st \<Rightarrow>
                 rbind (copy_from_user p 20 s) (\<lambda>(old, s).
                 rbind (copy_to_user p (stat_bytes st old) s) (\<lambda>s. Ok (0, s))))))"

definition no_name :: "uchar list" where "no_name = replicate DIRSIZ 0"

definition sys_link_bad :: "nat \<Rightarrow> 'z fs_st_scheme \<Rightarrow> (int \<times> 'z fs_st_scheme) res" where
  "sys_link_bad ip s =
     rbind (ilock (Some ip) s) (\<lambda>s.
     rbind (iupdate ip (upd_ino ip (\<lambda>x. x\<lparr>i_nlink := i_nlink x - 1\<rparr>) s)) (\<lambda>s.
     rbind (iunlockput ip s) (\<lambda>s.
     rbind (end_op s) (\<lambda>s. Ok (-1, s)))))"

definition sys_link :: "'z fs_st_scheme \<Rightarrow> (int \<times> 'z fs_st_scheme) res" where
  "sys_link s =
     rbind (argstr 0 s) (\<lambda>(old, s). case old of None \<Rightarrow> Ok (-1, s) | Some old \<Rightarrow>
     rbind (argstr 1 s) (\<lambda>(new, s). case new of None \<Rightarrow> Ok (-1, s) | Some new \<Rightarrow>
     rbind (begin_op s) (\<lambda>s.
     rbind (namei old s) (\<lambda>(ip, s). case ip of
       None \<Rightarrow> rbind (end_op s) (\<lambda>s. Ok (-1, s))
     | Some ip \<Rightarrow>
         rbind (ilock (Some ip) s) (\<lambda>s.
         if i_type (icache s ! ip) = T_DIR then
           rbind (iunlockput ip s) (\<lambda>s. rbind (end_op s) (\<lambda>s. Ok (-1, s)))
         else
           rbind (iupdate ip (upd_ino ip (\<lambda>x. x\<lparr>i_nlink := i_nlink x + 1\<rparr>) s)) (\<lambda>s.
           rbind (iunlock (Some ip) s) (\<lambda>s.
           rbind (nameiparent new no_name s) (\<lambda>((dp, name), s). case dp of
             None \<Rightarrow> sys_link_bad ip s
           | Some dp \<Rightarrow>
               rbind (ilock (Some dp) s) (\<lambda>s.
               rbind (if i_dev (icache s ! dp) \<noteq> i_dev (icache s ! ip) then Ok (-1, s)
                      else dirlink dp name (i_inum (icache s ! ip)) s) (\<lambda>(r, s).
               if r < 0 then rbind (iunlockput dp s) (\<lambda>s. sys_link_bad ip s)
               else
                 rbind (iunlockput dp s) (\<lambda>s.
                 rbind (iput ip s) (\<lambda>s.
                 rbind (end_op s) (\<lambda>s. Ok (0, s))))))))))))))"

function isdirempty_from :: "nat \<Rightarrow> nat \<Rightarrow> 'z fs_st_scheme \<Rightarrow> (bool \<times> 'z fs_st_scheme) res" where
  "isdirempty_from dp off s =
     (if unat (i_size (icache s ! dp)) \<le> off \<or> 2 ^ 32 \<le> off then Ok (True, s)
      else rbind (read_dirent ''isdirempty: readi'' dp off s) (\<lambda>(de, s).
        if de_inum de \<noteq> 0 then Ok (False, s) else isdirempty_from dp (off + 16) s))"
  by auto

termination by (relation "measure (\<lambda>(dp, off, s). 2 ^ 32 - off)") auto

declare isdirempty_from.simps [simp del]

definition isdirempty :: "nat \<Rightarrow> 'z fs_st_scheme \<Rightarrow> (bool \<times> 'z fs_st_scheme) res" where
  "isdirempty dp s = isdirempty_from dp 32 s"

definition sys_unlink_bad :: "nat \<Rightarrow> 'z fs_st_scheme \<Rightarrow> (int \<times> 'z fs_st_scheme) res" where
  "sys_unlink_bad dp s = rbind (iunlockput dp s) (\<lambda>s. rbind (end_op s) (\<lambda>s. Ok (-1, s)))"

text \<open>From the erasure of the directory entry on.\<close>

definition sys_unlink_entry :: "nat \<Rightarrow> nat \<Rightarrow> uint \<Rightarrow> 'z fs_st_scheme \<Rightarrow> (int \<times> 'z fs_st_scheme) res" where
  "sys_unlink_entry dp ip off s =
     rbind (writei dp (replicate 16 0) off s) (\<lambda>(r, s).
     if r \<noteq> 16 then Panic ''unlink: writei''
     else
       rbind (if i_type (icache s ! ip) = T_DIR
              then iupdate dp (upd_ino dp (\<lambda>x. x\<lparr>i_nlink := i_nlink x - 1\<rparr>) s) else Ok s) (\<lambda>s.
       rbind (iunlockput dp s) (\<lambda>s.
       rbind (iupdate ip (upd_ino ip (\<lambda>x. x\<lparr>i_nlink := i_nlink x - 1\<rparr>) s)) (\<lambda>s.
       rbind (iunlockput ip s) (\<lambda>s.
       rbind (end_op s) (\<lambda>s. Ok (0, s)))))))"

definition sys_unlink :: "'z fs_st_scheme \<Rightarrow> (int \<times> 'z fs_st_scheme) res" where
  "sys_unlink s =
     rbind (argstr 0 s) (\<lambda>(path, s). case path of None \<Rightarrow> Ok (-1, s) | Some path \<Rightarrow>
     rbind (begin_op s) (\<lambda>s.
     rbind (nameiparent path no_name s) (\<lambda>((dp, name), s). case dp of
       None \<Rightarrow> rbind (end_op s) (\<lambda>s. Ok (-1, s))
     | Some dp \<Rightarrow>
         rbind (ilock (Some dp) s) (\<lambda>s.
         if namecmp name (bytes_of ''.'') = 0 \<or> namecmp name (bytes_of ''..'') = 0 then sys_unlink_bad dp s
         else rbind (dirlookup dp name s) (\<lambda>(r, s). case r of
           None \<Rightarrow> sys_unlink_bad dp s
         | Some (ip, off) \<Rightarrow>
             rbind (ilock (Some ip) s) (\<lambda>s.
             if sint (i_nlink (icache s ! ip)) < 1 then Panic ''unlink: nlink < 1''
             else
               rbind (if i_type (icache s ! ip) = T_DIR then isdirempty ip s else Ok (True, s)) (\<lambda>(ok, s).
               if \<not> ok then rbind (iunlockput ip s) (\<lambda>s. sys_unlink_bad dp s)
               else sys_unlink_entry dp ip off s)))))))"

text \<open>The new inode of \<^verbatim>\<open>create\<close>, locked, in the locked directory \<open>dp\<close>.\<close>

definition create_new :: "nat \<Rightarrow> uchar list \<Rightarrow> ushort \<Rightarrow> ushort \<Rightarrow> ushort \<Rightarrow> 'z fs_st_scheme \<Rightarrow> (nat \<times> 'z fs_st_scheme) res" where
  "create_new dp name type major minor s =
     rbind (ialloc (i_dev (icache s ! dp)) type s) (\<lambda>(ip, s).
     rbind (ilock (Some ip) s) (\<lambda>s.
     rbind (iupdate ip (upd_ino ip (\<lambda>x. x\<lparr>i_major := major, i_minor := minor, i_nlink := 1\<rparr>) s)) (\<lambda>s.
     rbind (if type = T_DIR then
              rbind (iupdate dp (upd_ino dp (\<lambda>x. x\<lparr>i_nlink := i_nlink x + 1\<rparr>) s)) (\<lambda>s.
              rbind (dirlink ip (bytes_of ''.'') (i_inum (icache s ! ip)) s) (\<lambda>(r, s).
              if r < 0 then Panic ''create dots''
              else rbind (dirlink ip (bytes_of ''..'') (i_inum (icache s ! dp)) s) (\<lambda>(r, s).
                if r < 0 then Panic ''create dots'' else Ok s)))
            else Ok s) (\<lambda>s.
     rbind (dirlink dp name (i_inum (icache s ! ip)) s) (\<lambda>(r, s).
     if r < 0 then Panic ''create: dirlink''
     else rbind (iunlockput dp s) (\<lambda>s. Ok (ip, s)))))))"

definition create :: "uchar list \<Rightarrow> ushort \<Rightarrow> ushort \<Rightarrow> ushort \<Rightarrow> 'z fs_st_scheme \<Rightarrow> (nat option \<times> 'z fs_st_scheme) res" where
  "create path type major minor s =
     rbind (nameiparent path no_name s) (\<lambda>((dp, name), s). case dp of
       None \<Rightarrow> Ok (None, s)
     | Some dp \<Rightarrow>
         rbind (ilock (Some dp) s) (\<lambda>s.
         rbind (dirlookup dp name s) (\<lambda>(r, s). case r of
           Some (ip, _) \<Rightarrow>
             rbind (iunlockput dp s) (\<lambda>s.
             rbind (ilock (Some ip) s) (\<lambda>s.
             if type = T_FILE \<and> i_type (icache s ! ip) = T_FILE then Ok (Some ip, s)
             else rbind (iunlockput ip s) (\<lambda>s. Ok (None, s))))
         | None \<Rightarrow> rbind (create_new dp name type major minor s) (\<lambda>(ip, s). Ok (Some ip, s)))))"

text \<open>The inode that \<^verbatim>\<open>sys_open\<close> works on, locked; \<open>None\<close> after a failure, with the transaction ended.\<close>

definition open_inode :: "uchar list \<Rightarrow> uint \<Rightarrow> 'z fs_st_scheme \<Rightarrow> (nat option \<times> 'z fs_st_scheme) res" where
  "open_inode path omode s =
     (if omode AND O_CREATE \<noteq> 0 then
        rbind (create path T_FILE 0 0 s) (\<lambda>(ip, s). case ip of
          None \<Rightarrow> rbind (end_op s) (\<lambda>s. Ok (None, s))
        | Some ip \<Rightarrow> Ok (Some ip, s))
      else
        rbind (namei path s) (\<lambda>(ip, s). case ip of
          None \<Rightarrow> rbind (end_op s) (\<lambda>s. Ok (None, s))
        | Some ip \<Rightarrow>
            rbind (ilock (Some ip) s) (\<lambda>s.
            if i_type (icache s ! ip) = T_DIR \<and> omode \<noteq> O_RDONLY then
              rbind (iunlockput ip s) (\<lambda>s. rbind (end_op s) (\<lambda>s. Ok (None, s)))
            else Ok (Some ip, s))))"

definition sys_open :: "'z file_st_scheme \<Rightarrow> (int \<times> 'z file_st_scheme) res" where
  "sys_open s =
     rbind (argstr 0 s) (\<lambda>(path, s). case path of None \<Rightarrow> Ok (-1, s) | Some path \<Rightarrow>
     rbind (argint 1 s) (\<lambda>(omode, s). case omode of None \<Rightarrow> Ok (-1, s) | Some omode \<Rightarrow>
     rbind (begin_op s) (\<lambda>s.
     rbind (open_inode path omode s) (\<lambda>(ip, s). case ip of None \<Rightarrow> Ok (-1, s) | Some ip \<Rightarrow>
     rbind (filealloc s) (\<lambda>(f, s). case f of
       None \<Rightarrow> rbind (iunlockput ip s) (\<lambda>s. rbind (end_op s) (\<lambda>s. Ok (-1, s)))
     | Some f \<Rightarrow>
         rbind (fdalloc f s) (\<lambda>(fd, s). case fd of
           None \<Rightarrow> rbind (fileclose f s) (\<lambda>s. rbind (iunlockput ip s) (\<lambda>s. rbind (end_op s) (\<lambda>s. Ok (-1, s))))
         | Some fd \<Rightarrow>
             rbind (iunlock (Some ip) s) (\<lambda>s.
             rbind (end_op s) (\<lambda>s.
             Ok (int fd, upd_file f (\<lambda>x. x\<lparr>f_type := FD_INODE, f_ip := Some ip, f_off := 0,
                 f_readable := (omode AND O_WRONLY = 0),
                 f_writable := (omode AND O_WRONLY \<noteq> 0 \<or> omode AND O_RDWR \<noteq> 0)\<rparr>) s)))))))))"

text \<open>The end of \<^verbatim>\<open>sys_mkdir\<close> and \<^verbatim>\<open>sys_mknod\<close> after \<^verbatim>\<open>create\<close>.\<close>

definition made :: "nat option \<Rightarrow> 'z fs_st_scheme \<Rightarrow> (int \<times> 'z fs_st_scheme) res" where
  "made ip s =
     (case ip of
        None \<Rightarrow> rbind (end_op s) (\<lambda>s. Ok (-1, s))
      | Some ip \<Rightarrow> rbind (iunlockput ip s) (\<lambda>s. rbind (end_op s) (\<lambda>s. Ok (0, s))))"

definition sys_mkdir :: "'z fs_st_scheme \<Rightarrow> (int \<times> 'z fs_st_scheme) res" where
  "sys_mkdir s =
     rbind (begin_op s) (\<lambda>s.
     rbind (argstr 0 s) (\<lambda>(path, s).
     case path of
       None \<Rightarrow> made None s
     | Some path \<Rightarrow> rbind (create path T_DIR 0 0 s) (\<lambda>(ip, s). made ip s)))"

definition sys_mknod :: "'z fs_st_scheme \<Rightarrow> (int \<times> 'z fs_st_scheme) res" where
  "sys_mknod s =
     rbind (begin_op s) (\<lambda>s.
     rbind (argstr 0 s) (\<lambda>(path, s). case path of None \<Rightarrow> made None s | Some path \<Rightarrow>
     rbind (argint 1 s) (\<lambda>(major, s). case major of None \<Rightarrow> made None s | Some major \<Rightarrow>
     rbind (argint 2 s) (\<lambda>(minor, s). case minor of None \<Rightarrow> made None s | Some minor \<Rightarrow>
     rbind (create path T_DEV (ucast major) (ucast minor) s) (\<lambda>(ip, s). made ip s)))))"

definition sys_chdir :: "'z fs_st_scheme \<Rightarrow> (int \<times> 'z fs_st_scheme) res" where
  "sys_chdir s =
     rbind (this_proc s) (\<lambda>(cur, s).
     rbind (begin_op s) (\<lambda>s.
     rbind (argstr 0 s) (\<lambda>(path, s).
     rbind (case path of None \<Rightarrow> Ok (None, s) | Some path \<Rightarrow> namei path s) (\<lambda>(ip, s).
     case ip of
       None \<Rightarrow> rbind (end_op s) (\<lambda>s. Ok (-1, s))
     | Some ip \<Rightarrow>
         rbind (ilock (Some ip) s) (\<lambda>s.
         if i_type (icache s ! ip) \<noteq> T_DIR then rbind (iunlockput ip s) (\<lambda>s. rbind (end_op s) (\<lambda>s. Ok (-1, s)))
         else
           rbind (iunlock (Some ip) s) (\<lambda>s.
           rbind (case p_cwd (ptable s ! cur) of None \<Rightarrow> Undef | Some d \<Rightarrow> iput d s) (\<lambda>s.
           rbind (end_op s) (\<lambda>s.
           Ok (0, upd_proc cur (\<lambda>p. p\<lparr>p_cwd := Some ip\<rparr>) s)))))))))"

text \<open>The loop of \<^verbatim>\<open>sys_exec\<close> over the argument pointers.\<close>

primrec exec_argv :: "nat \<Rightarrow> uint \<Rightarrow> uchar list list \<Rightarrow> 'z mem_st_scheme \<Rightarrow> (uchar list list option \<times> 'z mem_st_scheme) res" where
  "exec_argv 0 uargv acc s = Ok (None, s)"
| "exec_argv (Suc n) uargv acc s =
     rbind (fetchint uargv s) (\<lambda>(uarg, s). case uarg of
       None \<Rightarrow> Ok (None, s)
     | Some uarg \<Rightarrow>
         if uarg = 0 then Ok (Some acc, s)
         else rbind (fetchstr uarg s) (\<lambda>(a, s). case a of
           None \<Rightarrow> Ok (None, s)
         | Some a \<Rightarrow> exec_argv n (uargv + 4) (acc @ [a]) s))"

definition sys_exec :: "'z fs_st_scheme \<Rightarrow> (int \<times> 'z fs_st_scheme) res" where
  "sys_exec s =
     rbind (argstr 0 s) (\<lambda>(path, s). case path of None \<Rightarrow> Ok (-1, s) | Some path \<Rightarrow>
     rbind (argint 1 s) (\<lambda>(uargv, s). case uargv of None \<Rightarrow> Ok (-1, s) | Some uargv \<Rightarrow>
     rbind (exec_argv MAXARG uargv [] s) (\<lambda>(argv, s). case argv of
       None \<Rightarrow> Ok (-1, s)
     | Some argv \<Rightarrow> exec path argv s)))"

definition sys_pipe :: "'z file_st_scheme \<Rightarrow> (int \<times> 'z file_st_scheme) res" where
  "sys_pipe s =
     rbind (argptr 0 8 s) (\<lambda>(fdp, s). case fdp of None \<Rightarrow> Ok (-1, s) | Some fdp \<Rightarrow>
     rbind (pipealloc s) (\<lambda>(r, s). case r of None \<Rightarrow> Ok (-1, s) | Some (rfl, wfl) \<Rightarrow>
     rbind (fdalloc rfl s) (\<lambda>(fd0, s).
     rbind (case fd0 of None \<Rightarrow> Ok (None, s) | Some _ \<Rightarrow> fdalloc wfl s) (\<lambda>(fd1, s).
     case (fd0, fd1) of
       (Some fd0, Some fd1) \<Rightarrow>
         rbind (copy_to_user fdp (le32 (of_nat fd0) @ le32 (of_nat fd1)) s) (\<lambda>s. Ok (0, s))
     | _ \<Rightarrow>
         rbind (case fd0 of
                  None \<Rightarrow> Ok s
                | Some fd0 \<Rightarrow> rbind (this_proc s) (\<lambda>(cur, s). Ok (upd_proc cur (\<lambda>p. p\<lparr>p_ofile := (p_ofile p)[fd0 := None]\<rparr>) s))) (\<lambda>s.
         rbind (fileclose rfl s) (\<lambda>s.
         rbind (fileclose wfl s) (\<lambda>s. Ok (-1, s))))))))"

end
