(* ===== verification/Trap.thy ===== *)
theory Trap
  imports Sysfile
begin

section \<open>System call dispatch and traps (syscall.c, trap.c, memide.c, main.c)\<close>

text \<open>
  The table of system calls and the trap handler. A system call returns a value for \<^verbatim>\<open>%eax\<close>,
  except \<^verbatim>\<open>exit\<close>, which leaves the process to the scheduler (\<open>None\<close>). \<open>trap\<close> ends in one of three
  ways: back to where the trap came from, in the scheduler because the process gave up the
  CPU, or in the scheduler because it exited.

  \<open>dev\<close> holds what a device interrupt finds at the ports: the readings of the keyboard
  controller and of the serial port, and the frame pointers a process listing follows. The disk
  is the memory disk of \<^verbatim>\<open>memide.c\<close>, whose interrupt handler does nothing; acknowledging
  interrupts and the printed messages are left out.
\<close>

definition syscall_fn :: "nat \<Rightarrow> ('z file_st_scheme \<Rightarrow> (int option \<times> 'z file_st_scheme) res) option" where
  "syscall_fn num =
     (let ret = (\<lambda>f s. rbind (f s) (\<lambda>(v, s). Ok (Some v, s))) in
      if num = 1 then Some (ret sys_fork)
      else if num = 2 then Some (\<lambda>s. rbind (sys_exit s) (\<lambda>s. Ok (None, s)))
      else if num = 3 then Some (ret sys_wait)
      else if num = 4 then Some (ret sys_pipe)
      else if num = 5 then Some (ret sys_read)
      else if num = 6 then Some (ret sys_kill)
      else if num = 7 then Some (ret sys_exec)
      else if num = 8 then Some (ret sys_fstat)
      else if num = 9 then Some (ret sys_chdir)
      else if num = 10 then Some (ret sys_dup)
      else if num = 11 then Some (ret sys_getpid)
      else if num = 12 then Some (ret sys_sbrk)
      else if num = 13 then Some (ret sys_sleep)
      else if num = 14 then Some (ret sys_uptime)
      else if num = 15 then Some (ret sys_open)
      else if num = 16 then Some (ret sys_write)
      else if num = 17 then Some (ret sys_mknod)
      else if num = 18 then Some (ret sys_unlink)
      else if num = 19 then Some (ret sys_link)
      else if num = 20 then Some (ret sys_mkdir)
      else if num = 21 then Some (ret sys_close)
      else if num = 22 then Some (ret sys_getprocinfo)
      else if num = 23 then Some (ret sys_nice)
      else None)"

text \<open>Whether the system call returned.\<close>

definition syscall :: "'z file_st_scheme \<Rightarrow> (bool \<times> 'z file_st_scheme) res" where
  "syscall s =
     rbind (this_proc s) (\<lambda>(cur, s).
     let num = sint (tf_eax (p_tf (ptable s ! cur)));
         set_eax = (\<lambda>v. upd_proc cur (\<lambda>p. p\<lparr>p_tf := (p_tf p)\<lparr>tf_eax := of_int v\<rparr>\<rparr>)) in
     case (if num > 0 then syscall_fn (nat num) else None) of
       None \<Rightarrow> Ok (True, set_eax (-1) s)
     | Some f \<Rightarrow>
         rbind (f s) (\<lambda>(r, s).
         case r of None \<Rightarrow> Ok (False, s) | Some v \<Rightarrow> Ok (True, set_eax v s)))"

definition T_SYSCALL :: uint where "T_SYSCALL = 64"
definition T_IRQ0 :: uint where "T_IRQ0 = 32"
definition IRQ_TIMER :: uint where "IRQ_TIMER = 0"
definition IRQ_KBD :: uint where "IRQ_KBD = 1"
definition IRQ_COM1 :: uint where "IRQ_COM1 = 4"
definition IRQ_IDE :: uint where "IRQ_IDE = 14"
definition IRQ_SPURIOUS :: uint where "IRQ_SPURIOUS = 31"

definition ideintr :: "'z bio_st_scheme \<Rightarrow> 'z bio_st_scheme" where
  "ideintr s = s"

record dev_input =
  kbd_io :: "(uchar \<times> uchar) list"
  uart_io :: "(uchar \<times> uchar) list"
  frames :: "nat \<Rightarrow> uint"

datatype trap_end = Back | Yielded | Exited_proc

definition tvinit :: "'z kern_scheme \<Rightarrow> 'z kern_scheme" where
  "tvinit s = s\<lparr>mach := initlock TicksLock ''time'' (mach s)\<rparr>"

definition timer_tick :: "'z kern_scheme \<Rightarrow> 'z kern_scheme res" where
  "timer_tick s =
     rbind (myproc s) (\<lambda>(p, s).
     let s = (case p of
                None \<Rightarrow> s
              | Some p \<Rightarrow> if p_state (ptable s ! p) = RUNNING then upd_proc p (\<lambda>q. q\<lparr>p_cputicks := p_cputicks q + 1\<rparr>) s else s) in
     rbind (cpuid (mach s)) (\<lambda>c.
     if c = 0 then
       rbind (kacquire TicksLock s) (\<lambda>s.
       rbind (wakeup ChanTicks (s\<lparr>ticks := ticks s + 1\<rparr>)) (\<lambda>s.
       krelease TicksLock s))
     else Ok s))"

text \<open>The \<^verbatim>\<open>switch\<close> of \<^verbatim>\<open>trap\<close>.\<close>

definition trap_device :: "trapframe \<Rightarrow> dev_input \<Rightarrow> 'z cons_st_scheme \<Rightarrow> 'z cons_st_scheme res" where
  "trap_device tf dev s =
     (let n = tf_trapno tf in
      if n = T_IRQ0 + IRQ_TIMER then timer_tick s
      else if n = T_IRQ0 + IRQ_IDE then Ok (ideintr s)
      else if n = T_IRQ0 + IRQ_IDE + 1 then Ok s
      else if n = T_IRQ0 + IRQ_KBD then kbdintr (kbd_io dev) (frames dev) s
      else if n = T_IRQ0 + IRQ_COM1 then uartintr (uart_io dev) (frames dev) s
      else if n = T_IRQ0 + 7 \<or> n = T_IRQ0 + IRQ_SPURIOUS then Ok s
      else rbind (myproc s) (\<lambda>(p, s).
        case p of
          None \<Rightarrow> Panic ''trap''
        | Some p \<Rightarrow> if tf_cs tf AND 3 = 0 then Panic ''trap'' else Ok (upd_proc p (\<lambda>q. q\<lparr>p_killed := True\<rparr>) s)))"

text \<open>Whether the process must exit: it has been killed and the trap came from user space.\<close>

definition must_exit :: "trapframe \<Rightarrow> 'z kern_scheme \<Rightarrow> (bool \<times> 'z kern_scheme) res" where
  "must_exit tf s =
     rbind (myproc s) (\<lambda>(p, s).
     Ok (case p of None \<Rightarrow> False | Some p \<Rightarrow> p_killed (ptable s ! p) \<and> tf_cs tf AND 3 = 3, s))"

definition trap_syscall :: "trapframe \<Rightarrow> 'z file_st_scheme \<Rightarrow> (trap_end \<times> 'z file_st_scheme) res" where
  "trap_syscall tf s =
     rbind (this_proc s) (\<lambda>(cur, s).
     if p_killed (ptable s ! cur) then rbind (exit s) (\<lambda>s. Ok (Exited_proc, s))
     else rbind (syscall (upd_proc cur (\<lambda>p. p\<lparr>p_tf := tf\<rparr>) s)) (\<lambda>(returned, s).
       if \<not> returned then Ok (Exited_proc, s)
       else rbind (this_proc s) (\<lambda>(cur, s).
         if p_killed (ptable s ! cur) then rbind (exit s) (\<lambda>s. Ok (Exited_proc, s)) else Ok (Back, s))))"

text \<open>When the process does not yield, the last test of \<^verbatim>\<open>trap\<close> repeats the one before.\<close>

definition trap :: "trapframe \<Rightarrow> dev_input \<Rightarrow> 'z file_st_scheme \<Rightarrow> (trap_end \<times> 'z file_st_scheme) res" where
  "trap tf dev s =
     (if tf_trapno tf = T_SYSCALL then trap_syscall tf s
      else rbind (trap_device tf dev s) (\<lambda>s.
        rbind (must_exit tf s) (\<lambda>(q, s).
        if q then rbind (exit s) (\<lambda>s. Ok (Exited_proc, s))
        else rbind (myproc s) (\<lambda>(p, s).
          if (case p of None \<Rightarrow> False | Some p \<Rightarrow> p_state (ptable s ! p) = RUNNING) \<and> tf_trapno tf = T_IRQ0 + IRQ_TIMER
          then rbind (yield s) (\<lambda>s. Ok (Yielded, s))
          else Ok (Back, s)))))"

text \<open>The end of \<^verbatim>\<open>trap\<close> when the process that yielded runs again.\<close>

definition trap_resume :: "trapframe \<Rightarrow> 'z file_st_scheme \<Rightarrow> (trap_end \<times> 'z file_st_scheme) res" where
  "trap_resume tf s =
     rbind (yield_return s) (\<lambda>s.
     rbind (must_exit tf s) (\<lambda>(q, s).
     if q then rbind (exit s) (\<lambda>s. Ok (Exited_proc, s)) else Ok (Back, s)))"

end
