(* ===== verification/Fs_Blocks.thy ===== *)
theory Fs_Blocks
  imports Fs
begin

text \<open>
  The block allocator of \<^verbatim>\<open>fs.c\<close> on top of the log: what \<^verbatim>\<open>balloc\<close> and \<^verbatim>\<open>bfree\<close> do to the contents of
  the disk as the buffer cache shows them, group by group.
\<close>

section \<open>Reading and logging blocks inside a transaction\<close>

text \<open>A process inside a transaction that may log \<open>k\<close> more blocks: no buffer is locked, and there are
  buffers and log entries for them.\<close>

definition fs_ready :: "int \<Rightarrow> nat \<Rightarrow> 'z log_st_scheme \<Rightarrow> bool" where
  "fs_ready pid k s \<longleftrightarrow> log_inv s \<and> env_ok pid s \<and> (\<forall>b. block_free s b) \<and> k < card (idle_bufs s) \<and>
     lh_n s + int k \<le> LOGSIZE \<and> lh_n s + int k \<le> log_size s - 1 \<and> 1 \<le> log_outstanding s"

text \<open>What reading and logging blocks leaves alone.\<close>

definition fs_same :: "'z log_st_scheme \<Rightarrow> 'z log_st_scheme \<Rightarrow> bool" where
  "fs_same s s' \<longleftrightarrow> disksize s' = disksize s \<and> log_start s' = log_start s \<and> log_size s' = log_size s \<and>
     log_st.more s' = log_st.more s"

lemma fs_same_refl [simp]: "fs_same s s"
  by (simp add: fs_same_def)

lemma fs_same_trans: "fs_same s t \<Longrightarrow> fs_same t u \<Longrightarrow> fs_same s u"
  by (simp add: fs_same_def)

lemma fs_same_home: "fs_same s s' \<Longrightarrow> home s' = home s"
  by (simp add: fs_same_def home_def fun_eq_iff)

lemma fs_ready_mono: "fs_ready pid k s \<Longrightarrow> j \<le> k \<Longrightarrow> fs_ready pid j s"
  by (auto simp: fs_ready_def)

lemma fs_ready_idle: "fs_ready pid k s \<Longrightarrow> idle_bufs s \<noteq> {}"
  by (auto simp: fs_ready_def)

lemma finite_idle [simp]: "finite (idle_bufs s)"
  by (simp add: idle_bufs_def)

lemma rbind_run: "rbind m f = Ok x \<Longrightarrow> rbind m (\<lambda>s. rbind (f s) g) = g x"
  by (cases m) auto

lemma peek_block:
  assumes r: "fs_ready pid k s" and b: "b < disksize s"
  shows "\<exists>i s1 s2. bread 1 b s = Ok (i, s1) \<and> bdata i s1 = bview s b \<and> brelse i s1 = Ok s2 \<and> fs_ready pid k s2 \<and>
    bview s2 = bview s \<and> fs_same s s2"
proof -
  have inv: "log_inv s" and bi: "bio_inv s" and env: "env_ok pid s" and fr: "\<forall>b. block_free s b"
    using r by (auto simp: fs_ready_def log_inv_def)
  from bread_spec [OF bi env _ b disjI1 [OF fs_ready_idle [OF r]]] fr obtain i s1 where
    s1: "bread 1 b s = Ok (i, s1)" "bio_inv s1" "env_ok pid s1" "bio_frame s i s1" "holds_buf pid s1 i b" "b_data (bcache s1 ! i) = bview s b"
    "bview s1 = bview s" "disk s1 = disk s" "dirty_blocks s1 = dirty_blocks s" "idle_bufs s1 = idle_bufs s - {i}"
    "b_dirty (bcache s1 ! i) \<or> b_refcnt (bcache s1 ! i) \<noteq> 1 \<or> b_data (bcache s1 ! i) = disk s b"
    "b_dirty (bcache s1 ! i) \<longleftrightarrow> b \<in> dirty_blocks s" "i \<in> idle_bufs s \<longleftrightarrow> b_refcnt (bcache s1 ! i) = 1 \<and> b \<notin> dirty_blocks s" by metis
  have "b_dirty (bcache s1 ! i) \<or> b_refcnt (bcache s1 ! i) \<noteq> 1 \<or> b_data (bcache s1 ! i) = disk s1 b" using s1(11) unfolding s1(8) .
  from brelse_spec [OF s1(2,3,5) this] obtain s2 where
    s2: "brelse i s1 = Ok s2" "bio_inv s2" "env_ok pid s2" "bio_frame s1 i s2" "disk s2 = disk s1" "bview s2 = bview s1" "dirty_blocks s2 = dirty_blocks s1"
    "idle_bufs s2 = (if b_dirty (bcache s1 ! i) \<or> b_refcnt (bcache s1 ! i) \<noteq> 1 then idle_bufs s1 else insert i (idle_bufs s1))"
    "\<not> sl_locked (b_lock (bcache s2 ! i))" by metis
  have m: "bio_st.more s2 = bio_st.more s" "disksize s2 = disksize s" using s1(4) s2(4) by (simp_all add: bio_frame_def)
  note lm = log_more [OF m(1)]
  have li: "log_inv s2" by (rule log_inv_frame [OF inv s2(2) m]) (use s1 s2 in simp_all)
  have id: "idle_bufs s2 = idle_bufs s" using s2(8) s1(10,12,13) by (auto split: if_splits)
  have "\<forall>c. block_free s2 c"
  proof
    fix c
    show "block_free s2 c" unfolding block_free_def
    proof (intro allI impI)
      fix j
      assume j: "j < NBUF" "b_dev (bcache s2 ! j) = 1 \<and> b_blockno (bcache s2 ! j) = c"
      show "\<not> sl_locked (b_lock (bcache s2 ! j))"
      proof (cases "j = i")
        case False
        then have "bcore (bcache s2 ! j) = bcore (bcache s ! j)" using s1(4) s2(4) j(1) by (simp add: bio_frame_def)
        then have "b_dev (bcache s ! j) = 1" "b_blockno (bcache s ! j) = c" "b_lock (bcache s2 ! j) = b_lock (bcache s ! j)"
          using j(2) by (auto simp: bcore_eq)
        then show ?thesis using fr j(1) by (auto simp: block_free_def)
      qed (use s2(9) in simp)
    qed
  qed
  then have "fs_ready pid k s2" using r li s2(3) id lm by (simp add: fs_ready_def)
  moreover have "fs_same s s2" using m(2) lm by (simp add: fs_same_def)
  ultimately show ?thesis using s1(1,6,7) s2(1,6) by (auto simp: bdata_def)
qed

lemma put_block:
  assumes r: "fs_ready pid (Suc k) s" and b: "b < disksize s" "home s b" and f: "length d = BSIZE"
  shows "\<exists>i s1 s2. bread 1 b s = Ok (i, s1) \<and> bdata i s1 = bview s b \<and> rbind (log_write i (bset i d s1)) (brelse i) = Ok s2 \<and>
    fs_ready pid k s2 \<and> bview s2 = (bview s)(b := d) \<and> fs_same s s2"
proof -
  have inv: "log_inv s" and env: "env_ok pid s" and fr: "\<forall>b. block_free s b" and n: "lh_n s < LOGSIZE" "lh_n s < log_size s - 1" "1 \<le> log_outstanding s"
    using r by (auto simp: fs_ready_def)
  obtain i s1 where s1: "bread 1 b s = Ok (i, s1)" "bdata i s1 = bview s b" using peek_block [OF r b(1)] by blast
  have f': "length ((\<lambda>_. d) (bview s b)) = BSIZE" using f by simp
  obtain s2 where s2: "log_block b (\<lambda>_. d) s = Ok s2" "log_inv s2" "env_ok pid s2" "bview s2 = (bview s)(b := d)"
    "lh_n s2 = lh_n s + (if b \<in> set (logged s) then 0 else 1)" "\<forall>c. block_free s c \<longrightarrow> block_free s2 c"
    "card (idle_bufs s) \<le> card (idle_bufs s2) + (if b \<in> set (logged s) then 0 else 1)" "disksize s2 = disksize s"
    "log_start s2 = log_start s" "log_size s2 = log_size s" "log_outstanding s2 = log_outstanding s" "log_st.more s2 = log_st.more s"
    using log_block_spec [OF inv env _ b fs_ready_idle [OF r] n f'] fr by metis
  have "rbind (log_write i (bset i d s1)) (brelse i) = Ok s2" using s2(1) s1(1) by (simp add: log_block_def)
  moreover have "fs_ready pid k s2" using r s2 by (auto simp: fs_ready_def split: if_splits)
  moreover have "fs_same s s2" using s2 by (simp add: fs_same_def)
  ultimately show ?thesis using s1 s2(4) by blast
qed

lemma readsb_run:
  assumes r: "fs_ready pid k s" and b: "1 < disksize s"
  shows "\<exists>s2. readsb 1 s = Ok (superblock_of (bview s 1), s2) \<and> fs_ready pid k s2 \<and> bview s2 = bview s \<and> fs_same s s2"
proof -
  obtain i s1 s2 where p: "bread 1 1 s = Ok (i, s1)" "bdata i s1 = bview s 1" "brelse i s1 = Ok s2" "fs_ready pid k s2" "bview s2 = bview s" "fs_same s s2"
    using peek_block [OF assms] by blast
  then have "readsb 1 s = Ok (superblock_of (bview s 1), s2)" by (simp add: readsb_def bdata_def)
  then show ?thesis using p(4-6) by blast
qed

section \<open>Allocating and freeing blocks\<close>

definition group_start :: "superblock \<Rightarrow> nat \<Rightarrow> uint" where
  "group_start sblk g = sb_logstart sblk + sb_nlog sblk + of_nat g * sb_bpg sblk"

definition group_bitmap :: "superblock \<Rightarrow> nat \<Rightarrow> nat" where
  "group_bitmap sblk g = unat (group_start sblk g + sb_ipg sblk div IPB)"

text \<open>The first clear bit of a bitmap block.\<close>

definition free_bit :: "superblock \<Rightarrow> block \<Rightarrow> nat option" where
  "free_bit sblk d = find (\<lambda>bi. \<not> bitmap_bit d bi) [0..<min BPB (unat (sb_bpg sblk))]"

text \<open>A super block whose groups lie on the disk behind the log, with no wrap-around, each with room
  for its inode blocks and its bitmap.\<close>

definition groups_ok :: "superblock \<Rightarrow> 'z log_st_scheme \<Rightarrow> bool" where
  "groups_ok sblk s \<longleftrightarrow> 0 < unat (sb_bpg sblk) \<and> 1 < unat (sb_logstart sblk) + unat (sb_nlog sblk) \<and> unat (sb_ipg sblk) div 8 < unat (sb_bpg sblk) \<and>
     log_start s + nat (log_size s) \<le> unat (sb_logstart sblk) + unat (sb_nlog sblk) \<and>
     unat (sb_logstart sblk) + unat (sb_nlog sblk) + unat (sb_ngroups sblk) * unat (sb_bpg sblk) \<le> disksize s \<and> disksize s < 2 ^ 32"

lemma unat_IPB [simp]: "unat IPB = 8"
  by (simp add: IPB_def BSIZE_def)

lemma group_arith:
  assumes ok: "groups_ok sblk s" and g: "g < unat (sb_ngroups sblk)" and x: "x < unat (sb_bpg sblk)"
  shows "unat (group_start sblk g + of_nat x) = unat (sb_logstart sblk) + unat (sb_nlog sblk) + g * unat (sb_bpg sblk) + x"
    and "unat (sb_logstart sblk) + unat (sb_nlog sblk) + g * unat (sb_bpg sblk) + x < disksize s"
proof -
  let ?S = "unat (sb_logstart sblk) + unat (sb_nlog sblk)" and ?B = "unat (sb_bpg sblk)"
  have "Suc g * ?B \<le> unat (sb_ngroups sblk) * ?B" using g by (intro mult_le_mono1) simp
  then have gB: "g * ?B + ?B \<le> unat (sb_ngroups sblk) * ?B" by simp
  show lt: "?S + g * ?B + x < disksize s" using ok x gB unfolding groups_ok_def by linarith
  have "?S + g * ?B + x < 2 ^ 32" using lt ok by (simp add: groups_ok_def)
  moreover have "group_start sblk g + of_nat x = of_nat (?S + g * ?B + x)" by (simp add: group_start_def)
  ultimately show "unat (group_start sblk g + of_nat x) = ?S + g * ?B + x"
    by (simp add: unsigned_of_nat take_bit_nat_eq_self del: of_nat_add of_nat_mult)
qed

lemma group_bitmap_eq:
  assumes ok: "groups_ok sblk s" and g: "g < unat (sb_ngroups sblk)"
  shows "group_bitmap sblk g = unat (sb_logstart sblk) + unat (sb_nlog sblk) + g * unat (sb_bpg sblk) + unat (sb_ipg sblk) div 8"
    and "group_bitmap sblk g < disksize s"
proof -
  have x: "unat (sb_ipg sblk) div 8 < unat (sb_bpg sblk)" using ok by (simp add: groups_ok_def)
  have "sb_ipg sblk div IPB = of_nat (unat (sb_ipg sblk) div 8)"
  proof -
    have "unat (sb_ipg sblk) < 2 ^ 32" using unsigned_less [of "sb_ipg sblk"] by simp
    then have "unat (sb_ipg sblk) div 8 < 2 ^ 32" by simp
    then show ?thesis by (simp add: word_unat_eq_iff unat_div_distrib unsigned_of_nat take_bit_nat_eq_self)
  qed
  then show "group_bitmap sblk g = unat (sb_logstart sblk) + unat (sb_nlog sblk) + g * unat (sb_bpg sblk) + unat (sb_ipg sblk) div 8"
    "group_bitmap sblk g < disksize s"
    using group_arith [OF ok g x] by (simp_all add: group_bitmap_def)
qed

lemma group_home:
  assumes "groups_ok sblk s" and "unat (sb_logstart sblk) + unat (sb_nlog sblk) \<le> b"
  shows "home s b"
  using assms by (simp add: groups_ok_def home_def)

lemma free_bit_SomeD:
  assumes "free_bit sblk d = Some bi"
  shows "bi < BPB" and "bi < unat (sb_bpg sblk)" and "\<not> bitmap_bit d bi"
  using assms by (auto simp: free_bit_def find_Some_iff)

lemma length_set_bitmap [simp]: "length (set_bitmap bi d) = length d" "length (clear_bitmap bi d) = length d"
  by (simp_all add: set_bitmap_def clear_bitmap_def)

text \<open>What \<^verbatim>\<open>balloc\<close> makes of the contents of the disk when it takes block \<open>bi\<close> of group \<open>h\<close>.\<close>

definition taken :: "superblock \<Rightarrow> nat \<Rightarrow> nat \<Rightarrow> (nat \<Rightarrow> block) \<Rightarrow> nat \<Rightarrow> block" where
  "taken sblk h bi v =
     v(group_bitmap sblk h := set_bitmap bi (v (group_bitmap sblk h)), unat (group_start sblk h + of_nat bi) := replicate BSIZE 0)"

lemma balloc_groups_run:
  assumes "fs_ready pid (Suc (Suc k)) s" and "groups_ok sblk s" and "g + n \<le> unat (sb_ngroups sblk)"
  shows "\<exists>r s'. balloc_groups n g 1 sblk s = Ok (r, s') \<and> fs_same s s' \<and> fs_ready pid k s' \<and>
    ((\<forall>h. g \<le> h \<and> h < g + n \<longrightarrow> free_bit sblk (bview s (group_bitmap sblk h)) = None) \<and> r = 0 \<and> bview s' = bview s \<or>
     (\<exists>h bi. g \<le> h \<and> h < g + n \<and> (\<forall>h'. g \<le> h' \<and> h' < h \<longrightarrow> free_bit sblk (bview s (group_bitmap sblk h')) = None) \<and> free_bit sblk (bview s (group_bitmap sblk h)) = Some bi \<and> r = group_start sblk h + of_nat bi \<and>
        bview s' = taken sblk h bi (bview s)))"
  using assms
proof (induction n arbitrary: g s)
  case 0
  then show ?case using fs_ready_mono [OF 0(1), of k] by auto
next
  case (Suc n)
  have g: "g < unat (sb_ngroups sblk)" using Suc.prems(3) by simp
  note bm = group_bitmap_eq [OF Suc.prems(2) g]
  have eb: "sb_logstart sblk + sb_nlog sblk + of_nat g * sb_bpg sblk = group_start sblk g" by (simp add: group_start_def)
  have ub: "unat (group_start sblk g + sb_ipg sblk div IPB) = group_bitmap sblk g" by (simp add: group_bitmap_def)
  have hm: "home s (group_bitmap sblk g)" by (rule group_home [OF Suc.prems(2)]) (use bm(1) in simp)
  show ?case
  proof (cases "free_bit sblk (bview s (group_bitmap sblk g))")
    case None
    obtain i s1 s2 where p: "bread 1 (group_bitmap sblk g) s = Ok (i, s1)" "bdata i s1 = bview s (group_bitmap sblk g)" "brelse i s1 = Ok s2"
      "fs_ready pid (Suc (Suc k)) s2" "bview s2 = bview s" "fs_same s s2" using peek_block [OF Suc.prems(1) bm(2)] by blast
    have e: "balloc_groups (Suc n) g 1 sblk s = balloc_groups n (Suc g) 1 sblk s2"
      using None p(1-3) by (simp add: Let_def eb ub free_bit_def)
    have go: "groups_ok sblk s2" using Suc.prems(2) p(6) by (simp add: groups_ok_def fs_same_def)
    have le: "Suc g + n \<le> unat (sb_ngroups sblk)" using Suc.prems(3) by simp
    obtain r s' where IH: "balloc_groups n (Suc g) 1 sblk s2 = Ok (r, s')" "fs_same s2 s'" "fs_ready pid k s'"
      "(\<forall>h. Suc g \<le> h \<and> h < Suc g + n \<longrightarrow> free_bit sblk (bview s (group_bitmap sblk h)) = None) \<and> r = 0 \<and> bview s' = bview s \<or>
       (\<exists>h bi. Suc g \<le> h \<and> h < Suc g + n \<and> (\<forall>h'. Suc g \<le> h' \<and> h' < h \<longrightarrow> free_bit sblk (bview s (group_bitmap sblk h')) = None) \<and> free_bit sblk (bview s (group_bitmap sblk h)) = Some bi \<and> r = group_start sblk h + of_nat bi \<and>
          bview s' = taken sblk h bi (bview s))"
      using Suc.IH [OF p(4) go le] unfolding p(5) by blast
    have nx: "h = g \<or> Suc g \<le> h" if "g \<le> h" for h using that by auto
    have "(\<forall>h. g \<le> h \<and> h < g + Suc n \<longrightarrow> free_bit sblk (bview s (group_bitmap sblk h)) = None) \<and> r = 0 \<and> bview s' = bview s \<or>
       (\<exists>h bi. g \<le> h \<and> h < g + Suc n \<and> (\<forall>h'. g \<le> h' \<and> h' < h \<longrightarrow> free_bit sblk (bview s (group_bitmap sblk h')) = None) \<and> free_bit sblk (bview s (group_bitmap sblk h)) = Some bi \<and> r = group_start sblk h + of_nat bi \<and>
          bview s' = taken sblk h bi (bview s))"
      using IH(4)
    proof
      assume "(\<forall>h. Suc g \<le> h \<and> h < Suc g + n \<longrightarrow> free_bit sblk (bview s (group_bitmap sblk h)) = None) \<and> r = 0 \<and> bview s' = bview s"
      then show ?thesis using None nx by (intro disjI1) (metis add_Suc add_Suc_right)
    next
      assume "\<exists>h bi. Suc g \<le> h \<and> h < Suc g + n \<and> (\<forall>h'. Suc g \<le> h' \<and> h' < h \<longrightarrow> free_bit sblk (bview s (group_bitmap sblk h')) = None) \<and>
        free_bit sblk (bview s (group_bitmap sblk h)) = Some bi \<and> r = group_start sblk h + of_nat bi \<and> bview s' = taken sblk h bi (bview s)"
      then obtain h bi where h: "Suc g \<le> h" "h < Suc g + n" "\<forall>h'. Suc g \<le> h' \<and> h' < h \<longrightarrow> free_bit sblk (bview s (group_bitmap sblk h')) = None"
        and rest: "free_bit sblk (bview s (group_bitmap sblk h)) = Some bi" "r = group_start sblk h + of_nat bi" "bview s' = taken sblk h bi (bview s)" by blast
      have "\<forall>h'. g \<le> h' \<and> h' < h \<longrightarrow> free_bit sblk (bview s (group_bitmap sblk h')) = None" using h(3) None nx by blast
      with h(1,2) rest show ?thesis by (intro disjI2 exI [of _ h] exI [of _ bi]) simp
    qed
    then show ?thesis using e IH(1-3) fs_same_trans [OF p(6) IH(2)] by auto
  next
    case (Some bi)
    note fb = free_bit_SomeD [OF Some]
    let ?d = "set_bitmap bi (bview s (group_bitmap sblk g))" and ?a = "unat (group_start sblk g + of_nat bi)"
    have bi: "bio_inv s" using Suc.prems(1) by (simp add: fs_ready_def log_inv_def)
    have len: "length ?d = BSIZE" using length_bview [OF bi bm(2)] by simp
    obtain i s1 s2 where p: "bread 1 (group_bitmap sblk g) s = Ok (i, s1)" "bdata i s1 = bview s (group_bitmap sblk g)"
      "rbind (log_write i (bset i ?d s1)) (brelse i) = Ok s2" "fs_ready pid (Suc k) s2" "bview s2 = (bview s)(group_bitmap sblk g := ?d)" "fs_same s s2"
      using put_block [OF Suc.prems(1) bm(2) hm len] by blast
    note ga = group_arith [OF Suc.prems(2) g fb(2)]
    have a: "?a < disksize s2" "home s2 ?a"
      using ga p(6) group_home [OF Suc.prems(2), of ?a] fs_same_home [OF p(6)] by (simp_all add: fs_same_def)
    obtain j s3 s4 where q: "bread 1 ?a s2 = Ok (j, s3)" "rbind (log_write j (bset j (replicate BSIZE 0) s3)) (brelse j) = Ok s4"
      "fs_ready pid k s4" "bview s4 = (bview s2)(?a := replicate BSIZE 0)" "fs_same s2 s4"
      using put_block [OF p(4) a, of "replicate BSIZE 0"] by auto
    have "balloc_groups (Suc n) g 1 sblk s = Ok (group_start sblk g + of_nat bi, s4)"
      using Some p(1,2) q(1) unfolding free_bit_def
      by (simp add: Let_def eb ub rbind_run [OF p(3)] rbind_run [OF q(2)])
    moreover have "bview s4 = taken sblk g bi (bview s)" unfolding q(4) p(5) taken_def ..
    ultimately show ?thesis using q(3) fs_same_trans [OF p(6) q(5)] Some by auto
  qed
qed

lemma balloc_run:
  assumes r: "fs_ready pid (Suc (Suc k)) s" and ok: "groups_ok (superblock_of (bview s 1)) s" and d: "1 < disksize s"
  shows "\<exists>r s'. balloc 1 s = Ok (r, s') \<and> fs_same s s' \<and> fs_ready pid k s' \<and> (let sblk = superblock_of (bview s 1) in
    (\<forall>h<unat (sb_ngroups sblk). free_bit sblk (bview s (group_bitmap sblk h)) = None) \<and> r = 0 \<and> bview s' = bview s \<or>
    (\<exists>h<unat (sb_ngroups sblk). \<exists>bi. (\<forall>h'<h. free_bit sblk (bview s (group_bitmap sblk h')) = None) \<and> free_bit sblk (bview s (group_bitmap sblk h)) = Some bi \<and> r = group_start sblk h + of_nat bi \<and>
        bview s' = taken sblk h bi (bview s)))"
proof -
  let ?sb = "superblock_of (bview s 1)"
  obtain s1 where s1: "readsb 1 s = Ok (?sb, s1)" "fs_ready pid (Suc (Suc k)) s1" "bview s1 = bview s" "fs_same s s1" using readsb_run [OF r d] by blast
  have ok1: "groups_ok ?sb s1" using ok s1(4) by (simp add: groups_ok_def fs_same_def)
  obtain r s' where b: "balloc_groups (unat (sb_ngroups ?sb)) 0 1 ?sb s1 = Ok (r, s')" "fs_same s1 s'" "fs_ready pid k s'"
    "(\<forall>h. 0 \<le> h \<and> h < 0 + unat (sb_ngroups ?sb) \<longrightarrow> free_bit ?sb (bview s (group_bitmap ?sb h)) = None) \<and> r = 0 \<and> bview s' = bview s \<or>
     (\<exists>h bi. 0 \<le> h \<and> h < 0 + unat (sb_ngroups ?sb) \<and> (\<forall>h'. 0 \<le> h' \<and> h' < h \<longrightarrow> free_bit ?sb (bview s (group_bitmap ?sb h')) = None) \<and> free_bit ?sb (bview s (group_bitmap ?sb h)) = Some bi \<and> r = group_start ?sb h + of_nat bi \<and>
        bview s' = taken ?sb h bi (bview s))"
    using balloc_groups_run [OF s1(2) ok1, of 0 "unat (sb_ngroups ?sb)"] unfolding s1(3) by auto
  have "balloc 1 s = Ok (r, s')" using s1(1) b(1) by (simp add: balloc_def)
  then show ?thesis using b(2-4) fs_same_trans [OF s1(4) b(2)] by (auto simp: Let_def)
qed

lemma bitmap_byte:
  assumes "bi div 8 < length d"
  shows "bitmap_bit d bi \<longleftrightarrow> bit (d ! (bi div 8)) (bi mod 8)"
proof -
  have "(x AND push_bit m 1 \<noteq> 0) \<longleftrightarrow> bit x m" if "m < 8" for x :: uchar and m
    using that by (simp only: bit_iff_and_push_bit_not_eq_0 simp_thms)
  then show ?thesis by (simp add: bitmap_bit_def)
qed

lemma bitmap_set_bit:
  assumes "bi div 8 < length d" and "bj div 8 < length d"
  shows "bitmap_bit (set_bitmap bi d) bj \<longleftrightarrow> bj = bi \<or> bitmap_bit d bj"
    and "bitmap_bit (clear_bitmap bi d) bj \<longleftrightarrow> bj \<noteq> bi \<and> bitmap_bit d bj"
proof -
  have eq: "bj = bi \<longleftrightarrow> bj div 8 = bi div 8 \<and> bj mod 8 = bi mod 8" by (metis mult_div_mod_eq)
  have m: "bj mod 8 < 8" "bi mod 8 < 8" by simp_all
  show "bitmap_bit (set_bitmap bi d) bj \<longleftrightarrow> bj = bi \<or> bitmap_bit d bj"
    using assms m unfolding eq by (auto simp: bitmap_byte set_bitmap_def nth_list_update bit_simps)
  show "bitmap_bit (clear_bitmap bi d) bj \<longleftrightarrow> bj \<noteq> bi \<and> bitmap_bit d bj"
    using assms m unfolding eq by (auto simp: bitmap_byte clear_bitmap_def nth_list_update bit_simps)
qed

lemma clear_set_bitmap:
  assumes "bi div 8 < length d" and "\<not> bitmap_bit d bi"
  shows "clear_bitmap bi (set_bitmap bi d) = d"
proof -
  let ?x = "d ! (bi div 8)" and ?m = "bi mod 8"
  have "\<not> bit ?x ?m" using assms by (simp add: bitmap_byte)
  then have "(?x OR push_bit ?m 1) AND NOT (push_bit ?m 1) = ?x" by (intro bit_word_eqI) (auto simp: bit_simps)
  then show ?thesis using assms(1) by (simp add: clear_bitmap_def set_bitmap_def)
qed

text \<open>The bitmap block and the bit of a block, as \<^verbatim>\<open>bfree\<close> computes them.\<close>

lemma bblock_of_group:
  assumes ok: "groups_ok sblk s" and g: "g < unat (sb_ngroups sblk)" and x: "x < unat (sb_bpg sblk)"
  shows "unat (BBLOCK (group_start sblk g + of_nat x) sblk) = group_bitmap sblk g"
    and "unat ((group_start sblk g + of_nat x - (sb_logstart sblk + sb_nlog sblk)) mod sb_bpg sblk) = x"
proof -
  let ?S = "unat (sb_logstart sblk) + unat (sb_nlog sblk)" and ?B = "unat (sb_bpg sblk)"
  have lt: "?S + g * ?B + x < 2 ^ 32" using group_arith(2) [OF assms] ok by (simp add: groups_ok_def)
  have d: "group_start sblk g + of_nat x - (sb_logstart sblk + sb_nlog sblk) = of_nat (g * ?B + x)" by (simp add: group_start_def)
  have u: "unat (of_nat (g * ?B + x) :: uint) = g * ?B + x" using lt by (simp add: unsigned_of_nat take_bit_nat_eq_self del: of_nat_add of_nat_mult)
  have "(group_start sblk g + of_nat x - (sb_logstart sblk + sb_nlog sblk)) div sb_bpg sblk = of_nat g"
  proof -
    have "unat ((of_nat (g * ?B + x) :: uint) div sb_bpg sblk) = g" using x unfolding unat_div_distrib u by simp
    from arg_cong [OF this, of "of_nat :: nat \<Rightarrow> uint"] show ?thesis unfolding d by simp
  qed
  then show "unat (BBLOCK (group_start sblk g + of_nat x) sblk) = group_bitmap sblk g"
    by (simp add: BBLOCK_def group_bitmap_def group_start_def)
  show "unat ((group_start sblk g + of_nat x - (sb_logstart sblk + sb_nlog sblk)) mod sb_bpg sblk) = x"
    unfolding d unat_mod_distrib u using x by simp
qed

lemma bfree_run:
  assumes r: "fs_ready pid (Suc k) s" and ok: "groups_ok (superblock_of (bview s 1)) s" and d: "1 < disksize s"
    and g: "g < unat (sb_ngroups (superblock_of (bview s 1)))" and x: "x < unat (sb_bpg (superblock_of (bview s 1)))" "x < BPB"
    and bt: "bitmap_bit (bview s (group_bitmap (superblock_of (bview s 1)) g)) x"
  shows "\<exists>s'. bfree 1 (group_start (superblock_of (bview s 1)) g + of_nat x) s = Ok s' \<and> fs_ready pid k s' \<and> fs_same s s' \<and>
    bview s' = (bview s)(group_bitmap (superblock_of (bview s 1)) g := clear_bitmap x (bview s (group_bitmap (superblock_of (bview s 1)) g)))"
proof -
  let ?sb = "superblock_of (bview s 1)" and ?b = "group_start (superblock_of (bview s 1)) g + of_nat x"
  let ?d = "clear_bitmap x (bview s (group_bitmap ?sb g))"
  obtain s1 where s1: "readsb 1 s = Ok (?sb, s1)" "fs_ready pid (Suc k) s1" "bview s1 = bview s" "fs_same s s1" using readsb_run [OF r d] by blast
  have ok1: "groups_ok ?sb s1" using ok s1(4) by (simp add: groups_ok_def fs_same_def)
  note bm = group_bitmap_eq [OF ok1 g]
  have hm: "home s1 (group_bitmap ?sb g)" by (rule group_home [OF ok1]) (use bm(1) in simp)
  have "bio_inv s1" using s1(2) by (simp add: fs_ready_def log_inv_def)
  then have len: "length ?d = BSIZE" using length_bview [OF _ bm(2)] s1(3) by simp
  obtain i s2 s3 where p: "bread 1 (group_bitmap ?sb g) s1 = Ok (i, s2)" "bdata i s2 = bview s (group_bitmap ?sb g)"
    "rbind (log_write i (bset i ?d s2)) (brelse i) = Ok s3" "fs_ready pid k s3" "bview s3 = (bview s)(group_bitmap ?sb g := ?d)" "fs_same s1 s3"
    using put_block [OF s1(2) bm(2) hm len] unfolding s1(3) by blast
  have nz: "nonzero (sb_bpg ?sb) = Ok ()" using ok by (auto simp: nonzero_def groups_ok_def)
  have x8: "\<not> BSIZE \<le> x div 8" using x(2) by (simp add: BPB_def BSIZE_def)
  have "bfree 1 ?b s = Ok s3"
    using s1(1) p(1-3) bt x8 by (simp add: bfree_def Let_def nz bblock_of_group [OF ok g x(1)] del: One_nat_def)
  then show ?thesis using p(4,5) fs_same_trans [OF s1(4) p(6)] by blast
qed

text \<open>
  C26. \<^verbatim>\<open>balloc\<close> returns a free block or 0. In a transaction with room for two blocks, on a disk whose
  block groups fit, it always returns; if some group has a clear bit it returns the block of the
  first clear bit of the first such group, has set exactly that bit and zeroed exactly that block;
  if every bitmap is full it returns 0 and has changed nothing.
\<close>

theorem balloc_returns_free_block:
  assumes "fs_ready pid (Suc (Suc k)) s" and "groups_ok (superblock_of (bview s 1)) s" and "1 < disksize s"
  shows "\<exists>r s'. balloc 1 s = Ok (r, s') \<and> fs_ready pid k s' \<and> (let sblk = superblock_of (bview s 1) in
    (if \<exists>h<unat (sb_ngroups sblk). \<exists>x<min BPB (unat (sb_bpg sblk)). \<not> bitmap_bit (bview s (group_bitmap sblk h)) x
     then \<exists>h<unat (sb_ngroups sblk). \<exists>x<min BPB (unat (sb_bpg sblk)). r = group_start sblk h + of_nat x \<and>
            \<not> bitmap_bit (bview s (group_bitmap sblk h)) x \<and> (\<forall>y<x. bitmap_bit (bview s (group_bitmap sblk h)) y) \<and>
            (\<forall>h'<h. \<forall>y<min BPB (unat (sb_bpg sblk)). bitmap_bit (bview s (group_bitmap sblk h')) y) \<and>
            (unat r \<noteq> group_bitmap sblk h \<longrightarrow> bitmap_bit (bview s' (group_bitmap sblk h)) x \<and>
               (\<forall>y<BPB. y \<noteq> x \<longrightarrow> bitmap_bit (bview s' (group_bitmap sblk h)) y = bitmap_bit (bview s (group_bitmap sblk h)) y)) \<and>
            bview s' (unat r) = replicate BSIZE 0 \<and> (\<forall>b. b \<noteq> unat r \<and> b \<noteq> group_bitmap sblk h \<longrightarrow> bview s' b = bview s b)
     else r = 0 \<and> bview s' = bview s))"
proof -
  let ?sb = "superblock_of (bview s 1)"
  have none: "free_bit ?sb d = None \<longleftrightarrow> (\<forall>x<min BPB (unat (sb_bpg ?sb)). bitmap_bit d x)" for d
    by (auto simp: free_bit_def find_None_iff)
  obtain r s' where b: "balloc 1 s = Ok (r, s')" "fs_ready pid k s'"
    "(\<forall>h<unat (sb_ngroups ?sb). free_bit ?sb (bview s (group_bitmap ?sb h)) = None) \<and> r = 0 \<and> bview s' = bview s \<or>
    (\<exists>h<unat (sb_ngroups ?sb). \<exists>bi. (\<forall>h'<h. free_bit ?sb (bview s (group_bitmap ?sb h')) = None) \<and> free_bit ?sb (bview s (group_bitmap ?sb h)) = Some bi \<and> r = group_start ?sb h + of_nat bi \<and>
        bview s' = taken ?sb h bi (bview s))"
    using balloc_run [OF assms] by (auto simp: Let_def)
  from b(3) show ?thesis
  proof
    assume "(\<forall>h<unat (sb_ngroups ?sb). free_bit ?sb (bview s (group_bitmap ?sb h)) = None) \<and> r = 0 \<and> bview s' = bview s"
    then have e: "r = 0" "bview s' = bview s" and n: "\<And>h. h < unat (sb_ngroups ?sb) \<Longrightarrow> free_bit ?sb (bview s (group_bitmap ?sb h)) = None" by simp_all
    have nex: "\<not> (\<exists>h<unat (sb_ngroups ?sb). \<exists>x<min BPB (unat (sb_bpg ?sb)). \<not> bitmap_bit (bview s (group_bitmap ?sb h)) x)"
      using n unfolding none by blast
    show ?thesis unfolding Let_def if_not_P [OF nex] by (intro exI conjI) (rule b e)+
  next
    assume "\<exists>h<unat (sb_ngroups ?sb). \<exists>bi. (\<forall>h'<h. free_bit ?sb (bview s (group_bitmap ?sb h')) = None) \<and> free_bit ?sb (bview s (group_bitmap ?sb h)) = Some bi \<and> r = group_start ?sb h + of_nat bi \<and>
        bview s' = taken ?sb h bi (bview s)"
    then obtain h x where h: "h < unat (sb_ngroups ?sb)" and fx: "free_bit ?sb (bview s (group_bitmap ?sb h)) = Some x"
      and rx: "r = group_start ?sb h + of_nat x" and v: "bview s' = taken ?sb h x (bview s)"
      and prev: "\<forall>h'<h. free_bit ?sb (bview s (group_bitmap ?sb h')) = None" by blast
    have prev': "\<forall>h'<h. \<forall>y<min BPB (unat (sb_bpg ?sb)). bitmap_bit (bview s (group_bitmap ?sb h')) y" using prev unfolding none .
    note fb = free_bit_SomeD [OF fx]
    have first: "\<forall>y<x. bitmap_bit (bview s (group_bitmap ?sb h)) y" using fx fb(1,2) by (auto simp: free_bit_def find_Some_iff)
    have bi: "bio_inv s" using assms(1) by (simp add: fs_ready_def log_inv_def)
    have len: "length (bview s (group_bitmap ?sb h)) = BSIZE" by (rule length_bview [OF bi group_bitmap_eq(2) [OF assms(2) h]])
    have dv: "y div 8 < BSIZE" if "y < BPB" for y using that by (simp add: BPB_def BSIZE_def)
    have bits: "bitmap_bit (set_bitmap x (bview s (group_bitmap ?sb h))) y \<longleftrightarrow> y = x \<or> bitmap_bit (bview s (group_bitmap ?sb h)) y" if "y < BPB" for y
      by (rule bitmap_set_bit) (use dv fb(1) that len in simp_all)
    have ex: "\<exists>h<unat (sb_ngroups ?sb). \<exists>x<min BPB (unat (sb_bpg ?sb)). \<not> bitmap_bit (bview s (group_bitmap ?sb h)) x"
      using h fb by auto
    have x: "x < min BPB (unat (sb_bpg ?sb))" using fb(1,2) by simp
    have new: "unat r \<noteq> group_bitmap ?sb h \<longrightarrow> bitmap_bit (bview s' (group_bitmap ?sb h)) x \<and>
        (\<forall>y<BPB. y \<noteq> x \<longrightarrow> bitmap_bit (bview s' (group_bitmap ?sb h)) y = bitmap_bit (bview s (group_bitmap ?sb h)) y)"
      using bits fb(1) rx by (auto simp: v taken_def)
    have z: "bview s' (unat r) = replicate BSIZE 0" "\<forall>b. b \<noteq> unat r \<and> b \<noteq> group_bitmap ?sb h \<longrightarrow> bview s' b = bview s b"
      by (simp_all add: v taken_def rx)
    show ?thesis unfolding Let_def if_P [OF ex]
      by (rule exI [of _ r], rule exI [of _ s'], rule conjI [OF b(1)], rule conjI [OF b(2)], rule exI [of _ h], rule conjI [OF h],
          rule exI [of _ x], rule conjI [OF x]) (intro conjI rx fb(3) first prev' new z)
  qed
qed

lemma bfree_free_panics:
  assumes r: "fs_ready pid k s" and ok: "groups_ok (superblock_of (bview s 1)) s" and d: "1 < disksize s"
    and g: "g < unat (sb_ngroups (superblock_of (bview s 1)))" and x: "x < unat (sb_bpg (superblock_of (bview s 1)))" "x < BPB"
    and bt: "\<not> bitmap_bit (bview s (group_bitmap (superblock_of (bview s 1)) g)) x"
  shows "bfree 1 (group_start (superblock_of (bview s 1)) g + of_nat x) s = Panic ''freeing free block''"
proof -
  let ?sb = "superblock_of (bview s 1)" and ?b = "group_start (superblock_of (bview s 1)) g + of_nat x"
  obtain s1 where s1: "readsb 1 s = Ok (?sb, s1)" "fs_ready pid k s1" "bview s1 = bview s" "fs_same s s1" using readsb_run [OF r d] by blast
  have ok1: "groups_ok ?sb s1" using ok s1(4) by (simp add: groups_ok_def fs_same_def)
  obtain i s2 where p: "bread 1 (group_bitmap ?sb g) s1 = Ok (i, s2)" "bdata i s2 = bview s (group_bitmap ?sb g)"
    using peek_block [OF s1(2) group_bitmap_eq(2) [OF ok1 g]] unfolding s1(3) by blast
  have nz: "nonzero (sb_bpg ?sb) = Ok ()" using ok by (auto simp: nonzero_def groups_ok_def)
  have x8: "\<not> BSIZE \<le> x div 8" using x(2) by (simp add: BPB_def BSIZE_def)
  show ?thesis
    using s1(1) p bt x8 by (simp add: bfree_def Let_def nz bblock_of_group [OF ok g x(1)] del: One_nat_def)
qed

text \<open>
  C27. A block that \<^verbatim>\<open>balloc\<close> returned and that is not a bitmap block can be freed: \<^verbatim>\<open>bfree\<close> returns, and the
  disk view is the one before the allocation except that the block is zero. Freeing it a second
  time panics.
\<close>

theorem balloc_bfree_roundtrip:
  assumes r: "fs_ready pid (Suc (Suc (Suc k))) s" and ok: "groups_ok (superblock_of (bview s 1)) s" and d: "1 < disksize s"
    and al: "balloc 1 s = Ok (b, s')" "b \<noteq> 0" and nb: "\<forall>h<unat (sb_ngroups (superblock_of (bview s 1))). unat b \<noteq> group_bitmap (superblock_of (bview s 1)) h"
  shows "\<exists>s''. bfree 1 b s' = Ok s'' \<and> bview s'' = (bview s)(unat b := replicate BSIZE 0) \<and> bfree 1 b s'' = Panic ''freeing free block''"
proof -
  let ?sb = "superblock_of (bview s 1)"
  obtain h x where h: "h < unat (sb_ngroups ?sb)" and fx: "free_bit ?sb (bview s (group_bitmap ?sb h)) = Some x"
    and bx: "b = group_start ?sb h + of_nat x" and v: "bview s' = taken ?sb h x (bview s)"
    and r': "fs_ready pid (Suc k) s'" and sm: "fs_same s s'"
    using balloc_run [OF r ok d] al by (auto simp: Let_def)
  note fb = free_bit_SomeD [OF fx]
  let ?m = "group_bitmap ?sb h" and ?S = "unat (sb_logstart ?sb) + unat (sb_nlog ?sb)"
  have ne: "?m \<noteq> 1" "unat b \<noteq> 1" "unat b \<noteq> ?m"
    using ok group_bitmap_eq(1) [OF ok h] group_arith(1) [OF ok h fb(2)] nb h by (auto simp: groups_ok_def bx)
  have v1: "bview s' 1 = bview s 1" using ne by (simp add: v taken_def bx)
  have "bio_inv s" using r by (simp add: fs_ready_def log_inv_def)
  then have len: "x div 8 < length (bview s ?m)" using length_bview [OF _ group_bitmap_eq(2) [OF ok h]] fb(1) by (simp add: BPB_def BSIZE_def)
  have bm: "bview s' ?m = set_bitmap x (bview s ?m)" using ne by (simp add: v taken_def bx)
  have ok': "groups_ok ?sb s'" using ok sm by (simp add: groups_ok_def fs_same_def)
  have d': "1 < disksize s'" using d sm by (simp add: fs_same_def)
  have st: "bitmap_bit (bview s' ?m) x" unfolding bm using bitmap_set_bit(1) [OF len len] by simp
  obtain s'' where f: "bfree 1 b s' = Ok s''" "fs_ready pid k s''" "fs_same s' s''" "bview s'' = (bview s')(?m := clear_bitmap x (bview s' ?m))"
    using bfree_run [OF r' _ d' _ _ fb(1), of h] h fb(2) ok' st unfolding v1 bx by blast
  have v2: "bview s'' = (bview s)(unat b := replicate BSIZE 0)"
    unfolding f(4) bm using clear_set_bitmap [OF len] fb(3) ne by (auto simp: v taken_def bx fun_eq_iff)
  then have v3: "bview s'' 1 = bview s 1" "bview s'' ?m = bview s ?m" using ne by auto
  have "groups_ok ?sb s''" "1 < disksize s''" using ok' d' f(3) by (simp_all add: groups_ok_def fs_same_def)
  then have "bfree 1 b s'' = Panic ''freeing free block''"
    using bfree_free_panics [OF f(2), of h x] h fb v3 bx by simp
  then show ?thesis using f(1) v2 by blast
qed

subsection \<open>A small disk\<close>

text \<open>A file system of one group of 200 blocks with 32 inodes behind the 30 blocks of the log, in
  whose bitmap the inode blocks and the bitmap are marked as used.\<close>

definition demo_super :: block where
  "demo_super = concat (map le32 [0x10203040, 1000, 200, 32, 30, 2, 32, 36, 200, 32, 1]) @ replicate 468 0"

definition demo_map :: block where
  "demo_map = 31 # replicate 511 0"

definition demo_disk :: log_st where
  "demo_disk = (case rbind (log_block 1 (\<lambda>_. demo_super) demo_log) (log_block 36 (\<lambda>_. demo_map)) of Ok s \<Rightarrow> s | _ \<Rightarrow> demo_log)"

lemma superblock_demo_super:
  "superblock_of demo_super = \<lparr>sb_magic = 0x10203040, sb_size = 1000, sb_nblocks = 200, sb_ninodes = 32, sb_nlog = 30, sb_logstart = 2,
     sb_inodestart = 32, sb_bmapstart = 36, sb_bpg = 200, sb_ipg = 32, sb_ngroups = 1\<rparr>"
  by code_simp

lemma fs_ready_demo_log: "fs_ready 1 29 demo_log"
  using demo_log_spec by (simp add: fs_ready_def LOGSIZE_def NBUF_def)

lemma demo_disk_spec:
  "fs_ready 1 27 demo_disk" "superblock_of (bview demo_disk 1) = superblock_of demo_super" "bview demo_disk 36 = demo_map" "disksize demo_disk = 1000"
  "groups_ok (superblock_of (bview demo_disk 1)) demo_disk"
proof -
  have put: "\<exists>s2. log_block b (\<lambda>_. d) s = Ok s2 \<and> fs_ready 1 k s2 \<and> bview s2 = (bview s)(b := d) \<and> fs_same s s2"
    if "fs_ready 1 (Suc k) s" "b < disksize s" "home s b" "length d = BSIZE" for b d k and s :: log_st
    using put_block [OF that] by (force simp: log_block_def)
  have l: "length demo_super = BSIZE" "length demo_map = BSIZE" by (simp_all add: demo_super_def demo_map_def BSIZE_def le32_def)
  obtain s1 where s1: "log_block 1 (\<lambda>_. demo_super) demo_log = Ok s1" "fs_ready 1 28 s1" "bview s1 = (bview demo_log)(1 := demo_super)" "fs_same demo_log s1"
    using put [of 28 demo_log 1 demo_super] fs_ready_demo_log l demo_log_spec by (auto simp: home_def)
  obtain s2 where s2: "log_block 36 (\<lambda>_. demo_map) s1 = Ok s2" "fs_ready 1 27 s2" "bview s2 = (bview s1)(36 := demo_map)" "fs_same s1 s2"
    using put [of 27 s1 36 demo_map] s1(2,4) l demo_log_spec by (auto simp: home_def fs_same_def)
  have e: "demo_disk = s2" using s1(1) s2(1) by (simp add: demo_disk_def)
  have sm: "fs_same demo_log demo_disk" unfolding e by (rule fs_same_trans [OF s1(4) s2(4)])
  show "fs_ready 1 27 demo_disk" "bview demo_disk 36 = demo_map" and v: "superblock_of (bview demo_disk 1) = superblock_of demo_super"
    unfolding e using s1 s2 by simp_all
  show dz: "disksize demo_disk = 1000" using sm demo_log_spec by (simp add: fs_same_def)
  have "log_start demo_disk = 2" "log_size demo_disk = 30" using sm demo_log_spec by (simp_all add: fs_same_def)
  then show "groups_ok (superblock_of (bview demo_disk 1)) demo_disk"
    unfolding v superblock_demo_super by (simp add: groups_ok_def dz)
qed

lemma demo_group_bitmap: "group_bitmap (superblock_of demo_super) 0 = 36"
  unfolding superblock_demo_super by (simp add: group_bitmap_def group_start_def IPB_def BSIZE_def)

lemma demo_map_bits: "\<not> bitmap_bit demo_map 5" "bitmap_bit demo_map 4"
  by (simp_all add: demo_map_def bitmap_bit_def)

theorem balloc_returns_free_block_witness:
  "\<exists>r s'. balloc 1 demo_disk = Ok (r, s') \<and> bview s' (unat r) = replicate BSIZE 0"
proof -
  have r: "fs_ready 1 (Suc (Suc 25)) demo_disk" using demo_disk_spec(1) by simp
  have d: "1 < disksize demo_disk" using demo_disk_spec(4) by simp
  have "0 < unat (sb_ngroups (superblock_of demo_super))" "5 < min BPB (unat (sb_bpg (superblock_of demo_super)))"
    unfolding superblock_demo_super by (simp_all add: BPB_def BSIZE_def)
  then have "\<exists>h<unat (sb_ngroups (superblock_of (bview demo_disk 1))). \<exists>x<min BPB (unat (sb_bpg (superblock_of (bview demo_disk 1)))).
      \<not> bitmap_bit (bview demo_disk (group_bitmap (superblock_of (bview demo_disk 1)) h)) x"
    using demo_map_bits(1) demo_disk_spec(3) demo_group_bitmap unfolding demo_disk_spec(2) by metis
  from balloc_returns_free_block [OF r demo_disk_spec(5) d, unfolded Let_def if_P [OF this]] show ?thesis by blast
qed

text \<open>Bits 0 to 4 are set, so the first free block of the disk is block 5 of group 0.\<close>

lemma demo_free_bit: "free_bit (superblock_of demo_super) demo_map = Some 5"
  unfolding superblock_demo_super by code_simp

theorem balloc_bfree_roundtrip_witness:
  "\<exists>b s' s''. balloc 1 demo_disk = Ok (b, s') \<and> bfree 1 b s' = Ok s'' \<and> bfree 1 b s'' = Panic ''freeing free block''"
proof -
  have r: "fs_ready 1 (Suc (Suc 25)) demo_disk" "fs_ready 1 (Suc (Suc (Suc 24))) demo_disk" using demo_disk_spec(1) by simp_all
  have d: "1 < disksize demo_disk" using demo_disk_spec(4) by simp
  note sup = demo_disk_spec(2)
  have ng: "unat (sb_ngroups (superblock_of demo_super)) = 1" unfolding superblock_demo_super by simp
  obtain b s' where al: "balloc 1 demo_disk = Ok (b, s')" and b: "b = group_start (superblock_of demo_super) 0 + of_nat 5"
    using balloc_run [OF r(1) demo_disk_spec(5) d] demo_free_bit demo_disk_spec(3) demo_group_bitmap unfolding sup ng Let_def by auto
  have u: "unat b = 37" unfolding b superblock_demo_super by (simp add: group_start_def)
  then have b0: "b \<noteq> 0" by auto
  have "\<forall>h<unat (sb_ngroups (superblock_of (bview demo_disk 1))). unat b \<noteq> group_bitmap (superblock_of (bview demo_disk 1)) h"
    unfolding sup ng u using demo_group_bitmap by simp
  from balloc_bfree_roundtrip [OF r(2) demo_disk_spec(5) d al b0 this] al show ?thesis by blast
qed

section \<open>Where the inodes are\<close>

lemma iblock_eq:
  assumes ok: "groups_ok sblk s" and p: "0 < unat (sb_ipg sblk)" and i: "unat i < unat (sb_ngroups sblk) * unat (sb_ipg sblk)"
  shows "unat (IBLOCK i sblk) = unat (sb_logstart sblk) + unat (sb_nlog sblk) + unat i div unat (sb_ipg sblk) * unat (sb_bpg sblk) +
      unat i mod unat (sb_ipg sblk) div 8"
    and "unat i div unat (sb_ipg sblk) < unat (sb_ngroups sblk)" and "unat i mod unat (sb_ipg sblk) div 8 < unat (sb_bpg sblk)"
proof -
  let ?q = "unat i div unat (sb_ipg sblk)" and ?x = "unat i mod unat (sb_ipg sblk) div 8"
  show q: "?q < unat (sb_ngroups sblk)" using i by (simp add: less_mult_imp_div_less)
  have "unat i mod unat (sb_ipg sblk) < unat (sb_ipg sblk)" using p by simp
  then have "?x \<le> unat (sb_ipg sblk) div 8" by (simp add: div_le_mono)
  then show x: "?x < unat (sb_bpg sblk)" using ok by (simp add: groups_ok_def)
  have iq: "i div sb_ipg sblk = of_nat ?q"
    using arg_cong [OF unat_div_distrib [of i "sb_ipg sblk"], of "of_nat :: nat \<Rightarrow> uint"] by simp
  have ix: "(i mod sb_ipg sblk) div IPB = of_nat ?x"
    using arg_cong [OF unat_div_distrib [of "i mod sb_ipg sblk" IPB], of "of_nat :: nat \<Rightarrow> uint"] by (simp add: unat_mod_distrib)
  have "IBLOCK i sblk = group_start sblk ?q + of_nat ?x" unfolding IBLOCK_def iq ix group_start_def ..
  then show "unat (IBLOCK i sblk) = unat (sb_logstart sblk) + unat (sb_nlog sblk) + ?q * unat (sb_bpg sblk) + ?x"
    using group_arith(1) [OF ok q x] by simp
qed

lemma digits_unique:
  assumes "(a :: nat) * n + b = c * n + d" and "b < n" and "d < n"
  shows "a = c" and "b = d"
proof -
  have "(b + a * n) div n = (d + c * n) div n" "(b + a * n) mod n = (d + c * n) mod n" using assms(1) by (simp_all add: add.commute)
  then show "a = c" "b = d" using assms(2,3) by simp_all
qed

text \<open>
  C29. The inode area is sound. With a number of inodes per group that fills whole blocks, as \<^verbatim>\<open>mkfs\<close>
  chooses it, every inode number of the file system has its 64 bytes inside a block of the disk,
  namely one of the inode blocks of its own group, which are the blocks from the start of the group
  up to its bitmap; in no other inode's bytes, in no bitmap block and outside the log.
\<close>

theorem inode_layout_sound:
  assumes "groups_ok sblk s" and "8 dvd unat (sb_ipg sblk)" and "0 < unat (sb_ipg sblk)"
    and "unat i < unat (sb_ngroups sblk) * unat (sb_ipg sblk)" and "unat j < unat (sb_ngroups sblk) * unat (sb_ipg sblk)"
  shows "unat (IBLOCK i sblk) < disksize s \<and> inode_off i + 64 \<le> BSIZE \<and> home s (unat (IBLOCK i sblk)) \<and>
    unat i div unat (sb_ipg sblk) < unat (sb_ngroups sblk) \<and>
    unat (group_start sblk (unat i div unat (sb_ipg sblk))) \<le> unat (IBLOCK i sblk) \<and>
    unat (IBLOCK i sblk) < group_bitmap sblk (unat i div unat (sb_ipg sblk)) \<and>
    (i \<noteq> j \<and> IBLOCK i sblk = IBLOCK j sblk \<longrightarrow> inode_off i + 64 \<le> inode_off j \<or> inode_off j + 64 \<le> inode_off i) \<and>
    (\<forall>g<unat (sb_ngroups sblk). unat (IBLOCK i sblk) \<noteq> group_bitmap sblk g)"
proof -
  let ?p = "unat (sb_ipg sblk)" and ?B = "unat (sb_bpg sblk)" and ?S = "unat (sb_logstart sblk) + unat (sb_nlog sblk)"
  note I = iblock_eq [OF assms(1,3,4)] and J = iblock_eq [OF assms(1,3,5)]
  have off: "inode_off k = 64 * (unat k mod 8)" for k by (simp add: inode_off_def unat_mod_distrib)
  obtain m where m: "?p = 8 * m" using assms(2) by (auto elim: dvdE)
  have low: "unat k mod ?p div 8 < m" for k :: uint using assms(3) m by (simp add: div_less_iff_less_mult mult.commute)
  have mB: "m < ?B" using assms(1) m by (simp add: groups_ok_def)
  have lt: "unat (IBLOCK i sblk) < disksize s"
    using group_arith(2) [OF assms(1) I(2) I(3)] I(1) by simp
  have hm: "home s (unat (IBLOCK i sblk))" by (rule group_home [OF assms(1)]) (use I(1) in simp)
  have ne: "inode_off i + 64 \<le> inode_off j \<or> inode_off j + 64 \<le> inode_off i" if "i \<noteq> j" "IBLOCK i sblk = IBLOCK j sblk"
  proof (rule ccontr)
    assume "\<not> ?thesis"
    then have e: "unat i mod 8 = unat j mod 8" unfolding off by linarith
    have "unat i div ?p * ?B + unat i mod ?p div 8 = unat j div ?p * ?B + unat j mod ?p div 8" using that(2) I(1) J(1) by simp
    from digits_unique [OF this I(3) J(3)] have d: "unat i div ?p = unat j div ?p" "unat i mod ?p div 8 = unat j mod ?p div 8" by simp_all
    have "unat k mod ?p mod 8 = unat k mod 8" for k :: uint using assms(2) by (simp add: mod_mod_cancel)
    then have "unat i mod ?p = unat j mod ?p" using d(2) e by (metis mult_div_mod_eq)
    then have "unat i = unat j" using d(1) by (metis mult_div_mod_eq)
    then show False using that(1) by (simp add: unsigned_word_eqI)
  qed
  have nb: "unat (IBLOCK i sblk) \<noteq> group_bitmap sblk g" if "g < unat (sb_ngroups sblk)" for g
  proof
    assume "unat (IBLOCK i sblk) = group_bitmap sblk g"
    then have "unat i div ?p * ?B + unat i mod ?p div 8 = g * ?B + m" using I(1) group_bitmap_eq(1) [OF assms(1) that] m by simp
    from digits_unique(2) [OF this I(3) mB] show False using low [of i] by simp
  qed
  have "inode_off i + 64 \<le> BSIZE"
  proof -
    have "unat i mod 8 < 8" by simp
    then show ?thesis unfolding off BSIZE_def by linarith
  qed
  moreover have "unat (group_start sblk (unat i div ?p)) \<le> unat (IBLOCK i sblk) \<and> unat (IBLOCK i sblk) < group_bitmap sblk (unat i div ?p)"
    using I group_bitmap_eq(1) [OF assms(1) I(2)] group_arith(1) [OF assms(1) I(2), of 0] mB low [of i] m by simp
  ultimately show ?thesis using lt hm ne nb I(2) by simp
qed

theorem inode_layout_sound_witness:
  "unat (IBLOCK 5 (superblock_of demo_super)) < 1000 \<and> inode_off 5 + 64 \<le> BSIZE"
proof -
  note sup = demo_disk_spec(2)
  have p: "8 dvd unat (sb_ipg (superblock_of demo_super))" "0 < unat (sb_ipg (superblock_of demo_super))"
    "unat (5 :: uint) < unat (sb_ngroups (superblock_of demo_super)) * unat (sb_ipg (superblock_of demo_super))"
    "unat (6 :: uint) < unat (sb_ngroups (superblock_of demo_super)) * unat (sb_ipg (superblock_of demo_super))"
    unfolding superblock_demo_super by simp_all
  from inode_layout_sound [OF demo_disk_spec(5), unfolded sup, OF p] demo_disk_spec(4) show ?thesis by simp
qed

end
