(* ===== verification/Mkfs.thy ===== *)
theory Mkfs
  imports Fs_Blocks Path
begin

section \<open>Building a file system image (mkfs.c)\<close>

text \<open>
  \<^verbatim>\<open>mkfs\<close> is a program of the host, which is little-endian. Its state are its counters and the image file,
  a list of sectors. \<open>None\<close> is a run that stops with \<^verbatim>\<open>exit(1)\<close> or a failed assertion. Reading a sector
  behind the end of the file fails, writing one extends the file. Files to be copied are given with
  their name and contents, or without contents if they cannot be opened; errors of the host's own
  system calls are not modelled. What the program prints is left out.
\<close>

definition NLOG :: uint where "NLOG = of_int LOGSIZE"
definition BPG :: uint where "BPG = 200"
definition IPG :: uint where "IPG = 32"
definition FSMAGIC :: uint where "FSMAGIC = 0x10203040"

definition global_start :: uint where "global_start = 2 + NLOG"
definition meta_per_group :: uint where "meta_per_group = IPG div IPB + 1"

record mkfs_st =
  freeinode :: uint
  freeblock :: uint
  image :: "block list"

definition alloc_block :: "mkfs_st \<Rightarrow> uint \<times> mkfs_st" where
  "alloc_block s =
     (let b = freeblock s; next_free = b + 1; relative = next_free - global_start in
      (b, s\<lparr>freeblock := if relative mod BPG = 0 then next_free + meta_per_group else next_free\<rparr>))"

definition xshort :: "ushort \<Rightarrow> ushort" where
  "xshort x = of_le16 [ucast x, ucast (drop_bit 8 x)]"

definition xint :: "uint \<Rightarrow> uint" where
  "xint x = of_le32 [ucast x, ucast (drop_bit 8 x), ucast (drop_bit 16 x), ucast (drop_bit 24 x)]"

text \<open>The sector at the file position that \<^verbatim>\<open>lseek\<close> is given.\<close>

definition sect_pos :: "uint \<Rightarrow> nat" where
  "sect_pos sec = unat (sec * of_nat BSIZE) div BSIZE"

definition wsect :: "uint \<Rightarrow> block \<Rightarrow> mkfs_st \<Rightarrow> mkfs_st" where
  "wsect sec buf s =
     (let k = sect_pos sec; img = image s in
      s\<lparr>image := if k < length img then img[k := buf] else img @ replicate (k - length img) (replicate BSIZE 0) @ [buf]\<rparr>)"

definition rsect :: "uint \<Rightarrow> mkfs_st \<Rightarrow> block option" where
  "rsect sec s = (let k = sect_pos sec in if k < length (image s) then Some (image s ! k) else None)"

text \<open>The super block that \<^verbatim>\<open>main\<close> fills in, and its bytes.\<close>

definition mkfs_ngroups :: uint where
  "mkfs_ngroups = (of_nat FSSIZE - global_start) div BPG"

definition mkfs_sb :: superblock where
  "mkfs_sb = \<lparr>sb_magic = FSMAGIC, sb_size = xint (of_nat FSSIZE), sb_nblocks = xint (mkfs_ngroups * BPG), sb_ninodes = xint (mkfs_ngroups * IPG),
     sb_nlog = xint NLOG, sb_logstart = xint 2, sb_inodestart = xint global_start, sb_bmapstart = xint (global_start + IPG div IPB),
     sb_bpg = xint BPG, sb_ipg = xint IPG, sb_ngroups = xint mkfs_ngroups\<rparr>"

definition superblock_bytes :: "superblock \<Rightarrow> uchar list" where
  "superblock_bytes sblk = concat (map le32 [sb_magic sblk, sb_size sblk, sb_nblocks sblk, sb_ninodes sblk, sb_nlog sblk, sb_logstart sblk,
     sb_inodestart sblk, sb_bmapstart sblk, sb_bpg sblk, sb_ipg sblk, sb_ngroups sblk])"

definition winode :: "uint \<Rightarrow> dinode \<Rightarrow> mkfs_st \<Rightarrow> mkfs_st option" where
  "winode inum ip s =
     (let bn = IBLOCK inum mkfs_sb in
      Option.bind (rsect bn s) (\<lambda>buf. Some (wsect bn (put_dinode (64 * unat (inum mod IPB)) ip buf) s)))"

definition rinode :: "uint \<Rightarrow> mkfs_st \<Rightarrow> dinode option" where
  "rinode inum s =
     (let bn = IBLOCK inum mkfs_sb in
      Option.bind (rsect bn s) (\<lambda>buf. Some (get_dinode buf (64 * unat (inum mod IPB)))))"

definition mkfs_ialloc :: "ushort \<Rightarrow> mkfs_st \<Rightarrow> (uint \<times> mkfs_st) option" where
  "mkfs_ialloc type s =
     (let inum = freeinode s; s = s\<lparr>freeinode := inum + 1\<rparr>;
          din = \<lparr>di_type = xshort type, di_major = 0, di_minor = 0, di_nlink = xshort 1, di_size = xint 0, di_addrs = replicate (NDIRECT + 1) 0\<rparr> in
      Option.bind (winode inum din s) (\<lambda>s. Some (inum, s)))"

text \<open>The bitmap block of group \<open>g\<close> when the blocks below \<open>used\<close> are allocated, and the loop that
  writes the bitmaps of \<open>n\<close> groups from \<open>g\<close> on.\<close>

definition group_map :: "uint \<Rightarrow> uint \<Rightarrow> block" where
  "group_map g used =
     (let grp_start = global_start + g * BPG;
          buf = fold set_bitmap [0..<unat meta_per_group] (replicate BSIZE 0) in
      fold (\<lambda>i buf. if grp_start + of_nat i < used then set_bitmap i buf else buf) [unat meta_per_group..<unat BPG] buf)"

primrec write_maps :: "nat \<Rightarrow> uint \<Rightarrow> uint \<Rightarrow> mkfs_st \<Rightarrow> mkfs_st" where
  "write_maps 0 g used s = s"
| "write_maps (Suc n) g used s =
     (let grp_start = global_start + g * BPG; bmap_loc = grp_start + IPG div IPB in
      write_maps n (g + 1) used (wsect bmap_loc (group_map g used) s))"

definition mkfs_balloc :: "uint \<Rightarrow> mkfs_st \<Rightarrow> mkfs_st" where
  "mkfs_balloc used s = write_maps (unat (xint (sb_ngroups mkfs_sb))) 0 used s"

text \<open>The block of the file that \<^verbatim>\<open>iappend\<close> fills next, allocated if need be.\<close>

definition set_addr :: "nat \<Rightarrow> dinode \<times> mkfs_st \<Rightarrow> dinode \<times> mkfs_st" where
  "set_addr i = (\<lambda>(din, s).
     if xint (di_addrs din ! i) = 0 then
       (case alloc_block s of (b, s) \<Rightarrow> (din\<lparr>di_addrs := (di_addrs din)[i := xint b]\<rparr>, s))
     else (din, s))"

definition iappend_block :: "nat \<Rightarrow> dinode \<Rightarrow> mkfs_st \<Rightarrow> (uint \<times> dinode \<times> mkfs_st) option" where
  "iappend_block fbn din s =
     (if fbn < NDIRECT then
        (case set_addr fbn (din, s) of (din, s) \<Rightarrow> Some (xint (di_addrs din ! fbn), din, s))
      else
        (case set_addr NDIRECT (din, s) of (din, s) \<Rightarrow>
          let ind = xint (di_addrs din ! NDIRECT); pos = 4 * (fbn - NDIRECT) in
          Option.bind (rsect ind s) (\<lambda>indirect.
          if get32 indirect pos = 0 then
            (case alloc_block s of (b, s) \<Rightarrow>
              let indirect = put32 pos (xint b) indirect in
              Some (xint (get32 indirect pos), din, wsect ind indirect s))
          else Some (xint (get32 indirect pos), din, s))))"

lemma block_room: "p \<noteq> [] \<Longrightarrow> length p - min (length p) (BSIZE + off div BSIZE * BSIZE - off) < length p"
proof -
  assume "p \<noteq> []"
  moreover have "off < BSIZE + off div BSIZE * BSIZE" by (simp add: BSIZE_def)
  ultimately show ?thesis by simp
qed

text \<open>The loop of \<^verbatim>\<open>iappend\<close>; the bytes \<open>p\<close> are still to be written at offset \<open>off\<close>.\<close>

function iappend_loop :: "uchar list \<Rightarrow> nat \<Rightarrow> dinode \<Rightarrow> mkfs_st \<Rightarrow> (nat \<times> dinode \<times> mkfs_st) option" where
  "iappend_loop p off din s =
     (if p = [] then Some (off, din, s)
      else
        let fbn = off div BSIZE in
        if fbn \<ge> MAXFILE then None
        else Option.bind (iappend_block fbn din s) (\<lambda>(x, din, s).
          let n1 = min (length p) ((fbn + 1) * BSIZE - off) in
          Option.bind (rsect x s) (\<lambda>buf.
          iappend_loop (drop n1 p) (off + n1) din (wsect x (splice_at (off - fbn * BSIZE) (take n1 p) buf) s))))"
  by auto

termination by (relation "measure (\<lambda>(p, off, din, s). length p)") (auto simp: block_room)

declare iappend_loop.simps [simp del]

definition iappend :: "uint \<Rightarrow> uchar list \<Rightarrow> mkfs_st \<Rightarrow> mkfs_st option" where
  "iappend inum p s =
     Option.bind (rinode inum s) (\<lambda>din.
     Option.bind (iappend_loop p (unat (xint (di_size din))) din s) (\<lambda>(off, din, s).
     winode inum (din\<lparr>di_size := xint (of_nat off)\<rparr>) s))"

subsection \<open>The main program\<close>

definition mkfs_start :: mkfs_st where
  "mkfs_start = \<lparr>freeinode = 1, freeblock = global_start + meta_per_group, image = []\<rparr>"

primrec zero_disk :: "nat \<Rightarrow> nat \<Rightarrow> mkfs_st \<Rightarrow> mkfs_st" where
  "zero_disk 0 i s = s"
| "zero_disk (Suc n) i s = zero_disk n (i + 1) (wsect (of_nat i) (replicate BSIZE 0) s)"

definition mkfs_skeleton :: mkfs_st where
  "mkfs_skeleton = wsect 1 (splice_at 0 (superblock_bytes mkfs_sb) (replicate BSIZE 0)) (zero_disk FSSIZE 0 mkfs_start)"

text \<open>The contents of a file are appended in pieces of one block.\<close>

function copy_file :: "uint \<Rightarrow> uchar list \<Rightarrow> mkfs_st \<Rightarrow> mkfs_st option" where
  "copy_file inum data s =
     (if data = [] then Some s
      else Option.bind (iappend inum (take BSIZE data) s) (\<lambda>s. copy_file inum (drop BSIZE data) s))"
  by auto

termination by (relation "measure (\<lambda>(inum, data, s). length data)") (auto simp: BSIZE_def)

declare copy_file.simps [simp del]

definition strip_underscore :: "uchar list \<Rightarrow> uchar list" where
  "strip_underscore name = (case name of [] \<Rightarrow> [] | c # cs \<Rightarrow> if c = of_char (CHR ''_'') then cs else name)"

primrec add_files :: "uint \<Rightarrow> (uchar list \<times> uchar list option) list \<Rightarrow> mkfs_st \<Rightarrow> mkfs_st option" where
  "add_files rootino [] s = Some s"
| "add_files rootino (nd # files) s =
     (case nd of (name, contents) \<Rightarrow>
      if of_char (CHR ''/'') \<in> set name then None
      else case contents of
        None \<Rightarrow> None
      | Some data \<Rightarrow>
          let name = strip_underscore name in
          Option.bind (mkfs_ialloc T_FILE s) (\<lambda>(inum, s).
          Option.bind (iappend rootino (dirent_bytes \<lparr>de_inum = xshort (ucast inum), de_name = strncpy (replicate DIRSIZ 0) name DIRSIZ\<rparr>) s) (\<lambda>s.
          Option.bind (copy_file inum data s) (\<lambda>s.
          add_files rootino files s))))"

definition mkfs_main :: "(uchar list \<times> uchar list option) list \<Rightarrow> mkfs_st option" where
  "mkfs_main files =
     (let s = mkfs_skeleton; dot = of_char (CHR ''.'') in
      Option.bind (mkfs_ialloc T_DIR s) (\<lambda>(rootino, s).
      if rootino \<noteq> ROOTINO then None
      else
        Option.bind (iappend rootino (dirent_bytes \<lparr>de_inum = xshort (ucast rootino), de_name = (replicate DIRSIZ 0)[0 := dot]\<rparr>) s) (\<lambda>s.
        Option.bind (iappend rootino (dirent_bytes \<lparr>de_inum = xshort (ucast rootino), de_name = (replicate DIRSIZ 0)[0 := dot, 1 := dot]\<rparr>) s) (\<lambda>s.
        Option.bind (add_files rootino files s) (\<lambda>s.
        Option.bind (rinode rootino s) (\<lambda>din.
        let off = (xint (di_size din) div of_nat BSIZE + 1) * of_nat BSIZE in
        Option.bind (winode rootino (din\<lparr>di_size := xint off\<rparr>) s) (\<lambda>s.
        Some (mkfs_balloc (freeblock s) s))))))))"

subsection \<open>The allocator\<close>

lemma xint_id [simp]: "xint x = x"
  using of_le32_le32 [of x] by (simp add: xint_def le32_def)

lemma mkfs_geometry [simp]:
  "global_start = 32" "meta_per_group = 5" "BPG = 200" "mkfs_ngroups = 99" "IPG div IPB = 4" "unat IPG div 8 = 4"
  by (simp_all add: global_start_def NLOG_def LOGSIZE_def meta_per_group_def IPG_def IPB_def BSIZE_def BPG_def mkfs_ngroups_def FSSIZE_def)

text \<open>The \<open>k\<close>th data block: each group of 200 blocks has 195 of them, behind its 5 metadata blocks.\<close>

definition data_block :: "nat \<Rightarrow> nat" where
  "data_block k = 32 + 200 * (k div 195) + 5 + k mod 195"

lemma data_block_Suc:
  "data_block (Suc k) = (if (data_block k + 1 - 32) mod 200 = 0 then data_block k + 6 else data_block k + 1)"
proof -
  define q r where "q = k div 195" and "r = k mod 195"
  have k: "k = 195 * q + r" "r < 195" by (simp_all add: q_def r_def)
  show ?thesis
  proof (cases "r = 194")
    case True
    then have "Suc k = 195 * (q + 1)" using k by simp
    then have "Suc k div 195 = q + 1" "Suc k mod 195 = 0" by simp_all
    moreover have "(data_block k + 1 - 32) mod 200 = (200 * (q + 1)) mod 200" using k True by (simp add: data_block_def flip: q_def r_def)
    ultimately show ?thesis using True by (simp add: data_block_def flip: q_def r_def)
  next
    case False
    then have s: "Suc k = 195 * q + (r + 1)" "r + 1 < 195" using k by simp_all
    then have "Suc k div 195 = q" "Suc k mod 195 = r + 1" by (simp_all add: div_nat_eqI)
    moreover have "data_block k + 1 - 32 = (r + 6) + 200 * q" by (simp add: data_block_def flip: q_def r_def)
    then have "(data_block k + 1 - 32) mod 200 = r + 6" using s(2) by (simp only: mod_mult_self2) simp
    ultimately show ?thesis by (simp add: data_block_def flip: q_def r_def)
  qed
qed

lemma data_block_bound: "k \<le> 195 * 99 \<Longrightarrow> data_block k \<le> 19837"
proof -
  assume "k \<le> 195 * 99"
  moreover have "195 * (k div 195) + k mod 195 = k" by simp
  ultimately have "k div 195 \<le> 99" "k div 195 = 99 \<Longrightarrow> k mod 195 = 0" by linarith+
  moreover have "k mod 195 < 195" by simp
  ultimately show ?thesis unfolding data_block_def by (cases "k div 195 = 99") linarith+
qed

lemma alloc_blocks:
  assumes "k \<le> 195 * 99"
  shows "freeblock (((\<lambda>s. snd (alloc_block s)) ^^ k) (s\<lparr>freeblock := 37\<rparr>)) = of_nat (data_block k)"
  using assms
proof (induction k)
  case 0
  then show ?case by (simp add: data_block_def)
next
  case (Suc k)
  let ?b = "data_block k"
  have lt: "?b < 20000" "32 \<le> ?b" using data_block_bound [of k] Suc.prems by (auto simp: data_block_def)
  have "of_nat ?b + 1 - 32 = (of_nat (?b + 1 - 32) :: uint)" using lt(2) by (simp add: of_nat_diff)
  moreover have "unat (of_nat (?b + 1 - 32) mod 200 :: uint) = (?b + 1 - 32) mod 200"
    using lt by (simp add: unat_mod_distrib unsigned_of_nat take_bit_nat_eq_self del: of_nat_add of_nat_diff of_nat_Suc)
  ultimately have "(of_nat ?b + 1 - 32) mod 200 = (0 :: uint) \<longleftrightarrow> (?b + 1 - 32) mod 200 = 0"
    by (metis unat_0 unat_eq_zero)
  then show ?case using Suc by (simp add: alloc_block_def Let_def data_block_Suc)
qed

subsection \<open>The bitmaps\<close>

lemma length_fold_set_bitmap [simp]: "length (fold set_bitmap xs d) = length d"
  by (induction xs arbitrary: d) simp_all

lemma bitmap_fold_set:
  assumes "\<forall>i\<in>set xs. i div 8 < length d" and "j div 8 < length d"
  shows "bitmap_bit (fold set_bitmap xs d) j \<longleftrightarrow> j \<in> set xs \<or> bitmap_bit d j"
  using assms
proof (induction xs arbitrary: d)
  case (Cons i xs)
  have "bitmap_bit (fold set_bitmap xs (set_bitmap i d)) j \<longleftrightarrow> j \<in> set xs \<or> bitmap_bit (set_bitmap i d) j"
    by (rule Cons.IH) (use Cons.prems in simp_all)
  moreover have "bitmap_bit (set_bitmap i d) j \<longleftrightarrow> j = i \<or> bitmap_bit d j" by (rule bitmap_set_bit) (use Cons.prems in simp_all)
  ultimately show ?case by auto
qed simp

lemma fold_filter_set: "fold (\<lambda>i buf. if P i then set_bitmap i buf else buf) xs d = fold set_bitmap (filter P xs) d"
  by (induction xs arbitrary: d) simp_all

lemma group_map_fold:
  "group_map g used = fold set_bitmap (filter (\<lambda>i. global_start + g * BPG + of_nat i < used) [unat meta_per_group..<unat BPG])
     (fold set_bitmap [0..<unat meta_per_group] (replicate BSIZE 0))"
  unfolding group_map_def Let_def fold_filter_set ..

lemma length_group_map [simp]: "length (group_map g used) = BSIZE"
  unfolding group_map_fold by (simp only: length_fold_set_bitmap length_replicate)

lemma group_map_bits:
  assumes "i < 200"
  shows "bitmap_bit (group_map g used) i \<longleftrightarrow> i < 5 \<or> 32 + g * 200 + of_nat i < used"
proof -
  define m n where "m = unat meta_per_group" and "n = unat BPG"
  have mn: "m = 5" "n = 200" by (simp_all add: m_def n_def)
  have z: "\<not> bitmap_bit (replicate BSIZE 0) i" using assms by (simp add: bitmap_bit_def BSIZE_def)
  have d: "j div 8 < BSIZE" if "j < 200" for j using that by (simp add: BSIZE_def)
  have a: "bitmap_bit (group_map g used) i \<longleftrightarrow> i \<in> set (filter (\<lambda>i. 32 + g * 200 + of_nat i < used) [m..<n]) \<or>
      bitmap_bit (fold set_bitmap [0..<m] (replicate BSIZE 0)) i"
    unfolding group_map_fold m_def [symmetric] n_def [symmetric] unfolding mkfs_geometry(1,3)
    by (rule bitmap_fold_set) (use assms d mn(2) in auto)
  have b: "bitmap_bit (fold set_bitmap [0..<m] (replicate BSIZE 0)) i \<longleftrightarrow> i \<in> set [0..<m] \<or> bitmap_bit (replicate BSIZE 0) i"
    by (rule bitmap_fold_set) (use assms d d [of 0] mn(1) in auto)
  have c: "i \<in> set (filter P [m..<n]) \<longleftrightarrow> P i \<and> m \<le> i \<and> i < n" "i \<in> set [0..<m] \<longleftrightarrow> i < m" for P by auto
  show ?thesis unfolding a b c unfolding mn not_less [symmetric] using assms z by blast
qed

subsection \<open>The image\<close>

lemma sect_pos_nat [simp]: "n < 2 ^ 23 \<Longrightarrow> sect_pos (of_nat n) = n"
proof -
  assume n: "n < 2 ^ 23"
  have "of_nat n * of_nat BSIZE = (of_nat (n * BSIZE) :: uint)" by simp
  moreover have "unat (of_nat (n * BSIZE) :: uint) = n * BSIZE"
    using n by (simp add: unsigned_of_nat take_bit_nat_eq_self BSIZE_def del: of_nat_mult)
  ultimately show ?thesis unfolding sect_pos_def by (simp add: BSIZE_def del: of_nat_mult)
qed

lemma image_wsect: "sect_pos b < length (image s) \<Longrightarrow> image (wsect b d s) = (image s)[sect_pos b := d]"
  by (simp add: wsect_def Let_def)

lemma write_maps_image:
  assumes "length (image s) = FSSIZE" and "g + n \<le> 99"
  shows "length (image (write_maps n (of_nat g) used s)) = FSSIZE"
    and "b < FSSIZE \<Longrightarrow> image (write_maps n (of_nat g) used s) ! b =
      (if \<exists>h. g \<le> h \<and> h < g + n \<and> b = 36 + 200 * h then group_map (of_nat ((b - 36) div 200)) used else image s ! b)"
proof -
  have "length (image (write_maps n (of_nat g) used s)) = FSSIZE \<and> (\<forall>b<FSSIZE. image (write_maps n (of_nat g) used s) ! b =
      (if \<exists>h. g \<le> h \<and> h < g + n \<and> b = 36 + 200 * h then group_map (of_nat ((b - 36) div 200)) used else image s ! b))"
    using assms
  proof (induction n arbitrary: g s)
    case (Suc n)
    let ?s = "wsect (32 + of_nat g * 200 + 4) (group_map (of_nat g) used) s"
    have lt: "36 + 200 * g < FSSIZE" using Suc.prems(2) by (simp add: FSSIZE_def)
    have "32 + of_nat g * 200 + 4 = (of_nat (36 + 200 * g) :: uint)" by simp
    moreover have "sect_pos (of_nat (36 + 200 * g)) = 36 + 200 * g" using lt by (intro sect_pos_nat) (simp add: FSSIZE_def)
    ultimately have im: "image ?s = (image s)[36 + 200 * g := group_map (of_nat g) used]"
      using lt Suc.prems(1) by (metis image_wsect)
    have e: "write_maps (Suc n) (of_nat g) used s = write_maps n (of_nat (Suc g)) used ?s" by (simp add: Let_def add.commute)
    have IH: "length (image (write_maps n (of_nat (Suc g)) used ?s)) = FSSIZE" "\<And>b. b < FSSIZE \<Longrightarrow> image (write_maps n (of_nat (Suc g)) used ?s) ! b =
      (if \<exists>h. Suc g \<le> h \<and> h < Suc g + n \<and> b = 36 + 200 * h then group_map (of_nat ((b - 36) div 200)) used else image ?s ! b)"
      using Suc.IH [of ?s "Suc g"] Suc.prems im by auto
    have "image (write_maps (Suc n) (of_nat g) used s) ! b =
      (if \<exists>h. g \<le> h \<and> h < g + Suc n \<and> b = 36 + 200 * h then group_map (of_nat ((b - 36) div 200)) used else image s ! b)" if "b < FSSIZE" for b
    proof (cases "b = 36 + 200 * g")
      case True
      then show ?thesis unfolding e IH(2) [OF that] im using Suc.prems(1) lt by auto
    next
      case False
      have ex: "(\<exists>h. Suc g \<le> h \<and> h < Suc g + n \<and> b = 36 + 200 * h) \<longleftrightarrow> (\<exists>h. g \<le> h \<and> h < g + Suc n \<and> b = 36 + 200 * h)"
        (is "?A \<longleftrightarrow> ?B")
      proof
        assume ?A
        then obtain h where "Suc g \<le> h" "h < Suc g + n" "b = 36 + 200 * h" by blast
        then show ?B by (intro exI [of _ h]) simp
      next
        assume ?B
        then obtain h where h: "g \<le> h" "h < g + Suc n" "b = 36 + 200 * h" by blast
        then have "h \<noteq> g" using False by auto
        then show ?A using h by (intro exI [of _ h]) simp
      qed
      have nt: "(image s)[36 + 200 * g := group_map (of_nat g) used] ! b = image s ! b" using False by simp
      show ?thesis unfolding e IH(2) [OF that] im ex nt ..
    qed
    then show ?case using IH(1) e by simp
  qed auto
  then show "length (image (write_maps n (of_nat g) used s)) = FSSIZE"
    "b < FSSIZE \<Longrightarrow> image (write_maps n (of_nat g) used s) ! b =
      (if \<exists>h. g \<le> h \<and> h < g + n \<and> b = 36 + 200 * h then group_map (of_nat ((b - 36) div 200)) used else image s ! b)" by blast+
qed

subsection \<open>What the kernel finds on the image\<close>

lemma get32_le32s:
  assumes "i < length ws"
  shows "get32 (concat (map le32 ws) @ rest) (4 * i) = ws ! i"
proof -
  have "take 4 (drop (4 * i) (concat (map le32 ws) @ rest)) = le32 (ws ! i)" using assms
  proof (induction ws arbitrary: i)
    case (Cons w ws)
    have l: "length (le32 w) = 4" by (simp add: le32_def)
    show ?case
    proof (cases i)
      case 0
      then show ?thesis using l by simp
    next
      case (Suc k)
      then have "drop (4 * i) (concat (map le32 (w # ws)) @ rest) = drop (4 * k) (concat (map le32 ws) @ rest)" using l by simp
      then show ?thesis using Cons Suc by simp
    qed
  qed simp
  then show ?thesis by (simp add: get32_def slice_at_def)
qed

lemma superblock_roundtrip: "superblock_of (superblock_bytes x @ rest) = x"
proof -
  let ?ws = "[sb_magic x, sb_size x, sb_nblocks x, sb_ninodes x, sb_nlog x, sb_logstart x, sb_inodestart x, sb_bmapstart x, sb_bpg x, sb_ipg x, sb_ngroups x]"
  have g: "get32 (superblock_bytes x @ rest) (4 * i) = ?ws ! i" if "i < 11" for i
    unfolding superblock_bytes_def by (rule get32_le32s) (use that in simp)
  show ?thesis
    using g [of 0] g [of 1] g [of 2] g [of 3] g [of 4] g [of 5] g [of 6] g [of 7] g [of 8] g [of 9] g [of 10]
    by (simp add: superblock_of_def)
qed

definition mkfs_super :: block where
  "mkfs_super = splice_at 0 (superblock_bytes mkfs_sb) (replicate BSIZE 0)"

lemma superblock_mkfs: "superblock_of mkfs_super = mkfs_sb"
proof -
  have l: "length (superblock_bytes mkfs_sb) = 44" by (simp add: superblock_bytes_def le32_def)
  have e: "mkfs_super = superblock_bytes mkfs_sb @ replicate (BSIZE - 44) 0"
    unfolding mkfs_super_def splice_at_def by (simp add: l) (simp add: BSIZE_def)
  show ?thesis unfolding e by (rule superblock_roundtrip)
qed

lemma mkfs_sb_fields [simp]:
  "sb_logstart mkfs_sb = 2" "sb_nlog mkfs_sb = 30" "sb_bpg mkfs_sb = 200" "sb_ipg mkfs_sb = 32" "sb_ngroups mkfs_sb = 99"
  by (simp_all add: mkfs_sb_def NLOG_def LOGSIZE_def IPG_def)

lemma mkfs_group:
  assumes "h < 99"
  shows "group_bitmap mkfs_sb h = 36 + 200 * h" and "i < 200 \<Longrightarrow> unat (group_start mkfs_sb h + of_nat i) = 32 + 200 * h + i"
proof -
  have "group_start mkfs_sb h + 32 div IPB = of_nat (36 + 200 * h)" by (simp add: group_start_def IPB_def BSIZE_def)
  moreover have "unat (of_nat (36 + 200 * h) :: uint) = 36 + 200 * h"
    using assms by (simp add: unsigned_of_nat take_bit_nat_eq_self del: of_nat_add of_nat_mult)
  ultimately show "group_bitmap mkfs_sb h = 36 + 200 * h" by (simp add: group_bitmap_def)
  assume "i < 200"
  have "group_start mkfs_sb h + of_nat i = of_nat (32 + 200 * h + i)" by (simp add: group_start_def)
  moreover have "unat (of_nat (32 + 200 * h + i) :: uint) = 32 + 200 * h + i"
    using assms \<open>i < 200\<close> by (simp add: unsigned_of_nat take_bit_nat_eq_self del: of_nat_add of_nat_mult)
  ultimately show "unat (group_start mkfs_sb h + of_nat i) = 32 + 200 * h + i" by simp
qed

lemma group_map_nat:
  assumes "h < 99" and "i < 200" and "u < 20000"
  shows "bitmap_bit (group_map (of_nat h) (of_nat u)) i \<longleftrightarrow> i < 5 \<or> 32 + 200 * h + i < u"
proof -
  have "32 + of_nat h * 200 + of_nat i = (of_nat (32 + 200 * h + i) :: uint)" by simp
  moreover have "(of_nat (32 + 200 * h + i) :: uint) < of_nat u \<longleftrightarrow> 32 + 200 * h + i < u"
    using assms by (simp add: word_less_nat_alt unsigned_of_nat take_bit_nat_eq_self del: of_nat_add of_nat_mult)
  ultimately show ?thesis using group_map_bits [OF assms(2), of "of_nat h" "of_nat u"] by (simp add: mult.commute)
qed

text \<open>The first free bit of each bitmap when the first \<open>k\<close> data blocks are taken.\<close>

lemma mkfs_free_bit:
  assumes "k < 195 * 99" and "h < 99"
  shows "h < k div 195 \<Longrightarrow> free_bit mkfs_sb (group_map (of_nat h) (of_nat (data_block k))) = None"
    and "h = k div 195 \<Longrightarrow> free_bit mkfs_sb (group_map (of_nat h) (of_nat (data_block k))) = Some (5 + k mod 195)"
proof -
  let ?d = "group_map (of_nat h) (of_nat (data_block k))"
  have u: "data_block k < 20000" using data_block_bound [of k] assms(1) by simp
  have bit: "bitmap_bit ?d i \<longleftrightarrow> i < 5 \<or> 32 + 200 * h + i < data_block k" if "i < 200" for i by (rule group_map_nat [OF assms(2) that u])
  define N where "N = min BPB (unat (sb_bpg mkfs_sb))"
  have N: "i < N \<longleftrightarrow> i < 200" for i by (simp add: N_def BPB_def BSIZE_def)
  have f: "free_bit mkfs_sb ?d = find (\<lambda>i. \<not> bitmap_bit ?d i) [0..<N]" unfolding free_bit_def N_def ..
  have m: "k mod 195 < 195" by simp
  show "free_bit mkfs_sb ?d = None" if "h < k div 195"
  proof -
    have "32 + 200 * h + i < data_block k" if "i < 200" for i using that \<open>h < k div 195\<close> unfolding data_block_def by linarith
    then show ?thesis unfolding f find_None_iff using bit N by auto
  qed
  show "free_bit mkfs_sb ?d = Some (5 + k mod 195)" if "h = k div 195"
    unfolding f find_Some_iff
  proof (intro exI conjI)
    show "5 + k mod 195 < length [0..<N]" "5 + k mod 195 = [0..<N] ! (5 + k mod 195)" using m N by simp_all
    then show "\<not> bitmap_bit ?d ([0..<N] ! (5 + k mod 195))" using bit [of "5 + k mod 195"] m that data_block_def [of k] by simp
    show "\<forall>j<5 + k mod 195. \<not> \<not> bitmap_bit ?d ([0..<N] ! j)" 
    proof (intro allI impI)
      fix j
      assume j: "j < 5 + k mod 195"
      then have "[0..<N] ! j = j" "j < 200" using m N by simp_all
      then show "\<not> \<not> bitmap_bit ?d ([0..<N] ! j)" using bit [of j] j that data_block_def [of k] by simp
    qed
  qed
qed

lemma data_block_less: "j < k \<Longrightarrow> data_block j < data_block k"
  by (rule lift_Suc_mono_less) (auto simp: data_block_Suc)

lemma data_block_not_meta: "i < 5 \<Longrightarrow> data_block k \<noteq> 32 + 200 * h + i"
proof
  assume i: "i < 5" and e: "data_block k = 32 + 200 * h + i"
  then have "(5 + k mod 195) + 200 * (k div 195) = i + 200 * h" by (simp add: data_block_def)
  then have "((5 + k mod 195) + 200 * (k div 195)) mod 200 = (i + 200 * h) mod 200" by simp
  moreover have "k mod 195 < 195" by simp
  ultimately show False using i unfolding mod_mult_self2 by simp
qed

text \<open>The state of \<^verbatim>\<open>mkfs\<close>'s allocator after \<open>k\<close> allocations.\<close>

definition mkfs_after :: "nat \<Rightarrow> mkfs_st" where
  "mkfs_after k = ((\<lambda>u. snd (alloc_block u)) ^^ k) mkfs_start"

lemma mkfs_groups_ok:
  assumes "disksize s = FSSIZE" and "log_start s = 2" and "log_size s = LOGSIZE"
  shows "groups_ok mkfs_sb s"
  using assms by (simp add: groups_ok_def FSSIZE_def LOGSIZE_def)

text \<open>
  C28. The host tool and the kernel agree on what is free. Take any image of the right size with the
  super block \<^verbatim>\<open>mkfs\<close> fills in, after \<open>k\<close> calls of \<^verbatim>\<open>alloc_block\<close>, and let \<^verbatim>\<open>mkfs\<close> write its bitmaps. A
  kernel whose disk holds the image, in a transaction with room, gets from \<^verbatim>\<open>balloc\<close> exactly the block
  that \<^verbatim>\<open>alloc_block\<close> would hand out next, the \<open>k\<close>th data block: no metadata block, and no block that
  \<^verbatim>\<open>mkfs\<close> gave to a file.
\<close>

theorem kernel_continues_mkfs:
  assumes "k < 195 * 99"
    and "length (image u) = FSSIZE" and "image u ! 1 = mkfs_super" and "freeblock u = freeblock (mkfs_after k)"
    and "fs_ready pid (Suc (Suc n)) s" and "disksize s = FSSIZE" and "log_start s = 2" and "log_size s = LOGSIZE"
    and "\<forall>b<FSSIZE. bview s b = image (mkfs_balloc (freeblock u) u) ! b"
  shows "\<exists>s'. balloc 1 s = Ok (fst (alloc_block (mkfs_after k)), s') \<and> unat (fst (alloc_block (mkfs_after k))) = data_block k \<and>
    (\<forall>j<k. fst (alloc_block (mkfs_after j)) \<noteq> fst (alloc_block (mkfs_after k))) \<and>
    (\<forall>h<99. \<forall>i<5. unat (fst (alloc_block (mkfs_after k))) \<noteq> 32 + 200 * h + i)"
proof -
  have fr: "freeblock (mkfs_after j) = of_nat (data_block j)" if "j \<le> 195 * 99" for j
    using alloc_blocks [OF that, of mkfs_start] by (simp add: mkfs_after_def) (simp add: mkfs_start_def)
  have lt: "data_block j < 20000" if "j \<le> 195 * 99" for j using data_block_bound [OF that] by simp
  have un: "unat (of_nat (data_block j) :: uint) = data_block j" if "j \<le> 195 * 99" for j
    using lt [OF that] by (simp add: unsigned_of_nat take_bit_nat_eq_self)
  have al: "fst (alloc_block (mkfs_after j)) = of_nat (data_block j)" if "j \<le> 195 * 99" for j using fr [OF that] by (simp add: alloc_block_def Let_def)
  have view: "bview s b = image (mkfs_balloc (freeblock u) u) ! b" if "b < FSSIZE" for b using assms(9) that by simp
  have wm: "mkfs_balloc (freeblock u) u = write_maps 99 (of_nat 0) (of_nat (data_block k)) u"
    using assms(1,4) fr [of k] by (simp add: mkfs_balloc_def)
  have maps: "bview s b = (if \<exists>h<99. b = 36 + 200 * h then group_map (of_nat ((b - 36) div 200)) (of_nat (data_block k)) else image u ! b)"
    if "b < FSSIZE" for b
    using write_maps_image(2) [OF assms(2), of 0 99 b "of_nat (data_block k)"] that unfolding view [OF that] wm by simp
  have sup: "superblock_of (bview s 1) = mkfs_sb" using maps [of 1] assms(3) superblock_mkfs by (simp add: FSSIZE_def)
  have gm: "bview s (group_bitmap mkfs_sb h) = group_map (of_nat h) (of_nat (data_block k))" if "h < 99" for h
    using maps [of "36 + 200 * h"] that unfolding mkfs_group(1) [OF that] by (auto simp: FSSIZE_def)
  have q: "k div 195 < 99" using assms(1) by (simp add: less_mult_imp_div_less)
  have ok: "groups_ok (superblock_of (bview s 1)) s" unfolding sup using assms by (intro mkfs_groups_ok)
  have ds: "1 < disksize s" using assms(6) by (simp add: FSSIZE_def)
  obtain r s' where b: "balloc 1 s = Ok (r, s')"
    "(\<forall>h<99. free_bit mkfs_sb (bview s (group_bitmap mkfs_sb h)) = None) \<and> r = 0 \<and> bview s' = bview s \<or>
     (\<exists>h<99. \<exists>bi. (\<forall>h'<h. free_bit mkfs_sb (bview s (group_bitmap mkfs_sb h')) = None) \<and>
       free_bit mkfs_sb (bview s (group_bitmap mkfs_sb h)) = Some bi \<and> r = group_start mkfs_sb h + of_nat bi \<and> bview s' = taken mkfs_sb h bi (bview s))"
    using balloc_run [OF assms(5) ok ds] unfolding sup Let_def by auto
  note fb = mkfs_free_bit [OF assms(1)]
  have "\<not> (\<forall>h<99. free_bit mkfs_sb (bview s (group_bitmap mkfs_sb h)) = None)" using fb(2) [OF q refl] gm [OF q] q by auto
  then obtain h bi where h: "h < 99" "\<forall>h'<h. free_bit mkfs_sb (bview s (group_bitmap mkfs_sb h')) = None"
    "free_bit mkfs_sb (bview s (group_bitmap mkfs_sb h)) = Some bi" "r = group_start mkfs_sb h + of_nat bi" using b(2) by blast
  have hq: "h = k div 195" using fb(1) [OF h(1)] fb(2) [OF q refl] gm [OF q] gm [OF h(1)] h(2,3) by (metis linorder_neqE_nat option.distinct(1))
  then have "bi = 5 + k mod 195" using fb(2) [OF h(1) hq] gm [OF h(1)] h(3) by simp
  then have r: "r = of_nat (data_block k)" using h(4) hq by (simp add: group_start_def data_block_def)
  have kk: "k \<le> 195 * 99" using assms(1) by simp
  have u: "unat (fst (alloc_block (mkfs_after j))) = data_block j" if "j \<le> 195 * 99" for j using al [OF that] un [OF that] by simp
  show ?thesis
  proof (intro exI conjI allI impI)
    show "balloc 1 s = Ok (fst (alloc_block (mkfs_after k)), s')" using b(1) r al [OF kk] by simp
    show "unat (fst (alloc_block (mkfs_after k))) = data_block k" by (rule u [OF kk])
    show "fst (alloc_block (mkfs_after j)) \<noteq> fst (alloc_block (mkfs_after k))" if "j < k" for j
      using u [OF kk] u [of j] kk data_block_less [OF that] that by (metis less_irrefl less_imp_le less_le_trans)
    show "unat (fst (alloc_block (mkfs_after k))) \<noteq> 32 + 200 * h + i" if "i < 5" for h i
      unfolding u [OF kk] by (rule data_block_not_meta [OF that])
  qed
qed

text \<open>A freshly booted kernel, in a transaction, with a given disk.\<close>

definition demo_booted :: "nat \<Rightarrow> (nat \<Rightarrow> block) \<Rightarrow> log_st" where
  "demo_booted n d = demo_log\<lparr>disk := d, disksize := n\<rparr>"

lemma demo_booted_spec:
  assumes "\<forall>b<n. length (d b) = BSIZE" and "d 2 = replicate BSIZE 0" and "32 \<le> n" and "n < 2 ^ 32"
  shows "fs_ready 1 29 (demo_booted n d)" and "bview (demo_booted n d) = d"
proof -
  let ?s = "demo_booted n d"
  have f: "bcache ?s = bcache demo_log" "disk ?s = d" "disksize ?s = n" "lh_n ?s = lh_n demo_log" "lh_block ?s = lh_block demo_log"
    "log_size ?s = log_size demo_log" "log_start ?s = log_start demo_log" "log_dev ?s = log_dev demo_log" "log_outstanding ?s = log_outstanding demo_log"
    by (simp_all add: demo_booted_def)
  have dev: "b_dev (bcache demo_log ! i) = 0" if "i < NBUF" for i using demo_bio_spec(8) [OF that] by (simp add: demo_log_def bio_st.defs)
  have bi: "bio_inv demo_log" using demo_log_spec(1) by (simp add: log_inv_def)
  have "buf_ok d n (bcache demo_log ! i)" if "i < NBUF" for i
    using bio_invD(2) [OF bi that] dev [OF that] by (auto simp: buf_ok_def)
  then have inv: "bio_inv ?s" using bi assms(1) unfolding bio_inv_def f by simp
  have "bview ?s b = disk ?s b" for b by (rule bview_disk [OF bio_invD(1) [OF inv]]) (use dev f(1) in simp)
  then show "bview ?s = d" by (simp add: f fun_eq_iff)
  have same: "idle_bufs ?s = idle_bufs demo_log" "dirty_blocks ?s = dirty_blocks demo_log" "logged ?s = logged demo_log" "block_free ?s = block_free demo_log"
    by (simp_all add: idle_bufs_def dirty_blocks_def logged_def block_free_def f fun_eq_iff)
  have "get32 (replicate BSIZE 0) 0 = 0" by (simp add: get32_def slice_at_def of_le32_def min_def) (simp add: BSIZE_def)
  then have "encodes (disk ?s 2) []" using assms(2) f(2) by (simp add: encodes_def)
  then have "log_inv ?s" using demo_log_spec(1) inv assms(3,4) unfolding log_inv_def f same by (simp add: demo_log_spec)
  moreover have "env_ok 1 ?s" using demo_log_spec(2) by (simp add: env_ok_def curproc_def demo_booted_def)
  moreover have "\<forall>b. block_free demo_log b" using demo_log_spec(3) by blast
  ultimately show "fs_ready 1 29 ?s" using demo_log_spec(4,6,7,8) unfolding fs_ready_def same f by (simp add: LOGSIZE_def NBUF_def)
qed

lemma zero_disk_image:
  assumes "length (image s) = i" and "i + n < 2 ^ 23"
  shows "image (zero_disk n i s) = image s @ replicate n (replicate BSIZE 0)"
  using assms
proof (induction n arbitrary: i s)
  case (Suc n)
  have "image (wsect (of_nat i) (replicate BSIZE 0) s) = image s @ [replicate BSIZE 0]" using Suc.prems by (simp add: wsect_def Let_def)
  then show ?case using Suc.IH [of "wsect (of_nat i) (replicate BSIZE 0) s" "i + 1"] Suc.prems by simp
qed simp

lemma mkfs_skeleton_image: "image mkfs_skeleton = (replicate FSSIZE (replicate BSIZE 0))[1 := mkfs_super]"
proof -
  have z: "image (zero_disk FSSIZE 0 mkfs_start) = replicate FSSIZE (replicate BSIZE 0)"
    using zero_disk_image [of mkfs_start 0 FSSIZE] by (simp add: mkfs_start_def) (simp add: FSSIZE_def)
  have "sect_pos 1 = 1" using sect_pos_nat [of 1] by simp
  then show ?thesis unfolding mkfs_skeleton_def mkfs_super_def [symmetric] by (simp add: wsect_def Let_def z) (simp add: FSSIZE_def)
qed

lemma zero_disk_freeblock: "freeblock (zero_disk n i s) = freeblock s"
  by (induction n arbitrary: i s) (simp_all add: wsect_def Let_def)

theorem kernel_continues_mkfs_witness:
  "\<exists>s'. balloc 1 (demo_booted FSSIZE (\<lambda>b. image (mkfs_balloc 37 mkfs_skeleton) ! b)) = Ok (fst (alloc_block mkfs_start), s')"
proof -
  let ?u = mkfs_skeleton and ?d = "\<lambda>b. image (mkfs_balloc 37 mkfs_skeleton) ! b"
  have a0: "mkfs_after 0 = mkfs_start" by (simp add: mkfs_after_def)
  have fb: "freeblock ?u = 37" by (simp add: mkfs_skeleton_def wsect_def Let_def zero_disk_freeblock) (simp add: mkfs_start_def)
  have fa: "freeblock ?u = freeblock (mkfs_after 0)" unfolding fb a0 by (simp add: mkfs_start_def)
  have l: "length (image ?u) = FSSIZE" by (simp add: mkfs_skeleton_image)
  have s1: "image ?u ! 1 = mkfs_super" unfolding mkfs_skeleton_image by (rule nth_list_update_eq) (simp add: FSSIZE_def)
  have m: "?d b = (if \<exists>h<99. b = 36 + 200 * h then group_map (of_nat ((b - 36) div 200)) 37 else image ?u ! b)" if "b < FSSIZE" for b
    using write_maps_image(2) [OF l, of 0 99 b 37] that by (simp add: mkfs_balloc_def)
  have "length mkfs_super = BSIZE" by (simp add: mkfs_super_def splice_at_def superblock_bytes_def le32_def)
  then have "length (image ?u ! b) = BSIZE" if "b < FSSIZE" for b using that by (cases "b = 1") (simp_all add: mkfs_skeleton_image)
  then have lens: "\<forall>b<FSSIZE. length (?d b) = BSIZE" using m by simp
  have d2: "?d 2 = replicate BSIZE 0" using m [of 2] by (simp add: mkfs_skeleton_image nth_list_update FSSIZE_def)
  have n: "32 \<le> FSSIZE" "FSSIZE < 2 ^ 32" by (simp_all add: FSSIZE_def)
  note b = demo_booted_spec [OF lens d2 n]
  have r: "fs_ready 1 (Suc (Suc 27)) (demo_booted FSSIZE ?d)" using b(1) by simp
  have f: "disksize (demo_booted FSSIZE ?d) = FSSIZE" "log_start (demo_booted FSSIZE ?d) = 2" "log_size (demo_booted FSSIZE ?d) = LOGSIZE"
    by (simp_all add: demo_booted_def demo_log_spec LOGSIZE_def)
  have v: "\<forall>b<FSSIZE. bview (demo_booted FSSIZE ?d) b = image (mkfs_balloc (freeblock ?u) ?u) ! b" unfolding b(2) fb by simp
  from kernel_continues_mkfs [OF _ l s1 fa r f v] show ?thesis unfolding a0 by auto
qed

end
