(* ===== verification/Ide.thy ===== *)
theory Ide
  imports Fs
begin

section \<open>The disk driver (ide.c)\<close>

text \<open>
  The driver for a real disk, which the kernel can be linked with instead of the memory disk of
  memide.c. Requests wait in a list linked through the field \<^verbatim>\<open>qnext\<close> of the buffers, which is the
  function \<open>qnext\<close> here; \<^verbatim>\<open>idequeue\<close> points to the request the disk works on. The controller is hardware:
  \<open>ide_status\<close> are the bytes that reading its status register is going to deliver, \<open>ide_in\<close> the blocks
  that its data register is going to deliver, and \<open>ide_out\<close> records what was written to its registers.
  Reading more than is there waits for ever, which is the outcome \<open>Diverge\<close>.
\<close>

definition IDE_BSY :: uchar where "IDE_BSY = 0x80"
definition IDE_DRDY :: uchar where "IDE_DRDY = 0x40"
definition IDE_DF :: uchar where "IDE_DF = 0x20"
definition IDE_ERR :: uchar where "IDE_ERR = 0x01"
definition IDE_CMD_READ :: uchar where "IDE_CMD_READ = 0x20"
definition IDE_CMD_WRITE :: uchar where "IDE_CMD_WRITE = 0x30"
definition IDE_CMD_RDMUL :: uchar where "IDE_CMD_RDMUL = 0xc4"
definition IDE_CMD_WRMUL :: uchar where "IDE_CMD_WRMUL = 0xc5"
definition SECTOR_SIZE :: nat where "SECTOR_SIZE = 512"

datatype ide_op = Outb nat uchar | Outsl nat block

record ide_st = bio_st +
  idequeue :: "nat option"
  qnext :: "nat \<Rightarrow> nat option"
  havedisk1 :: bool
  ide_status :: "uchar list"
  ide_in :: "block list"
  ide_out :: "ide_op list"

definition ide_write :: "ide_op list \<Rightarrow> 'z ide_st_scheme \<Rightarrow> 'z ide_st_scheme" where
  "ide_write ops s = s\<lparr>ide_out := ide_out s @ ops\<rparr>"

primrec wait_status :: "uchar list \<Rightarrow> (uchar \<times> uchar list) option" where
  "wait_status [] = None"
| "wait_status (r # rs) = (if r AND (IDE_BSY OR IDE_DRDY) \<noteq> IDE_DRDY then wait_status rs else Some (r, rs))"

definition idewait :: "bool \<Rightarrow> 'z ide_st_scheme \<Rightarrow> (int \<times> 'z ide_st_scheme) res" where
  "idewait checkerr s =
     (case wait_status (ide_status s) of
        None \<Rightarrow> Diverge
      | Some (r, rs) \<Rightarrow>
          Ok (if checkerr \<and> r AND (IDE_DF OR IDE_ERR) \<noteq> 0 then -1 else 0, s\<lparr>ide_status := rs\<rparr>))"

text \<open>Up to \<open>n\<close> looks at the status register for a second disk.\<close>

primrec probe_disk1 :: "nat \<Rightarrow> 'z ide_st_scheme \<Rightarrow> 'z ide_st_scheme res" where
  "probe_disk1 0 s = Ok s"
| "probe_disk1 (Suc n) s =
     (case ide_status s of
        [] \<Rightarrow> Diverge
      | r # rs \<Rightarrow> let s = s\<lparr>ide_status := rs\<rparr> in if r \<noteq> 0 then Ok (s\<lparr>havedisk1 := True\<rparr>) else probe_disk1 n s)"

text \<open>The call of \<^verbatim>\<open>ioapicenable\<close> routes the interrupt and is left out.\<close>

definition ideinit :: "'z ide_st_scheme \<Rightarrow> 'z ide_st_scheme res" where
  "ideinit s =
     (let s = s\<lparr>mach := initlock IdeLock ''ide'' (mach s)\<rparr> in
      rbind (idewait False s) (\<lambda>(_, s).
      rbind (probe_disk1 1000 (ide_write [Outb 0x1f6 (0xe0 OR push_bit 4 1)] s)) (\<lambda>s.
      Ok (ide_write [Outb 0x1f6 (0xe0 OR push_bit 4 0)] s))))"

text \<open>The register writes that start the request of a buffer.\<close>

definition start_ops :: "buf \<Rightarrow> ide_op list" where
  "start_ops b =
     (let sector_per_block = BSIZE div SECTOR_SIZE;
          sector = of_nat (b_blockno b * sector_per_block) :: uint;
          read_cmd = (if sector_per_block = 1 then IDE_CMD_READ else IDE_CMD_RDMUL);
          write_cmd = (if sector_per_block = 1 then IDE_CMD_WRITE else IDE_CMD_WRMUL) in
      [Outb 0x3f6 0, Outb 0x1f2 (of_nat sector_per_block), Outb 0x1f3 (ucast (sector AND 0xff)),
       Outb 0x1f4 (ucast (drop_bit 8 sector AND 0xff)), Outb 0x1f5 (ucast (drop_bit 16 sector AND 0xff)),
       Outb 0x1f6 (0xe0 OR push_bit 4 (of_nat (b_dev b) AND 1) OR ucast (drop_bit 24 sector AND 0x0f))] @
      (if b_dirty b then [Outb 0x1f7 write_cmd, Outsl 0x1f0 (b_data b)] else [Outb 0x1f7 read_cmd]))"

definition idestart :: "nat option \<Rightarrow> 'z ide_st_scheme \<Rightarrow> 'z ide_st_scheme res" where
  "idestart b s =
     (case b of
        None \<Rightarrow> Panic ''idestart''
      | Some b \<Rightarrow>
          let x = bcache s ! b in
          if b_blockno x \<ge> FSSIZE then Panic ''incorrect blockno''
          else if BSIZE div SECTOR_SIZE > 7 then Panic ''idestart''
          else rbind (idewait False s) (\<lambda>(_, s). Ok (ide_write (start_ops x) s)))"

text \<open>The interrupt handler.\<close>

definition ide_fetch :: "nat \<Rightarrow> 'z ide_st_scheme \<Rightarrow> 'z ide_st_scheme res" where
  "ide_fetch b s =
     (if \<not> b_dirty (bcache s ! b) then
        rbind (idewait True s) (\<lambda>(r, s).
        if r \<ge> 0 then (case ide_in s of [] \<Rightarrow> Diverge | d # ds \<Rightarrow> Ok (bset b d (s\<lparr>ide_in := ds\<rparr>))) else Ok s)
      else Ok s)"

definition ideintr_disk :: "'z ide_st_scheme \<Rightarrow> 'z ide_st_scheme res" where
  "ideintr_disk s =
     rbind (kacquire IdeLock s) (\<lambda>s.
     case idequeue s of
       None \<Rightarrow> krelease IdeLock s
     | Some b \<Rightarrow>
         rbind (ide_fetch b (s\<lparr>idequeue := qnext s b\<rparr>)) (\<lambda>s.
         rbind (wakeup (ChanBuf b) (upd_buf b (\<lambda>x. x\<lparr>b_valid := True, b_dirty := False\<rparr>) s)) (\<lambda>s.
         rbind (if idequeue s \<noteq> None then idestart (idequeue s) s else Ok s) (\<lambda>s.
         krelease IdeLock s))))"

text \<open>The last request of the queue, from \<open>b\<close> on.\<close>

partial_function (option) queue_end :: "(nat \<Rightarrow> nat option) \<Rightarrow> nat \<Rightarrow> nat option" where
  "queue_end q b = (case q b of None \<Rightarrow> Some b | Some c \<Rightarrow> queue_end q c)"

definition ide_append :: "nat \<Rightarrow> 'z ide_st_scheme \<Rightarrow> 'z ide_st_scheme res" where
  "ide_append b s =
     (let s = s\<lparr>qnext := (qnext s)(b := None)\<rparr> in
      case idequeue s of
        None \<Rightarrow> Ok (s\<lparr>idequeue := Some b\<rparr>)
      | Some h \<Rightarrow> (case queue_end (qnext s) h of None \<Rightarrow> Diverge | Some e \<Rightarrow> Ok (s\<lparr>qnext := (qnext s)(e := Some b)\<rparr>)))"

text \<open>\<^verbatim>\<open>iderw\<close>: up to its loop, one round of the loop, and the continuation after a sleep. The rounds
  return \<open>True\<close> when the request is finished and \<open>False\<close> when the process went to sleep.\<close>

definition iderw_start :: "nat \<Rightarrow> 'z ide_st_scheme \<Rightarrow> 'z ide_st_scheme res" where
  "iderw_start b s =
     rbind (holdingsleep (BufSleeplock b) (b_lock (bcache s ! b)) s) (\<lambda>(h, s).
     let x = bcache s ! b in
     if \<not> h then Panic ''iderw: buf not locked''
     else if b_valid x \<and> \<not> b_dirty x then Panic ''iderw: nothing to do''
     else if b_dev x \<noteq> 0 \<and> \<not> havedisk1 s then Panic ''iderw: ide disk 1 not present''
     else
       rbind (kacquire IdeLock s) (\<lambda>s.
       rbind (ide_append b s) (\<lambda>s.
       if idequeue s = Some b then idestart (Some b) s else Ok s)))"

definition iderw_round :: "nat \<Rightarrow> 'z ide_st_scheme \<Rightarrow> (bool \<times> 'z ide_st_scheme) res" where
  "iderw_round b s =
     (if \<not> (b_valid (bcache s ! b) \<and> \<not> b_dirty (bcache s ! b)) then rbind (sleep (ChanBuf b) IdeLock s) (\<lambda>s. Ok (False, s))
      else rbind (krelease IdeLock s) (\<lambda>s. Ok (True, s)))"

definition iderw_resume :: "nat \<Rightarrow> nat \<Rightarrow> 'z ide_st_scheme \<Rightarrow> (bool \<times> 'z ide_st_scheme) res" where
  "iderw_resume cur b s = rbind (sleep_return cur IdeLock s) (iderw_round b)"

definition iderw_disk :: "nat \<Rightarrow> 'z ide_st_scheme \<Rightarrow> (bool \<times> 'z ide_st_scheme) res" where
  "iderw_disk b s = rbind (iderw_start b s) (iderw_round b)"

section \<open>The queue\<close>

text \<open>The requests in the list that starts at \<open>h\<close>.\<close>

primrec ide_path :: "(nat \<Rightarrow> nat option) \<Rightarrow> nat option \<Rightarrow> nat list \<Rightarrow> bool" where
  "ide_path q h [] \<longleftrightarrow> h = None"
| "ide_path q h (b # bs) \<longleftrightarrow> h = Some b \<and> ide_path q (q b) bs"

lemma ide_path_update: "b \<notin> set bs \<Longrightarrow> ide_path (q(b := x)) h bs = ide_path q h bs"
  by (induction bs arbitrary: h) auto

lemma queue_end_last:
  assumes "ide_path q (Some h) bs"
  shows "queue_end q h = Some (last bs)"
  using assms
proof (induction bs arbitrary: h)
  case (Cons b bs)
  then show ?case by (cases bs) (simp_all add: queue_end.simps)
qed simp

lemma ide_path_snoc:
  assumes "ide_path q h bs" and "distinct (bs @ [b])" and "q b = None" and "bs \<noteq> []"
  shows "ide_path (q(last bs := Some b)) h (bs @ [b])"
  using assms
proof (induction bs arbitrary: h)
  case (Cons c bs)
  show ?case
  proof (cases "bs = []")
    case True
    then show ?thesis using Cons.prems by auto
  next
    case False
    then have "last bs \<noteq> c" using Cons.prems(2) by auto
    then show ?thesis using Cons False by simp
  qed
qed simp

text \<open>The queue holds the requests \<open>bs\<close>, oldest first, and the disk was last told to work on the
  oldest one.\<close>

definition ide_inv :: "'z ide_st_scheme \<Rightarrow> nat list \<Rightarrow> bool" where
  "ide_inv s bs \<longleftrightarrow> ide_path (qnext s) (idequeue s) bs \<and> distinct bs \<and>
     (\<forall>b\<in>set bs. b < length (bcache s) \<and> b_blockno (bcache s ! b) < FSSIZE) \<and>
     (bs \<noteq> [] \<longrightarrow> (\<exists>pre. ide_out s = pre @ start_ops (bcache s ! hd bs)))"

lemma ide_append_run:
  assumes "ide_path (qnext s) (idequeue s) bs" and "distinct (bs @ [b])"
  shows "\<exists>q h. ide_append b s = Ok (s\<lparr>qnext := q, idequeue := h\<rparr>) \<and> ide_path q h (bs @ [b]) \<and> (h = Some b \<longleftrightarrow> bs = [])"
proof (cases bs)
  case Nil
  then have "ide_append b s = Ok (s\<lparr>qnext := (qnext s)(b := None), idequeue := Some b\<rparr>)" using assms(1) by (simp add: ide_append_def)
  moreover have "ide_path ((qnext s)(b := None)) (Some b) [b]" by simp
  ultimately show ?thesis using Nil by (metis append_Nil)
next
  case (Cons c cs)
  let ?q = "(qnext s)(b := None)"
  have p: "ide_path ?q (Some c) bs" and h: "idequeue s = Some c" using assms Cons by (auto simp: ide_path_update)
  have "ide_append b s = Ok (s\<lparr>qnext := ?q(last bs := Some b), idequeue := Some c\<rparr>)"
    using h queue_end_last [OF p] by (simp add: ide_append_def)
  moreover have "ide_path (?q(last bs := Some b)) (Some c) (bs @ [b])" by (rule ide_path_snoc [OF p assms(2)]) (simp_all add: Cons)
  moreover have "c \<noteq> b" using assms(2) Cons by auto
  ultimately show ?thesis using Cons by (intro exI [of _ "?q(last bs := Some b)"] exI [of _ "Some c"]) simp
qed

lemma idestart_run:
  assumes "b_blockno (bcache s ! b) < FSSIZE" and "wait_status (ide_status s) = Some (r, rs)"
  shows "idestart (Some b) s = Ok (ide_write (start_ops (bcache s ! b)) (s\<lparr>ide_status := rs\<rparr>))"
  using assms by (simp add: idestart_def idewait_def Let_def BSIZE_def SECTOR_SIZE_def)

text \<open>
  C30. \<^verbatim>\<open>iderw\<close> queues a request behind the ones that wait. For a buffer that the process has locked,
  that needs the disk and is not queued yet, with a disk that is there and gets ready, \<^verbatim>\<open>iderw\<close> appends
  the buffer to the linked list of requests; if the list was empty it starts the disk on the buffer,
  and otherwise it writes nothing to the disk, which still works on the oldest request.
\<close>

theorem ide_request_appended:
  assumes "env_ok pid s" and "ide_inv s bs" and "b \<notin> set bs" and "b < length (bcache s)"
    and "sl_locked (b_lock (bcache s ! b))" and "sl_pid (b_lock (bcache s ! b)) = pid"
    and "\<not> (b_valid (bcache s ! b) \<and> \<not> b_dirty (bcache s ! b))" and "b_dev (bcache s ! b) = 0 \<or> havedisk1 s"
    and "b_blockno (bcache s ! b) < FSSIZE" and "wait_status (ide_status s) \<noteq> None"
  shows "\<exists>s'. iderw_start b s = Ok s' \<and> ide_inv s' (bs @ [b]) \<and> bcache s' = bcache s \<and> ptable s' = ptable s \<and>
    ide_out s' = (if bs = [] then ide_out s @ start_ops (bcache s ! b) else ide_out s)"
proof -
  let ?t = "(sync s)\<lparr>mach := acq IdeLock (settle (mach s))\<rparr>"
  have env: "env_ok pid (sync s)" using assms(1) by (simp add: env_ok_def sync_def curproc_def)
  have k: "kacquire IdeLock (sync s) = Ok ?t" using kacquire_eq [OF env] by (simp add: sync_def)
  have p: "ide_path (qnext ?t) (idequeue ?t) bs" and d: "distinct (bs @ [b])" using assms(2,3) by (simp_all add: ide_inv_def sync_def)
  obtain q h where a: "ide_append b ?t = Ok (?t\<lparr>qnext := q, idequeue := h\<rparr>)" "ide_path q h (bs @ [b])" "h = Some b \<longleftrightarrow> bs = []"
    using ide_append_run [OF p d] by blast
  let ?u = "?t\<lparr>qnext := q, idequeue := h\<rparr>"
  have run: "iderw_start b s = (if bs = [] then idestart (Some b) ?u else Ok ?u)"
    using assms(5-8) a(1,3) k holdingsleep_eq [OF assms(1)] by (auto simp: iderw_start_def Let_def sync_def)
  have f: "ide_status ?u = ide_status s" "ide_out ?u = ide_out s" "bcache ?u = bcache s" "ptable ?u = ptable s" by (simp_all add: sync_def)
  obtain r rs where w: "wait_status (ide_status s) = Some (r, rs)" using assms(10) by auto
  show ?thesis
  proof (cases "bs = []")
    case True
    have "iderw_start b s = Ok (ide_write (start_ops (bcache s ! b)) (?u\<lparr>ide_status := rs\<rparr>))"
      using run True idestart_run [of ?u b r rs] assms(9) w f by simp
    then show ?thesis using a(2) d f True assms(4,9) by (auto simp: ide_inv_def ide_write_def)
  next
    case False
    then have "iderw_start b s = Ok ?u" using run by simp
    moreover have "ide_inv ?u (bs @ [b])" using False a(2) d assms(2,4,9) by (auto simp: ide_inv_def sync_def)
    ultimately show ?thesis using f False by simp
  qed
qed

text \<open>The data a request ends with: what the disk delivers, unless it was a write or the disk reports
  an error.\<close>

definition fetched :: "uchar \<Rightarrow> block \<Rightarrow> buf \<Rightarrow> block" where
  "fetched r d x = (if b_dirty x \<or> r AND (IDE_DF OR IDE_ERR) \<noteq> 0 then b_data x else d)"

lemma ide_fetch_run:
  assumes w: "wait_status (ide_status s) = Some (r, rest)" "wait_status rest \<noteq> None" and i: "ide_in s = d # ds"
  shows "\<exists>t. ide_fetch b s = Ok t \<and> bcache t = (bcache s)[b := (bcache s ! b)\<lparr>b_data := fetched r d (bcache s ! b)\<rparr>] \<and>
    idequeue t = idequeue s \<and> qnext t = qnext s \<and> ide_out t = ide_out s \<and> mach t = mach s \<and> ptable t = ptable s \<and> wait_status (ide_status t) \<noteq> None"
proof -
  have id: "(bcache s)[b := (bcache s ! b)\<lparr>b_data := b_data (bcache s ! b)\<rparr>] = bcache s" by simp
  show ?thesis
  proof (cases "b_dirty (bcache s ! b)")
    case True
    then have "ide_fetch b s = Ok s" by (simp add: ide_fetch_def)
    then show ?thesis using True w(1) id by (simp add: fetched_def)
  next
    case nd: False
    show ?thesis
    proof (cases "r AND (IDE_DF OR IDE_ERR) = 0")
      case True
      then have "ide_fetch b s = Ok (bset b d (s\<lparr>ide_status := rest, ide_in := ds\<rparr>))" using nd w(1) i by (simp add: ide_fetch_def idewait_def)
      then show ?thesis using nd True w(2) by (simp add: fetched_def bset_def upd_buf_def)
    next
      case False
      then have "ide_fetch b s = Ok (s\<lparr>ide_status := rest\<rparr>)" using nd w(1) by (simp add: ide_fetch_def idewait_def)
      then show ?thesis using False w(2) id by (simp add: fetched_def)
    qed
  qed
qed

lemma buf_flags_data: "x\<lparr>b_data := d, b_valid := True, b_dirty := False\<rparr> = x\<lparr>b_valid := True, b_dirty := False, b_data := d\<rparr>"
  by (cases x) simp

text \<open>
  C31. An interrupt of the disk finishes the oldest request and no other. If the disk answers, the
  handler returns; the buffer is valid and clean and has left the queue, it holds the block the
  disk delivered (its own data after a write, or when the disk reports an error: the handler marks
  the buffer valid in that case, too); the processes that sleep on the buffer are runnable; the other
  buffers are as before, and the disk is started on the next request.
\<close>

theorem ide_interrupt_serves_oldest:
  assumes "env_ok pid s" and "ide_inv s (b # bs)" and "ide_in s = d # ds"
    and "wait_status (ide_status s) = Some (r, rest)" and "wait_status rest \<noteq> None"
  shows "\<exists>s'. ideintr_disk s = Ok s' \<and> ide_inv s' bs \<and> ptable s' = wakeup1 (Some (ChanBuf b)) (ptable s) \<and>
    bcache s' = (bcache s)[b := (bcache s ! b)\<lparr>b_valid := True, b_dirty := False, b_data := fetched r d (bcache s ! b)\<rparr>] \<and>
    ide_out s' = (if bs = [] then ide_out s else ide_out s @ start_ops (bcache s ! hd bs))"
proof -
  let ?h = "s\<lparr>mach := acq IdeLock (mach s)\<rparr>" and ?x = "(bcache s ! b)\<lparr>b_valid := True, b_dirty := False, b_data := fetched r d (bcache s ! b)\<rparr>"
  have inv: "ide_path (qnext s) (qnext s b) bs" "idequeue s = Some b" "b \<notin> set bs" "distinct bs" "b < length (bcache s)"
    "\<forall>c\<in>set bs. c < length (bcache s) \<and> b_blockno (bcache s ! c) < FSSIZE" using assms(2) by (auto simp: ide_inv_def)
  let ?h1 = "?h\<lparr>idequeue := qnext s b\<rparr>"
  obtain t where t: "ide_fetch b ?h1 = Ok t" "bcache t = (bcache s)[b := (bcache s ! b)\<lparr>b_data := fetched r d (bcache s ! b)\<rparr>]"
    "idequeue t = qnext s b" "qnext t = qnext s" "ide_out t = ide_out s" "mach t = acq IdeLock (mach s)" "ptable t = ptable s" "wait_status (ide_status t) \<noteq> None"
    using ide_fetch_run [of ?h1 r rest d ds b] assms(3-5) by auto
  let ?t1 = "upd_buf b (\<lambda>x. x\<lparr>b_valid := True, b_dirty := False\<rparr>) t"
  have b1: "bcache ?t1 = (bcache s)[b := ?x]" using t(2) inv(5) by (simp add: upd_buf_def buf_flags_data)
  have m1: "mach ?t1 = acq IdeLock (mach s)" "ptable ?t1 = ptable s" using t(6,7) by (simp_all add: upd_buf_def)
  have ok: "mach_ok (mach s)" by (rule env_okD(1) [OF assms(1)])
  have "table_free ?t1" using m1(1) env_okD [OF assms(1)] unfolding table_free_def by (simp add: mach_ok_acq lock_free_acq)
  then have w: "wakeup (ChanBuf b) ?t1 = Ok (?t1\<lparr>ptable := wakeup1 (Some (ChanBuf b)) (ptable s)\<rparr>)" (is "_ = Ok ?u")
    using wakeup_eq [of ?t1 "ChanBuf b"] m1 settle_acq [OF ok, of IdeLock] by simp
  have u: "bcache ?u = (bcache s)[b := ?x]" "idequeue ?u = qnext s b" "qnext ?u = qnext s" "ide_out ?u = ide_out s" "mach ?u = acq IdeLock (mach s)"
    "ptable ?u = wakeup1 (Some (ChanBuf b)) (ptable s)" "ide_status ?u = ide_status t"
    using b1 m1 t by (simp_all add: upd_buf_def)
  have same: "bcache ?u ! c = bcache s ! c" if "c \<in> set bs" for c using that inv(3) u(1) by (metis nth_list_update_neq)
  have run: "ideintr_disk s = rbind (if qnext s b \<noteq> None then idestart (qnext s b) ?u else Ok ?u) (krelease IdeLock)"
    using t(1) w inv(2) u(2) by (simp add: ideintr_disk_def kacquire_eq [OF assms(1)])
  show ?thesis
  proof (cases bs)
    case Nil
    then have "ideintr_disk s = Ok (?u\<lparr>mach := settle (mach s)\<rparr>)" using run inv(1) krelease_eq [OF assms(1) u(5)] by simp
    then show ?thesis using u Nil inv(1) by (auto simp: ide_inv_def)
  next
    case (Cons c cs)
    obtain r' rs' where w': "wait_status (ide_status ?u) = Some (r', rs')" using t(8) u(7) by auto
    let ?v = "ide_write (start_ops (bcache s ! c)) (?u\<lparr>ide_status := rs'\<rparr>)"
    have "idestart (Some c) ?u = Ok ?v" using idestart_run [OF _ w', of c] inv(6) same [of c] Cons by simp
    moreover have "mach ?v = acq IdeLock (mach s)" using u(5) by (simp add: ide_write_def)
    ultimately have "ideintr_disk s = Ok (?v\<lparr>mach := settle (mach s)\<rparr>)" using run inv(1) Cons krelease_eq [OF assms(1)] by simp
    moreover have "ide_inv (?v\<lparr>mach := settle (mach s)\<rparr>) bs"
      using inv(1,4,6) same u Cons by (auto simp: ide_inv_def ide_write_def)
    ultimately show ?thesis using u Cons by (simp add: ide_write_def)
  qed
qed

subsection \<open>A concrete queue\<close>

definition demo_req :: buf where
  "demo_req = zero_buf\<lparr>b_dev := 0, b_blockno := 300, b_lock := (b_lock zero_buf)\<lparr>sl_locked := True, sl_pid := 1\<rparr>, b_data := replicate BSIZE 0\<rparr>"

definition demo_ide :: ide_st where
  "demo_ide = mem_st.extend demo_mem \<lparr>bcache = replicate (Suc NBUF) demo_req, disk = (\<lambda>_. []), disksize = 0, dtrace = [],
     idequeue = Some 3, qnext = (\<lambda>_. None)(3 := Some 4), havedisk1 = False, ide_status = [0x80, 0x40, 0x40], ide_in = [replicate BSIZE 7],
     ide_out = start_ops demo_req\<rparr>"

lemma demo_ide_spec: "env_ok 1 demo_ide" "ide_inv demo_ide [3, 4]" "i < Suc NBUF \<Longrightarrow> bcache demo_ide ! i = demo_req" "length (bcache demo_ide) = Suc NBUF"
  "ide_status demo_ide = [0x80, 0x40, 0x40]" "ide_in demo_ide = [replicate BSIZE 7]"
proof -
  show "env_ok 1 demo_ide" using demo_sys_env by (simp add: env_ok_def curproc_def demo_ide_def mem_st.defs demo_mem_def kern.defs)
  show c: "bcache demo_ide ! i = demo_req" if "i < Suc NBUF" for i using that by (simp add: demo_ide_def mem_st.defs del: replicate_Suc)
  show l: "length (bcache demo_ide) = Suc NBUF" "ide_status demo_ide = [0x80, 0x40, 0x40]" "ide_in demo_ide = [replicate BSIZE 7]"
    by (simp_all add: demo_ide_def mem_st.defs del: replicate_Suc)
  have "ide_path (qnext demo_ide) (idequeue demo_ide) [3, 4]" by (simp add: demo_ide_def mem_st.defs)
  moreover have "ide_out demo_ide = [] @ start_ops (bcache demo_ide ! 3)" unfolding c [of 3, unfolded NBUF_def, simplified] by (simp add: demo_ide_def mem_st.defs)
  moreover have "b_blockno demo_req < FSSIZE" by (simp add: demo_req_def FSSIZE_def)
  ultimately show "ide_inv demo_ide [3, 4]" using l c [of 3] c [of 4] by (auto simp: ide_inv_def NBUF_def)
qed

lemma demo_wait: "wait_status [0x80, 0x40, 0x40] = Some (0x40, [0x40])" "wait_status [0x40] = Some (0x40, [])"
  by (simp_all add: IDE_BSY_def IDE_DRDY_def)

theorem ide_request_appended_witness: "\<exists>s'. iderw_start 7 demo_ide = Ok s' \<and> ide_inv s' [3, 4, 7]"
proof -
  have x: "bcache demo_ide ! 7 = demo_req" by (rule demo_ide_spec(3)) (simp add: NBUF_def)
  have "7 \<notin> set [3 :: nat, 4]" "7 < length (bcache demo_ide)" "wait_status (ide_status demo_ide) \<noteq> None"
    "sl_locked (b_lock (bcache demo_ide ! 7))" "sl_pid (b_lock (bcache demo_ide ! 7)) = 1"
    "\<not> (b_valid (bcache demo_ide ! 7) \<and> \<not> b_dirty (bcache demo_ide ! 7))" "b_dev (bcache demo_ide ! 7) = 0 \<or> havedisk1 demo_ide"
    "b_blockno (bcache demo_ide ! 7) < FSSIZE"
    unfolding x demo_ide_spec(4,5) demo_wait by (simp_all add: demo_req_def FSSIZE_def NBUF_def zero_buf_def)
  from ide_request_appended [OF demo_ide_spec(1,2) this(1,2,4-8,3)] show ?thesis by auto
qed

theorem ide_interrupt_serves_oldest_witness: "\<exists>s'. ideintr_disk demo_ide = Ok s' \<and> ide_inv s' [4]"
proof -
  have w: "wait_status (ide_status demo_ide) = Some (0x40, [0x40])" "wait_status [0x40 :: uchar] \<noteq> None" unfolding demo_ide_spec(5) demo_wait by simp_all
  from ide_interrupt_serves_oldest [OF demo_ide_spec(1,2,6) w] show ?thesis by blast
qed

end
