(* ===== verification/Grep.thy ===== *)
theory Grep
  imports Cstring
begin

section \<open>Searching lines (grep.c)\<close>

text \<open>
  Patterns and lines are C strings, lists of bytes without the terminator. The output of \<^verbatim>\<open>grep\<close> is
  the list of lines it writes, its input the list of what successive calls of \<^verbatim>\<open>read\<close> find: a read
  returns as much of the first element as was asked for, and the rest with the next call.
\<close>

abbreviation "caret \<equiv> (of_char (CHR ''^'') :: uchar)"
abbreviation "star \<equiv> (of_char (CHR ''*'') :: uchar)"
abbreviation "dollar \<equiv> (of_char (CHR ''$'') :: uchar)"
abbreviation "dot \<equiv> (of_char (CHR ''.'') :: uchar)"
abbreviation "newline \<equiv> (10 :: uchar)"

function matchhere :: "uchar list \<Rightarrow> uchar list \<Rightarrow> bool"
  and matchstar :: "uchar \<Rightarrow> uchar list \<Rightarrow> uchar list \<Rightarrow> bool" where
  "matchhere re text =
     (if re = [] then True
      else if tl re \<noteq> [] \<and> hd (tl re) = star then matchstar (hd re) (tl (tl re)) text
      else if hd re = dollar \<and> tl re = [] then text = []
      else if text \<noteq> [] \<and> (hd re = dot \<or> hd re = hd text) then matchhere (tl re) (tl text)
      else False)"
| "matchstar c re text =
     (if matchhere re text then True
      else if text \<noteq> [] \<and> (hd text = c \<or> c = dot) then matchstar c re (tl text)
      else False)"
  by pat_completeness auto

termination
  by (relation "measures [\<lambda>x. case x of Inl (re, _) \<Rightarrow> 2 * length re | Inr (_, re, _) \<Rightarrow> 2 * length re + 1,
      \<lambda>x. case x of Inl (_, text) \<Rightarrow> length text | Inr (_, _, text) \<Rightarrow> length text]")
    (auto simp: neq_Nil_conv)

declare matchhere.simps [simp del] matchstar.simps [simp del]

primrec match_from :: "uchar list \<Rightarrow> uchar list \<Rightarrow> bool" where
  "match_from re [] = matchhere re []"
| "match_from re (c # text) = (if matchhere re (c # text) then True else match_from re text)"

definition match :: "uchar list \<Rightarrow> uchar list \<Rightarrow> bool" where
  "match re text = (if re \<noteq> [] \<and> hd re = caret then matchhere (tl re) text else match_from re text)"

lemma cstring_elem: "x \<in> set (cstring p) \<Longrightarrow> p \<noteq> []"
  by (auto simp: cstring_def)

text \<open>The inner loop of \<^verbatim>\<open>grep\<close> on the bytes from \<open>p\<close> on: the lines written and the bytes behind the
  last newline.\<close>

function grep_lines :: "uchar list \<Rightarrow> uchar list \<Rightarrow> uchar list list \<times> uchar list" where
  "grep_lines pattern p =
     (if newline \<in> set (cstring p) then
        let line = takeWhile (\<lambda>c. c \<noteq> newline) p;
            (out, rest) = grep_lines pattern (drop (length line + 1) p) in
        (if match pattern line then (line @ [newline]) # out else out, rest)
      else ([], p))"
  by auto

termination by (relation "measure (\<lambda>(pattern, p). length p)") (auto intro!: diff_less dest: cstring_elem)

declare grep_lines.simps [simp del]

definition BUF_SIZE :: nat where "BUF_SIZE = 1024"

function grep :: "uchar list \<Rightarrow> uchar list \<Rightarrow> uchar list list \<Rightarrow> uchar list list" where
  "grep pattern pending [] = []"
| "grep pattern pending (c # input) =
     (let room = BUF_SIZE - length pending - 1; n = take room c; more = drop room c in
      if n = [] then []
      else
        let buf = pending @ n; (out, p) = grep_lines pattern buf in
        out @ grep pattern (if length p = length buf then [] else p) (if more = [] then input else more # input))"
  by pat_completeness auto

termination by (relation "measure (\<lambda>(pattern, pending, input). sum_list (map (\<lambda>c. length c + 1) input))") auto

declare grep.simps(2) [simp del]

section \<open>What patterns mean\<close>

text \<open>The bytes that a pattern character stands for, and the strings that a pattern stands for; a
  \<^verbatim>\<open>$\<close> at its end stands for the empty string and anchors it.\<close>

definition stands_for :: "uchar \<Rightarrow> uchar \<Rightarrow> bool" where
  "stands_for c x \<longleftrightarrow> c = dot \<or> c = x"

fun pattern_strings :: "uchar list \<Rightarrow> uchar list set" where
  "pattern_strings [] = {[]}"
| "pattern_strings [c] = (if c = dollar then {[]} else {[x] | x. stands_for c x})"
| "pattern_strings (c # d # re) =
     (if d = star then {u @ v | u v. (\<forall>x\<in>set u. stands_for c x) \<and> v \<in> pattern_strings re}
      else {x # v | x v. stands_for c x \<and> v \<in> pattern_strings (d # re)})"

fun anchored :: "uchar list \<Rightarrow> bool" where
  "anchored [] = False"
| "anchored [c] = (c = dollar)"
| "anchored (c # d # re) = (if d = star then anchored re else anchored (d # re))"

definition here :: "uchar list \<Rightarrow> uchar list \<Rightarrow> bool" where
  "here re str \<longleftrightarrow> (\<exists>u v. str = u @ v \<and> u \<in> pattern_strings re \<and> (anchored re \<longrightarrow> v = []))"

lemma here_star:
  "here (c # star # re) str \<longleftrightarrow> (\<exists>w v. str = w @ v \<and> (\<forall>x\<in>set w. stands_for c x) \<and> here re v)"
proof
  assume "here (c # star # re) str"
  then obtain t v where t: "str = t @ v" "t \<in> pattern_strings (c # star # re)" "anchored re \<longrightarrow> v = []" unfolding here_def by auto
  then obtain w u where w: "t = w @ u" "\<forall>x\<in>set w. stands_for c x" "u \<in> pattern_strings re" by auto
  have "here re (u @ v)" unfolding here_def using w(3) t(3) by blast
  moreover have "str = w @ (u @ v)" using t(1) w(1) by simp
  ultimately show "\<exists>w v. str = w @ v \<and> (\<forall>x\<in>set w. stands_for c x) \<and> here re v" using w(2) by blast
next
  assume "\<exists>w v. str = w @ v \<and> (\<forall>x\<in>set w. stands_for c x) \<and> here re v"
  then obtain w u v where "str = (w @ u) @ v" "\<forall>x\<in>set w. stands_for c x" "u \<in> pattern_strings re" "anchored re \<longrightarrow> v = []"
    unfolding here_def by (metis append.assoc)
  moreover then have "w @ u \<in> pattern_strings (c # star # re)" by auto
  ultimately show "here (c # star # re) str" unfolding here_def by (metis anchored.simps(3))
qed

lemma split_first:
  "(\<exists>u v. str = u @ v \<and> u \<in> {x # w | x w. P x \<and> w \<in> W} \<and> Q v) \<longleftrightarrow> str \<noteq> [] \<and> P (hd str) \<and> (\<exists>u v. tl str = u @ v \<and> u \<in> W \<and> Q v)"
    (is "?L \<longleftrightarrow> ?R")
proof
  assume ?L
  then obtain x w v where "str = x # w @ v" "P x" "w \<in> W" "Q v" by auto
  then show ?R by (intro conjI exI [of _ w] exI [of _ v]) simp_all
next
  assume ?R
  then obtain u v where "str = (hd str # u) @ v" "P (hd str)" "u \<in> W" "Q v" by (cases str) auto
  then show ?L by blast
qed

lemma here_last: "here [c] str \<longleftrightarrow> (if c = dollar then str = [] else str \<noteq> [] \<and> stands_for c (hd str))"
proof -
  have "{[x] | x. stands_for c x} = {x # w | x w. stands_for c x \<and> w \<in> {[]}}" by auto
  then show ?thesis using split_first [of str "stands_for c" "{[]}" "\<lambda>_. True"] by (simp add: here_def)
qed

lemma here_Cons: "d \<noteq> star \<Longrightarrow> here (c # d # re) str \<longleftrightarrow> str \<noteq> [] \<and> stands_for c (hd str) \<and> here (d # re) (tl str)"
  using split_first [of str "stands_for c" "pattern_strings (d # re)" "\<lambda>v. anchored (d # re) \<longrightarrow> v = []"] by (simp add: here_def)

lemma star_unroll:
  "(\<exists>w v. str = w @ v \<and> (\<forall>x\<in>set w. stands_for c x) \<and> P v) \<longleftrightarrow>
   P str \<or> (str \<noteq> [] \<and> stands_for c (hd str) \<and> (\<exists>w v. tl str = w @ v \<and> (\<forall>x\<in>set w. stands_for c x) \<and> P v))" (is "?L \<longleftrightarrow> ?R")
proof
  assume ?L
  then obtain w v where "str = w @ v" "\<forall>x\<in>set w. stands_for c x" "P v" by blast
  then show ?R by (cases w) auto
next
  assume ?R
  then show ?L
  proof
    assume "P str" then show ?L by (intro exI [of _ "[]"] exI [of _ str]) simp
  next
    assume "str \<noteq> [] \<and> stands_for c (hd str) \<and> (\<exists>w v. tl str = w @ v \<and> (\<forall>x\<in>set w. stands_for c x) \<and> P v)"
    then obtain w v where "str = (hd str # w) @ v" "\<forall>x\<in>set (hd str # w). stands_for c x" "P v" by (cases str) auto
    then show ?L by blast
  qed
qed

lemma match_here_star:
  "matchhere re str = here re str"
  "matchstar c re str = (\<exists>w v. str = w @ v \<and> (\<forall>x\<in>set w. stands_for c x) \<and> here re v)"
proof (induction re str and c re str rule: matchhere_matchstar.induct)
  case (1 re str)
  consider "re = []" | c where "re = [c]" | c re' where "re = c # star # re'" | c d re' where "re = c # d # re'" "d \<noteq> star"
    by (metis list.exhaust)
  then show ?case
  proof cases
    case 1
    then show ?thesis by (simp add: matchhere.simps here_def)
  next
    case 2
    then show ?thesis using here_last [of c str] by (auto simp: matchhere.simps [of "[c]"] matchhere.simps [of "[]"] stands_for_def)
  next
    case 3
    then show ?thesis using "1.IH"(1) here_star [of c re' str] by (simp add: matchhere.simps)
  next
    case 4
    then show ?thesis using "1.IH"(2) here_Cons [of d c re' str] by (auto simp: matchhere.simps [of "c # d # re'"] stands_for_def)
  qed
next
  case (2 c re str)
  show ?case unfolding star_unroll [of str] using 2 by (auto simp: matchstar.simps [of c re str] stands_for_def)
qed

lemma match_from_here: "match_from re str \<longleftrightarrow> (\<exists>p t. str = p @ t \<and> here re t)"
proof (induction str)
  case (Cons c str)
  have "(\<exists>p t. c # str = p @ t \<and> here re t) \<longleftrightarrow> here re (c # str) \<or> (\<exists>p t. str = p @ t \<and> here re t)"
    by (auto simp: Cons_eq_append_conv)
  then show ?case using Cons by (simp add: match_here_star)
qed (simp add: match_here_star)

text \<open>
  C34. \<^verbatim>\<open>match\<close> decides exactly whether a line has a substring that the pattern stands for, at the
  beginning of the line if the pattern starts with \<^verbatim>\<open>^\<close> and at its end if it ends with \<^verbatim>\<open>$\<close>, for all
  patterns, also those with stars on stars, dots and anchors.
\<close>

theorem match_decides_pattern:
  "match re str \<longleftrightarrow>
   (let caretted = (re \<noteq> [] \<and> hd re = caret); body = (if caretted then tl re else re) in
    \<exists>before found after. str = before @ found @ after \<and> found \<in> pattern_strings body \<and>
      (caretted \<longrightarrow> before = []) \<and> (anchored body \<longrightarrow> after = []))"
proof (cases "re \<noteq> [] \<and> hd re = caret")
  case True
  have "here (tl re) str \<longleftrightarrow> (\<exists>before found after. str = before @ found @ after \<and> found \<in> pattern_strings (tl re) \<and> before = [] \<and> (anchored (tl re) \<longrightarrow> after = []))"
    unfolding here_def by (metis append_Nil)
  then show ?thesis unfolding match_def if_P [OF True] match_here_star Let_def using True by simp
next
  case False
  have "(\<exists>p t. str = p @ t \<and> here re t) \<longleftrightarrow> (\<exists>before found after. str = before @ found @ after \<and> found \<in> pattern_strings re \<and> (anchored re \<longrightarrow> after = []))"
    unfolding here_def by blast
  then show ?thesis unfolding match_def if_not_P [OF False] match_from_here using False by auto
qed

theorem match_decides_pattern_witness: "match (bytes_of ''^ab*$'') (bytes_of ''abb'')"
proof -
  have "[98, 98] = [98, 98] @ ([] :: uchar list)" by simp
  then have "bytes_of ''abb'' \<in> pattern_strings (bytes_of ''ab*$'')" by (force simp: bytes_of_def stands_for_def)
  then show ?thesis unfolding match_decides_pattern Let_def by (intro exI [of _ "[]"] exI [of _ "bytes_of ''abb''"]) (simp add: bytes_of_def)
qed

section \<open>The lines that are printed\<close>

function complete_lines :: "uchar list \<Rightarrow> uchar list list" where
  "complete_lines p =
     (if newline \<in> set p then takeWhile (\<lambda>c. c \<noteq> newline) p # complete_lines (tl (dropWhile (\<lambda>c. c \<noteq> newline) p)) else [])"
  by auto

termination
proof (relation "measure length")
  fix p :: "uchar list"
  assume "newline \<in> set p"
  then have "dropWhile (\<lambda>c. c \<noteq> newline) p \<noteq> []" by auto
  then have "length (tl (dropWhile (\<lambda>c. c \<noteq> newline) p)) < length (dropWhile (\<lambda>c. c \<noteq> newline) p)" by simp
  also have "\<dots> \<le> length p" by (rule length_dropWhile_le)
  finally show "(tl (dropWhile (\<lambda>c. c \<noteq> newline) p), p) \<in> measure length" by simp
qed simp

declare complete_lines.simps [simp del]

text \<open>The bytes behind the last newline.\<close>

definition last_part :: "uchar list \<Rightarrow> uchar list" where
  "last_part p = rev (takeWhile (\<lambda>c. c \<noteq> newline) (rev p))"

lemma complete_lines_Cons:
  "newline \<notin> set l \<Longrightarrow> complete_lines (l @ newline # p) = l # complete_lines p"
  "newline \<notin> set l \<Longrightarrow> complete_lines l = []"
proof -
  show "complete_lines (l @ newline # p) = l # complete_lines p" if l: "newline \<notin> set l"
  proof -
    have "takeWhile (\<lambda>c. c \<noteq> newline) (l @ newline # p) = l" "dropWhile (\<lambda>c. c \<noteq> newline) (l @ newline # p) = newline # p"
      using l by (auto simp: takeWhile_append dropWhile_append)
    then show ?thesis by (simp add: complete_lines.simps [of "l @ newline # p"])
  qed
  show "complete_lines l = []" if "newline \<notin> set l" using that by (simp add: complete_lines.simps)
qed

lemma last_part_simps:
  "newline \<notin> set l \<Longrightarrow> last_part l = l" "last_part (l @ newline # p) = last_part p" "newline \<notin> set (last_part p)" "set (last_part p) \<subseteq> set p"
  "length (last_part p) \<le> length p"
proof -
  show "last_part l = l" if "newline \<notin> set l"
  proof -
    have e: "takeWhile (\<lambda>c. c \<noteq> newline) (rev l) = rev l" using that by (auto simp: takeWhile_eq_all_conv)
    show ?thesis unfolding last_part_def e by simp
  qed
  show "last_part (l @ newline # p) = last_part p"
  proof -
    have "takeWhile (\<lambda>c. c \<noteq> newline) (rev p @ newline # rev l) = takeWhile (\<lambda>c. c \<noteq> newline) (rev p)" by (simp add: takeWhile_tail)
    then show ?thesis by (simp add: last_part_def)
  qed
  show "newline \<notin> set (last_part p)" "set (last_part p) \<subseteq> set p" by (auto simp: last_part_def dest: set_takeWhileD)
  show "length (last_part p) \<le> length p" using length_takeWhile_le [of "\<lambda>c. c \<noteq> newline" "rev p"] by (simp add: last_part_def)
qed

text \<open>Every list of bytes without a newline is a last part; the others start with a line.\<close>

lemma lines_induct [case_names last line]:
  assumes "\<And>l. newline \<notin> set l \<Longrightarrow> P l" and "\<And>l p. newline \<notin> set l \<Longrightarrow> P p \<Longrightarrow> P (l @ newline # p)"
  shows "P p"
proof (induction p rule: length_induct)
  case (1 p)
  show ?case
  proof (cases "newline \<in> set p")
    case True
    then obtain l q where "p = l @ newline # q" "newline \<notin> set l" by (meson split_list_first)
    then show ?thesis using 1 assms(2) by simp
  qed (rule assms(1))
qed

lemma complete_lines_append: "complete_lines (p @ q) = complete_lines p @ complete_lines (last_part p @ q)"
proof (induction p rule: lines_induct)
  case (last l)
  then show ?case by (simp add: complete_lines_Cons last_part_simps)
next
  case (line l p)
  then show ?case by (simp add: complete_lines_Cons last_part_simps)
qed

lemma grep_lines_eq:
  assumes "0 \<notin> set p"
  shows "grep_lines pattern p = (map (\<lambda>l. l @ [newline]) (filter (match pattern) (complete_lines p)), last_part p)"
  using assms
proof (induction p rule: lines_induct)
  case (last l)
  then show ?case using cstring_append [of l "[]"] by (simp add: grep_lines.simps complete_lines_Cons last_part_simps)
next
  case (line l p)
  have "cstring (l @ newline # p) = l @ newline # p" using cstring_append [of "l @ newline # p" "[]"] line.prems by simp
  moreover have "takeWhile (\<lambda>c. c \<noteq> newline) (l @ newline # p) = l" using line.hyps by (auto simp: takeWhile_append)
  ultimately show ?case using line by (simp add: grep_lines.simps [of _ "l @ newline # p"] complete_lines_Cons last_part_simps)
qed

text \<open>One read whose bytes, with the ones kept before, hold a newline or none.\<close>

lemma grep_step:
  assumes "0 \<notin> set (pending @ take (1023 - length pending) c)" and "take (1023 - length pending) c \<noteq> []"
  shows "grep pattern pending (c # input) =
    (let buf = pending @ take (1023 - length pending) c; more = drop (1023 - length pending) c in
     map (\<lambda>l. l @ [newline]) (filter (match pattern) (complete_lines buf)) @
     grep pattern (if newline \<in> set buf then last_part buf else []) (if more = [] then input else more # input))"
proof -
  let ?buf = "pending @ take (1023 - length pending) c"
  have r: "BUF_SIZE - length pending - 1 = 1023 - length pending" by (simp add: BUF_SIZE_def)
  have "(if length (last_part ?buf) = length ?buf then [] else last_part ?buf) = (if newline \<in> set ?buf then last_part ?buf else [])"
  proof (cases "newline \<in> set ?buf")
    case True
    then obtain l q where lq: "?buf = l @ newline # q" by (meson split_list)
    then have "length (last_part ?buf) < length ?buf" using last_part_simps(2) [of l q] last_part_simps(5) [of q] by simp
    then show ?thesis using True by simp
  next
    case False
    then show ?thesis using last_part_simps(1) [of ?buf] by simp
  qed
  then show ?thesis using assms(2) by (simp only: grep.simps(2) Let_def r grep_lines_eq [OF assms(1)] prod.case if_False)
qed

lemma grep_run:
  assumes "\<forall>c\<in>set input. newline \<in> set c \<and> 0 \<notin> set c \<and> length c \<le> 512" and "newline \<notin> set pending" and "0 \<notin> set pending" and "length pending \<le> 511"
  shows "grep pattern pending input = map (\<lambda>l. l @ [newline]) (filter (match pattern) (complete_lines (pending @ concat input)))"
  using assms
proof (induction input arbitrary: pending)
  case Nil
  then show ?case by (simp add: complete_lines_Cons)
next
  case (Cons c input)
  let ?buf = "pending @ c"
  have c: "newline \<in> set c" "0 \<notin> set c" "length c \<le> 512" "c \<noteq> []" using Cons.prems(1) by auto
  have room: "take (1023 - length pending) c = c" "drop (1023 - length pending) c = []"
    using c(3) Cons.prems(4) by simp_all
  have nul: "0 \<notin> set ?buf" using c(2) Cons.prems(3) by simp
  obtain l q where lq: "c = l @ newline # q" using c(1) by (meson split_list)
  have "last_part ?buf = last_part q" using last_part_simps(2) [of "pending @ l" q] lq by simp
  then have "length (last_part ?buf) \<le> 511" using last_part_simps(5) [of q] lq c(3) by simp
  then have "grep pattern (last_part ?buf) input = map (\<lambda>l. l @ [newline]) (filter (match pattern) (complete_lines (last_part ?buf @ concat input)))"
    by (intro Cons.IH) (use Cons.prems(1) last_part_simps(3,4) [of ?buf] nul in auto)
  then show ?case using grep_step [of pending c pattern input] room nul c complete_lines_append [of ?buf "concat input"] by (simp add: Let_def)
qed

text \<open>The lines that the first part of a text completes are lines of the text, and its last part starts one.\<close>

lemma line_prefix:
  assumes "newline \<notin> set p" and "newline \<in> set q"
  shows "\<exists>l r. p @ q = l @ newline # r \<and> newline \<notin> set l \<and> l \<in> set (complete_lines (p @ q)) \<and> length p \<le> length l"
proof -
  obtain u r where "q = u @ newline # r" "newline \<notin> set u" using assms(2) by (meson split_list_first)
  then have "p @ q = (p @ u) @ newline # r" "newline \<notin> set (p @ u)" using assms(1) by simp_all
  moreover then have "p @ u \<in> set (complete_lines (p @ q))" using complete_lines_Cons(1) [of "p @ u" r] by simp
  ultimately show ?thesis by (metis length_append le_add1)
qed

lemma grep_file:
  assumes "0 \<notin> set (pending @ c)" and "newline \<notin> set pending" and "length pending < 1023"
    and "\<forall>l\<in>set (complete_lines (pending @ c)). length l < 1023"
  shows "grep pattern pending [c] = map (\<lambda>l. l @ [newline]) (filter (match pattern) (complete_lines (pending @ c)))"
  using assms
proof (induction "length c" arbitrary: pending c rule: less_induct)
  case less
  let ?n = "1023 - length pending"
  let ?buf = "pending @ take ?n c" and ?more = "drop ?n c"
  show ?case
  proof (cases "c = []")
    case True
    then show ?thesis using less.prems(2) by (simp add: complete_lines_Cons grep.simps(2))
  next
    case False
    then have tk: "take ?n c \<noteq> []" using less.prems(3) by simp
    have nul: "0 \<notin> set ?buf" using less.prems(1) by (auto dest: in_set_takeD)
    have all: "pending @ c = ?buf @ ?more" by simp
    note lines = complete_lines_append [of ?buf ?more, folded all]
    let ?keep = "if newline \<in> set ?buf then last_part ?buf else []"
    have step: "grep pattern pending [c] = map (\<lambda>l. l @ [newline]) (filter (match pattern) (complete_lines ?buf)) @
        grep pattern ?keep (if ?more = [] then [] else [?more])"
      using grep_step [OF nul tk] by (simp add: Let_def)
    have rest: "grep pattern ?keep (if ?more = [] then [] else [?more]) =
        map (\<lambda>l. l @ [newline]) (filter (match pattern) (complete_lines (last_part ?buf @ ?more)))"
    proof (cases "?more = []")
      case True
      then show ?thesis using last_part_simps(3) [of ?buf] by (simp add: complete_lines_Cons)
    next
      case more: False
      have len: "length ?more < length c" "length ?buf = 1023" using more tk by auto
      show ?thesis
      proof (cases "newline \<in> set ?buf")
        case True
        then obtain l q where lq: "?buf = l @ newline # q" by (meson split_list)
        then have "length (last_part ?buf) < 1023" using last_part_simps(2) [of l q] last_part_simps(5) [of q] len(2) by simp
        moreover have "0 \<notin> set (last_part ?buf @ ?more)" using less.prems(1) nul last_part_simps(4) [of ?buf] by (auto dest: in_set_dropD)
        moreover have "\<forall>l\<in>set (complete_lines (last_part ?buf @ ?more)). length l < 1023" using less.prems(4) lines by simp
        ultimately show ?thesis using True more less.hyps [OF len(1)] last_part_simps(3) by simp
      next
        case False
        have "newline \<notin> set ?more"
        proof
          assume "newline \<in> set ?more"
          from line_prefix [OF False this] obtain l where "l \<in> set (complete_lines (pending @ c))" "length ?buf \<le> length l" unfolding all [symmetric] by blast
          then show False using less.prems(4) len(2) by auto
        qed
        moreover from this have "grep pattern [] [?more] = []"
          using less.hyps [OF len(1), of "[]"] less.prems(1) by (auto simp: complete_lines_Cons dest: in_set_dropD)
        moreover have "complete_lines (last_part ?buf @ ?more) = []"
          unfolding last_part_simps(1) [OF False] by (rule complete_lines_Cons(2)) (use False calculation in \<open>simp del: append_assoc append_take_drop_id\<close>)
        ultimately show ?thesis using False more by (simp del: append_assoc append_take_drop_id)
      qed
    qed
    show ?thesis unfolding step rest lines by simp
  qed
qed

text \<open>
  C35. What \<^verbatim>\<open>grep\<close> prints of an input without NUL bytes: exactly its complete lines that the pattern
  matches, in order, if the input is a file, of any length and read in pieces as large as the buffer has room
  for, whose lines have less than 1023 bytes; or if it comes from a pipe or the console in reads of at
  most 512 bytes (the size of a pipe) that each have a line end. In general that is wrong: when a
  read leaves no line end in the buffer, \<^verbatim>\<open>grep\<close> forgets the bytes, and prints what it would
  print if they had not been there.
\<close>

theorem grep_prints_matching_lines:
  assumes "0 \<notin> set (concat input)"
    and "(\<exists>content. input = [content] \<and> (\<forall>l\<in>set (complete_lines content). length l < 1023)) \<or>
      (\<forall>c\<in>set input. newline \<in> set c \<and> length c \<le> 512)"
  shows "grep pattern [] input = map (\<lambda>l. l @ [newline]) (filter (match pattern) (complete_lines (concat input))) \<and>
    (\<forall>pending c. 0 \<notin> set (pending @ c) \<and> newline \<notin> set (pending @ c) \<and> c \<noteq> [] \<and> length (pending @ c) \<le> 1023 \<longrightarrow>
       grep pattern pending (c # input) = grep pattern [] input)"
proof (intro conjI allI impI)
  show "grep pattern [] input = map (\<lambda>l. l @ [newline]) (filter (match pattern) (complete_lines (concat input)))"
    using assms(2)
  proof
    assume "\<exists>content. input = [content] \<and> (\<forall>l\<in>set (complete_lines content). length l < 1023)"
    then show ?thesis using grep_file [of "[]"] assms(1) by auto
  next
    assume "\<forall>c\<in>set input. newline \<in> set c \<and> length c \<le> 512"
    then show ?thesis using grep_run [of input "[]"] assms(1) by auto
  qed
  fix pending c
  assume p: "0 \<notin> set (pending @ c) \<and> newline \<notin> set (pending @ c) \<and> c \<noteq> [] \<and> length (pending @ c) \<le> 1023"
  then have "take (1023 - length pending) c = c" "drop (1023 - length pending) c = []" by auto
  with p show "grep pattern pending (c # input) = grep pattern [] input"
    using grep_step [of pending c pattern input] complete_lines_Cons(2) [of "pending @ c"] by (simp add: Let_def)
qed

theorem grep_prints_matching_lines_witness:
  "grep (bytes_of ''b.d'') [] [bytes_of ''abcd'' @ [newline] @ bytes_of ''xb'', bytes_of ''yz'' @ [newline] @ bytes_of ''bzd'' @ [newline]] =
     [bytes_of ''abcd'' @ [newline], bytes_of ''bzd'' @ [newline]] \<and>
   grep (bytes_of ''abc'') [] [bytes_of ''ab'', bytes_of ''c'' @ [newline]] = []"
proof
  let ?input = "[bytes_of ''abcd'' @ [newline] @ bytes_of ''xb'', bytes_of ''yz'' @ [newline] @ bytes_of ''bzd'' @ [newline]]"
  have "0 \<notin> set (concat ?input)" "\<forall>c\<in>set ?input. newline \<in> set c \<and> length c \<le> 512" by code_simp+
  moreover have "filter (match (bytes_of ''b.d'')) (complete_lines (concat ?input)) = [bytes_of ''abcd'', bytes_of ''bzd'']" by code_simp
  ultimately show "grep (bytes_of ''b.d'') [] ?input = [bytes_of ''abcd'' @ [newline], bytes_of ''bzd'' @ [newline]]"
    using grep_prints_matching_lines [of ?input "bytes_of ''b.d''"] by simp
  let ?c = "bytes_of ''c'' @ [newline]"
  have "0 \<notin> set (concat [?c])" "\<forall>c\<in>set [?c]. newline \<in> set c \<and> length c \<le> 512" "filter (match (bytes_of ''abc'')) (complete_lines (concat [?c])) = []"
    "0 \<notin> set ([] @ bytes_of ''ab'') \<and> newline \<notin> set ([] @ bytes_of ''ab'') \<and> bytes_of ''ab'' \<noteq> [] \<and> length ([] @ bytes_of ''ab'') \<le> 1023"
    by code_simp+
  then show "grep (bytes_of ''abc'') [] [bytes_of ''ab'', ?c] = []"
    using grep_prints_matching_lines [of "[?c]" "bytes_of ''abc''"] by (metis list.simps(8))
qed

end
