(* ===== verification/Sh.thy ===== *)
theory Sh
  imports Cstring Fcntl "HOL-Library.Sublist"
begin

section \<open>The shell (sh.c)\<close>

text \<open>
  The line to be parsed is a C string, a list of bytes without the terminator. While the parser
  runs, the string is not changed, so a pointer into it is the list of the bytes from there to \<^verbatim>\<open>es\<close>,
  its end. The commands hold pointers as their distance from \<^verbatim>\<open>es\<close>: the trees are the same datatype for
  the parser, whose arguments are pairs of such pointers, and for the reader, whose arguments are the
  strings. \<^verbatim>\<open>malloc\<close> is taken to succeed. The outcome \<open>Panic\<close> is the shell's own \<^verbatim>\<open>panic\<close>, which prints the
  message and exits.
\<close>

datatype 'p cmd = Exec "'p list" | Redir "'p cmd" 'p uint int | Pipe "'p cmd" "'p cmd" | List "'p cmd" "'p cmd" | Back "'p cmd"

type_synonym span = "nat \<times> nat"

definition MAXARGS :: nat where "MAXARGS = 10"

definition whitespace :: "uchar list" where "whitespace = [32, 9, 13, 10, 11]"
definition symbols :: "uchar list" where "symbols = bytes_of ''<|>&;()''"

abbreviation "ch c \<equiv> (of_char c :: uchar)"

definition skip_white :: "uchar list \<Rightarrow> uchar list" where
  "skip_white s = dropWhile (\<lambda>c. c \<in> set whitespace) s"

definition is_word :: "uchar \<Rightarrow> bool" where
  "is_word c \<longleftrightarrow> c \<notin> set whitespace \<and> c \<notin> set symbols"

text \<open>The \<^verbatim>\<open>switch\<close> of \<^verbatim>\<open>gettoken\<close>: the token and the pointer behind it.\<close>

definition scan_token :: "uchar list \<Rightarrow> uchar \<times> uchar list" where
  "scan_token s =
     (case s of
        [] \<Rightarrow> (0, [])
      | c # t \<Rightarrow>
          if c \<in> set (bytes_of ''|();&<'') then (c, t)
          else if c = ch (CHR ''>'') then (if t \<noteq> [] \<and> hd t = ch (CHR ''>'') then (ch (CHR ''+''), tl t) else (c, t))
          else (ch (CHR ''a''), dropWhile is_word s))"

text \<open>The result is the token, the pointers \<^verbatim>\<open>q\<close> and \<^verbatim>\<open>eq\<close>, and the new \<^verbatim>\<open>*ps\<close>.\<close>

definition gettoken :: "uchar list \<Rightarrow> uchar \<times> span \<times> uchar list" where
  "gettoken ps =
     (let q = skip_white ps; (ret, eq) = scan_token q in (ret, (length q, length eq), skip_white eq))"

definition peek :: "uchar list \<Rightarrow> uchar list \<Rightarrow> bool \<times> uchar list" where
  "peek ps toks = (let s = skip_white ps in (s \<noteq> [] \<and> hd s \<in> set toks, s))"

lemma skip_white_le: "length (skip_white s) \<le> length s"
  unfolding skip_white_def by (rule length_dropWhile_le)

lemma skip_white_idem [simp]: "skip_white (skip_white s) = skip_white s"
  by (simp add: skip_white_def)

lemma skip_white_head: "skip_white s = c # t \<Longrightarrow> c \<notin> set whitespace"
  unfolding skip_white_def by (metis dropWhile_eq_Cons_conv)

lemma scan_token_less:
  assumes "scan_token s = (tok, t)" and "s = c # u" and "c \<notin> set whitespace"
  shows "length t < length s"
proof -
  have le: "length (dropWhile is_word u) \<le> length u" by (rule length_dropWhile_le)
  have "is_word c \<or> c \<in> set (bytes_of ''|();&<'') \<or> c = ch (CHR ''>'')" using assms(3) by (auto simp: is_word_def symbols_def bytes_of_def)
  then show ?thesis using assms le by (auto simp: scan_token_def le_imp_less_Suc split: if_splits)
qed

lemma gettoken_less:
  assumes "gettoken s = (tok, q, s')"
  shows "length s' \<le> length s" and "skip_white s \<noteq> [] \<Longrightarrow> length s' < length s" and "tok \<noteq> 0 \<Longrightarrow> length s' < length s"
proof -
  obtain tok' t where t: "scan_token (skip_white s) = (tok', t)" by fastforce
  then have g: "tok = tok'" "s' = skip_white t" using assms by (simp_all add: gettoken_def Let_def)
  have nil: "tok' = 0" "t = []" if "skip_white s = []" using t that by (simp_all add: scan_token_def)
  have less: "length s' < length s" if "skip_white s \<noteq> []"
  proof -
    obtain c u where c: "skip_white s = c # u" using \<open>skip_white s \<noteq> []\<close> by (meson neq_Nil_conv)
    have "length t < length (skip_white s)" by (rule scan_token_less [OF t c skip_white_head [OF c]])
    then show ?thesis using skip_white_le [of t] skip_white_le [of s] g(2) by simp
  qed
  then show "skip_white s \<noteq> [] \<Longrightarrow> length s' < length s" "tok \<noteq> 0 \<Longrightarrow> length s' < length s" using nil(1) g(1) by blast+
  show "length s' \<le> length s" using less nil(2) g(2) skip_white_le [of "[]"] by (cases "skip_white s = []") auto
qed

lemma peek_less:
  assumes "peek s toks = (b, s')"
  shows "length s' \<le> length s" and "b \<Longrightarrow> gettoken s' = (tok, q, t) \<Longrightarrow> length t < length s"
proof -
  have s': "s' = skip_white s" "b \<Longrightarrow> s' \<noteq> []" using assms by (auto simp: peek_def Let_def)
  then show "length s' \<le> length s" using skip_white_le by simp
  then show "length t < length s" if "b" "gettoken s' = (tok, q, t)" using gettoken_less(2) [OF that(2)] s' that(1) by simp
qed

lemma redirs_less:
  assumes "(True, s) = peek ps toks" and "(tok, q, s1) = gettoken s" and "(tok2, q2, s2) = gettoken s1"
  shows "length s2 < length ps"
  using peek_less(2) [OF assms(1) [symmetric] TrueI assms(2) [symmetric]] gettoken_less(1) [OF assms(3) [symmetric]] by simp

text \<open>The parsing functions return a command and the new \<^verbatim>\<open>*ps\<close>.\<close>

function parseredirs :: "span cmd \<Rightarrow> uchar list \<Rightarrow> (span cmd \<times> uchar list) res" where
  "parseredirs c ps =
     (case peek ps (bytes_of ''<>'') of (more, ps) \<Rightarrow>
      if \<not> more then Ok (c, ps)
      else
        case gettoken ps of (tok, _, ps1) \<Rightarrow>
        case gettoken ps1 of (tok2, q, ps2) \<Rightarrow>
        if tok2 \<noteq> ch (CHR ''a'') then Panic ''missing file for redirection''
        else parseredirs
          (if tok = ch (CHR ''<'') then Redir c q O_RDONLY 0
           else if tok = ch (CHR ''>'') then Redir c q (O_WRONLY OR O_CREATE) 1
           else if tok = ch (CHR ''+'') then Redir c q (O_WRONLY OR O_CREATE) 1
           else c) ps2)"
  by auto

termination by (relation "measure (\<lambda>(c, ps). length ps)") (auto intro: redirs_less)

declare parseredirs.simps [simp del]

lemma parseredirs_le: "parseredirs c ps = Ok (c', ps') \<Longrightarrow> length ps' \<le> length ps"
proof (induction "length ps" arbitrary: c ps rule: less_induct)
  case (less ps)
  obtain more s where p: "peek ps (bytes_of ''<>'') = (more, s)" by fastforce
  obtain tok q1 s1 where g1: "gettoken s = (tok, q1, s1)" by (metis prod_cases3)
  obtain tok2 q s2 where g2: "gettoken s1 = (tok2, q, s2)" by (metis prod_cases3)
  have step: "parseredirs c ps = (if \<not> more then Ok (c, s) else if tok2 \<noteq> ch (CHR ''a'') then Panic ''missing file for redirection''
      else parseredirs (if tok = ch (CHR ''<'') then Redir c q O_RDONLY 0 else if tok = ch (CHR ''>'') then Redir c q (O_WRONLY OR O_CREATE) 1
        else if tok = ch (CHR ''+'') then Redir c q (O_WRONLY OR O_CREATE) 1 else c) s2)"
    unfolding parseredirs.simps [of c ps] p prod.case g1 g2 by (rule refl)
  show ?case
  proof (cases more)
    case False
    then show ?thesis using less.prems peek_less(1) [OF p] unfolding step by simp
  next
    case True
    have lt: "length s2 < length ps" using redirs_less [of s ps _ tok q1 s1 tok2 q s2] True p g1 g2 by metis
    show ?thesis using less.prems less.hyps [OF lt] lt True unfolding step by (fastforce split: if_split_asm)
  qed
qed

text \<open>Storing an argument through the pointer \<^verbatim>\<open>cmd\<close> to the \<^verbatim>\<open>execcmd\<close> inside \<^verbatim>\<open>ret\<close>.\<close>

primrec add_arg :: "'p \<Rightarrow> 'p cmd \<Rightarrow> 'p cmd" where
  "add_arg a (Exec as) = Exec (as @ [a])"
| "add_arg a (Redir c f m d) = Redir (add_arg a c) f m d"
| "add_arg a (Pipe l r) = Pipe l r"
| "add_arg a (List l r) = List l r"
| "add_arg a (Back c) = Back c"

lemma args_less:
  assumes "(b, s) = peek ps toks" and "(tok, q, s1) = gettoken s" and "tok \<noteq> 0" and "parseredirs c s1 = Ok (c', s2)"
  shows "length s2 < length ps"
  using peek_less(1) [OF assms(1) [symmetric]] gettoken_less(3) [OF assms(2) [symmetric] assms(3)] parseredirs_le [OF assms(4)] by simp

text \<open>The loop of \<^verbatim>\<open>parseexec\<close>.\<close>

function parse_args :: "nat \<Rightarrow> span cmd \<Rightarrow> uchar list \<Rightarrow> (span cmd \<times> uchar list) res" where
  "parse_args argc ret ps =
     (case peek ps (bytes_of ''|)&;'') of (stop, ps) \<Rightarrow>
      if stop then Ok (ret, ps)
      else
        case gettoken ps of (tok, q, ps1) \<Rightarrow>
        if tok = 0 then Ok (ret, ps1)
        else if tok \<noteq> ch (CHR ''a'') then Panic ''syntax''
        else if argc + 1 \<ge> MAXARGS then Panic ''too many args''
        else (case parseredirs (add_arg q ret) ps1 of
            Ok (ret, ps2) \<Rightarrow> parse_args (argc + 1) ret ps2 | Panic m \<Rightarrow> Panic m | _ \<Rightarrow> Undef))"
  by auto

termination by (relation "measure (\<lambda>(argc, ret, ps). length ps)") (auto intro: args_less)

declare parse_args.simps [simp del]

lemma parse_args_le: "parse_args argc ret ps = Ok (c', ps') \<Longrightarrow> length ps' \<le> length ps"
proof (induction "length ps" arbitrary: argc ret ps rule: less_induct)
  case (less ps)
  obtain stop s where p: "peek ps (bytes_of ''|)&;'') = (stop, s)" by fastforce
  obtain tok q s1 where g: "gettoken s = (tok, q, s1)" by (metis prod_cases3)
  note le = peek_less(1) [OF p] gettoken_less(1) [OF g]
  have step: "parse_args argc ret ps = (if stop then Ok (ret, s) else if tok = 0 then Ok (ret, s1) else if tok \<noteq> ch (CHR ''a'') then Panic ''syntax''
      else if argc + 1 \<ge> MAXARGS then Panic ''too many args''
      else (case parseredirs (add_arg q ret) s1 of Ok (ret, ps2) \<Rightarrow> parse_args (argc + 1) ret ps2 | Panic m \<Rightarrow> Panic m | _ \<Rightarrow> Undef))"
    unfolding parse_args.simps [of argc ret ps] p prod.case g by (rule refl)
  show ?case
  proof (cases "stop \<or> tok = 0")
    case True
    then show ?thesis using less.prems le unfolding step by (auto split: if_split_asm)
  next
    case False
    then obtain r2 s2 where r: "parseredirs (add_arg q ret) s1 = Ok (r2, s2)" "parse_args (argc + 1) r2 s2 = Ok (c', ps')"
      using less.prems unfolding step by (auto split: if_split_asm res.splits)
    have "length s2 < length ps" using args_less [OF p [symmetric] g [symmetric] _ r(1)] False by simp
    then show ?thesis using less.hyps r(2) by fastforce
  qed
qed

function parse_backs :: "span cmd \<Rightarrow> uchar list \<Rightarrow> span cmd \<times> uchar list" where
  "parse_backs c ps =
     (case peek ps (bytes_of ''&'') of (more, ps) \<Rightarrow>
      if \<not> more then (c, ps) else case gettoken ps of (_, _, ps) \<Rightarrow> parse_backs (Back c) ps)"
  by auto

termination by (relation "measure (\<lambda>(c, ps). length ps)") (auto intro: peek_less(2) [OF sym _ sym])

declare parse_backs.simps [simp del]

lemma parse_backs_le: "parse_backs c ps = (c', ps') \<Longrightarrow> length ps' \<le> length ps"
proof (induction "length ps" arbitrary: c ps rule: less_induct)
  case (less ps)
  obtain more s where p: "peek ps (bytes_of ''&'') = (more, s)" by fastforce
  obtain tok q s1 where g: "gettoken s = (tok, q, s1)" by (metis prod_cases3)
  have step: "parse_backs c ps = (if \<not> more then (c, s) else parse_backs (Back c) s1)"
    unfolding parse_backs.simps [of c ps] p prod.case g by (rule refl)
  show ?case
  proof (cases more)
    case True
    then have "length s1 < length ps" using peek_less(2) [OF p _ g] by simp
    then show ?thesis using less step True by fastforce
  qed (use less.prems step peek_less(1) [OF p] in simp)
qed

text \<open>The functions that call each other count the depth of the calls; running out of it is \<open>Diverge\<close>.\<close>

fun parseline :: "nat \<Rightarrow> uchar list \<Rightarrow> (span cmd \<times> uchar list) res"
  and parsepipe :: "nat \<Rightarrow> uchar list \<Rightarrow> (span cmd \<times> uchar list) res"
  and parseblock :: "nat \<Rightarrow> uchar list \<Rightarrow> (span cmd \<times> uchar list) res"
  and parseexec :: "nat \<Rightarrow> uchar list \<Rightarrow> (span cmd \<times> uchar list) res" where
  "parseline 0 ps = Diverge"
| "parseline (Suc n) ps =
     rbind (parsepipe n ps) (\<lambda>(c, ps).
     case parse_backs c ps of (c, ps) \<Rightarrow>
     case peek ps (bytes_of '';'') of (semi, ps) \<Rightarrow>
     if semi then
       case gettoken ps of (_, _, ps) \<Rightarrow>
       rbind (parseline n ps) (\<lambda>(d, ps). Ok (List c d, ps))
     else Ok (c, ps))"
| "parsepipe 0 ps = Diverge"
| "parsepipe (Suc n) ps =
     rbind (parseexec n ps) (\<lambda>(c, ps).
     case peek ps (bytes_of ''|'') of (bar, ps) \<Rightarrow>
     if bar then
       case gettoken ps of (_, _, ps) \<Rightarrow>
       rbind (parsepipe n ps) (\<lambda>(d, ps). Ok (Pipe c d, ps))
     else Ok (c, ps))"
| "parseblock 0 ps = Diverge"
| "parseblock (Suc n) ps =
     (case peek ps (bytes_of ''('') of (opn, ps) \<Rightarrow>
      if \<not> opn then Panic ''parseblock''
      else
        case gettoken ps of (_, _, ps) \<Rightarrow>
        rbind (parseline n ps) (\<lambda>(c, ps).
        case peek ps (bytes_of '')'') of (cls, ps) \<Rightarrow>
        if \<not> cls then Panic ''syntax - missing )''
        else case gettoken ps of (_, _, ps) \<Rightarrow> parseredirs c ps))"
| "parseexec 0 ps = Diverge"
| "parseexec (Suc n) ps =
     (case peek ps (bytes_of ''('') of (opn, ps) \<Rightarrow>
      if opn then parseblock n ps
      else rbind (parseredirs (Exec []) ps) (\<lambda>(ret, ps). parse_args 0 ret ps))"

text \<open>NUL-terminating the strings of a command in the buffer, where \<open>len\<close> is the index of \<^verbatim>\<open>es\<close>.\<close>

primrec nulterminate :: "nat \<Rightarrow> span cmd \<Rightarrow> uchar list \<Rightarrow> uchar list" where
  "nulterminate len (Exec as) buf = fold (\<lambda>a buf. buf[len - snd a := 0]) as buf"
| "nulterminate len (Redir c f m d) buf = (nulterminate len c buf)[len - snd f := 0]"
| "nulterminate len (Pipe l r) buf = nulterminate len r (nulterminate len l buf)"
| "nulterminate len (List l r) buf = nulterminate len r (nulterminate len l buf)"
| "nulterminate len (Back c) buf = nulterminate len c buf"

text \<open>The line with its terminator, parsed: the command and the buffer it points into.\<close>

definition parsecmd :: "uchar list \<Rightarrow> (span cmd \<times> uchar list) res" where
  "parsecmd s =
     rbind (parseline (4 * length s + 4) s) (\<lambda>(c, ps).
     case peek ps [] of (_, ps) \<Rightarrow>
     if ps \<noteq> [] then Panic ''syntax''
     else Ok (c, nulterminate (length s) c (s @ [0])))"

text \<open>The string that an argument points to.\<close>

definition read_arg :: "nat \<Rightarrow> uchar list \<Rightarrow> span \<Rightarrow> uchar list" where
  "read_arg len buf a = cstring (drop (len - fst a) buf)"

section \<open>The parser returns\<close>

text \<open>An outcome that is a result or an error message.\<close>

definition settled :: "'a res \<Rightarrow> bool" where
  "settled r \<longleftrightarrow> (\<exists>x. r = Ok x) \<or> (\<exists>m. r = Panic m)"

lemma settled_simps [simp]: "settled (Ok x)" "settled (Panic m)"
  by (simp_all add: settled_def)

lemma settled_rbind: "settled r \<Longrightarrow> (\<And>x. r = Ok x \<Longrightarrow> settled (f x)) \<Longrightarrow> settled (rbind r f)"
  by (auto simp: settled_def)

lemma parseredirs_settled: "settled (parseredirs c ps)"
proof (induction c ps rule: parseredirs.induct)
  case (1 c ps)
  then show ?case by (subst parseredirs.simps) (auto split: prod.splits)
qed

lemma parse_args_settled: "settled (parse_args argc ret ps)"
proof (induction argc ret ps rule: parse_args.induct)
  case (1 argc ret ps)
  have "settled (case parseredirs c s of Ok (ret, ps2) \<Rightarrow> parse_args (argc + 1) ret ps2 | Panic m \<Rightarrow> Panic m | _ \<Rightarrow> Undef)"
    if "\<And>ret ps2. parseredirs c s = Ok (ret, ps2) \<Longrightarrow> settled (parse_args (argc + 1) ret ps2)" for c s
    using parseredirs_settled [of c s] that by (auto simp: settled_def)
  with 1 show ?case by (subst parse_args.simps) (auto split: prod.splits)
qed

subsection \<open>Words and well-formed commands\<close>

text \<open>\<open>a\<close> is the maximal word \<open>w\<close> of the line \<open>s\<close>.\<close>

definition denotes :: "uchar list \<Rightarrow> span \<Rightarrow> uchar list \<Rightarrow> bool" where
  "denotes s a w \<longleftrightarrow> w \<noteq> [] \<and> (\<forall>c\<in>set w. is_word c) \<and>
     (\<exists>pre post. s = pre @ w @ post \<and> (post = [] \<or> \<not> is_word (hd post)) \<and> a = (length (w @ post), length post))"

primrec wf_cmd :: "('p \<Rightarrow> bool) \<Rightarrow> 'p cmd \<Rightarrow> bool" where
  "wf_cmd G (Exec as) \<longleftrightarrow> length as < MAXARGS \<and> (\<forall>a\<in>set as. G a)"
| "wf_cmd G (Redir c f m d) \<longleftrightarrow> wf_cmd G c \<and> G f \<and> (m = O_RDONLY \<and> d = 0 \<or> m = O_WRONLY OR O_CREATE \<and> d = 1)"
| "wf_cmd G (Pipe l r) \<longleftrightarrow> wf_cmd G l \<and> wf_cmd G r"
| "wf_cmd G (List l r) \<longleftrightarrow> wf_cmd G l \<and> wf_cmd G r"
| "wf_cmd G (Back c) \<longleftrightarrow> wf_cmd G c"

text \<open>A chain of redirections around a simple command with \<open>n\<close> arguments.\<close>

fun chain :: "nat \<Rightarrow> 'p cmd \<Rightarrow> bool" where
  "chain n (Exec as) \<longleftrightarrow> length as = n"
| "chain n (Redir c f m d) \<longleftrightarrow> chain n c"
| "chain n c \<longleftrightarrow> False"

lemma suffix_skip_white [simp]: "suffix (skip_white s) s"
  by (simp add: skip_white_def suffix_dropWhile)

lemma suffix_scan: "scan_token s = (tok, t) \<Longrightarrow> suffix t s"
  by (auto simp: scan_token_def suffix_dropWhile suffix_ConsI suffix_tl split: list.splits if_splits intro: suffix_order.trans)

lemma suffix_gettoken: "gettoken s = (tok, q, t) \<Longrightarrow> suffix t s"
  unfolding gettoken_def Let_def
  by (auto split: prod.splits) (metis suffix_order.trans suffix_scan suffix_skip_white)

lemma suffix_peek: "peek s toks = (b, t) \<Longrightarrow> suffix t s"
  by (auto simp: peek_def Let_def)

lemma gettoken_word:
  assumes "gettoken s = (ch (CHR ''a''), a, t)"
  shows "\<exists>w. denotes s a w"
proof -
  let ?q = "skip_white s"
  obtain e where e: "scan_token ?q = (ch (CHR ''a''), e)" "a = (length ?q, length e)"
    using assms by (auto simp: gettoken_def Let_def split: prod.splits)
  obtain c u where c: "?q = c # u" using e(1) by (cases ?q) (auto simp: scan_token_def)
  have word: "e = dropWhile is_word ?q" and "c \<notin> set (bytes_of ''|();&<'')" "c \<noteq> ch (CHR ''>'')"
    using e(1) c by (auto simp: scan_token_def bytes_of_def split: if_splits)
  then have wc: "is_word c" using skip_white_head [OF c] by (auto simp: is_word_def symbols_def bytes_of_def)
  let ?w = "takeWhile is_word ?q"
  have "?w \<noteq> []" "\<forall>c\<in>set ?w. is_word c" using wc c by (auto dest: set_takeWhileD)
  moreover have qe: "?q = ?w @ e" unfolding word by simp
  moreover obtain pre where "s = pre @ ?q" using suffix_skip_white unfolding suffix_def by blast
  moreover have "e = [] \<or> \<not> is_word (hd e)" unfolding word using hd_dropWhile by blast
  ultimately have "denotes s a ?w" unfolding denotes_def e(2) by (metis append.assoc)
  then show ?thesis by blast
qed

lemma denotes_suffix: "suffix t s \<Longrightarrow> denotes t a w \<Longrightarrow> denotes s a w"
  unfolding suffix_def denotes_def by (metis append.assoc)

abbreviation "word_in s \<equiv> (\<lambda>a. \<exists>w. denotes s a w)"

lemma parseredirs_sound:
  "parseredirs c ps = Ok (c', ps') \<Longrightarrow> suffix ps s \<Longrightarrow> wf_cmd (word_in s) c \<Longrightarrow>
   suffix ps' ps \<and> wf_cmd (word_in s) c' \<and> (chain n c \<longrightarrow> chain n c')"
proof (induction c ps arbitrary: c' ps' rule: parseredirs.induct)
  case (1 c ps)
  obtain more u where p: "peek ps (bytes_of ''<>'') = (more, u)" by fastforce
  obtain tok q1 u1 where g1: "gettoken u = (tok, q1, u1)" by (metis prod_cases3)
  obtain tok2 q u2 where g2: "gettoken u1 = (tok2, q, u2)" by (metis prod_cases3)
  let ?d = "if tok = ch (CHR ''<'') then Redir c q O_RDONLY 0 else if tok = ch (CHR ''>'') then Redir c q (O_WRONLY OR O_CREATE) 1
        else if tok = ch (CHR ''+'') then Redir c q (O_WRONLY OR O_CREATE) 1 else c"
  have step: "parseredirs c ps = (if \<not> more then Ok (c, u) else if tok2 \<noteq> ch (CHR ''a'') then Panic ''missing file for redirection'' else parseredirs ?d u2)"
    unfolding parseredirs.simps [of c ps] p prod.case g1 g2 by (rule refl)
  have su: "suffix u2 ps" "suffix u1 ps" using suffix_peek [OF p] suffix_gettoken [OF g1] suffix_gettoken [OF g2] by (auto intro: suffix_order.trans)
  show ?case
  proof (cases more)
    case False
    then show ?thesis using 1(2-4) suffix_peek [OF p] unfolding step by simp
  next
    case True
    then have a: "tok2 = ch (CHR ''a'')" and rec: "parseredirs ?d u2 = Ok (c', ps')" using 1(2) unfolding step by (auto split: if_split_asm)
    have "word_in s q" using gettoken_word [of u1 q u2] g2 a denotes_suffix [of u1 s q] su(2) 1(3) by (meson suffix_order.trans)
    then have wf: "wf_cmd (word_in s) ?d" "chain n c \<longrightarrow> chain n ?d" using 1(4) by auto
    have "suffix u2 s" using su(1) 1(3) by (rule suffix_order.trans)
    from "1.IH" [OF p [symmetric] _ g1 [symmetric] _ g2 [symmetric] _ _ rec this wf(1)] True a wf(2) su(1) show ?thesis
      by (auto intro: suffix_order.trans)
  qed
qed

lemma add_arg_wf:
  "wf_cmd G c \<Longrightarrow> chain n c \<Longrightarrow> Suc n < MAXARGS \<Longrightarrow> G a \<Longrightarrow> wf_cmd G (add_arg a c) \<and> chain (Suc n) (add_arg a c)"
  by (induction c) auto

lemma parse_args_sound:
  "parse_args argc ret ps = Ok (c', ps') \<Longrightarrow> suffix ps s \<Longrightarrow> wf_cmd (word_in s) ret \<Longrightarrow> chain argc ret \<Longrightarrow>
   suffix ps' ps \<and> wf_cmd (word_in s) c'"
proof (induction "length ps" arbitrary: argc ret ps rule: less_induct)
  case (less ps)
  obtain stop u where p: "peek ps (bytes_of ''|)&;'') = (stop, u)" by fastforce
  obtain tok q u1 where g: "gettoken u = (tok, q, u1)" by (metis prod_cases3)
  have step: "parse_args argc ret ps = (if stop then Ok (ret, u) else if tok = 0 then Ok (ret, u1) else if tok \<noteq> ch (CHR ''a'') then Panic ''syntax''
      else if argc + 1 \<ge> MAXARGS then Panic ''too many args''
      else (case parseredirs (add_arg q ret) u1 of Ok (ret, ps2) \<Rightarrow> parse_args (argc + 1) ret ps2 | Panic m \<Rightarrow> Panic m | _ \<Rightarrow> Undef))"
    unfolding parse_args.simps [of argc ret ps] p prod.case g by (rule refl)
  have su: "suffix u ps" "suffix u1 ps" using suffix_peek [OF p] suffix_gettoken [OF g] by (auto intro: suffix_order.trans)
  then have ss: "suffix u s" "suffix u1 s" using less.prems(2) by (auto intro: suffix_order.trans)
  show ?case
  proof (cases "stop \<or> tok = 0")
    case True
    then show ?thesis using less.prems su unfolding step by (auto split: if_split_asm)
  next
    case False
    then obtain r2 u2 where r: "tok = ch (CHR ''a'')" "argc + 1 < MAXARGS" "parseredirs (add_arg q ret) u1 = Ok (r2, u2)" "parse_args (argc + 1) r2 u2 = Ok (c', ps')"
      using less.prems(1) unfolding step by (auto split: if_split_asm res.splits)
    have "word_in s q" using gettoken_word [of u q u1] g r(1) denotes_suffix [OF ss(1)] by blast
    then have aw: "wf_cmd (word_in s) (add_arg q ret)" "chain (argc + 1) (add_arg q ret)" using add_arg_wf [OF less.prems(3,4)] r(2) by auto
    have w2: "suffix u2 u1" "wf_cmd (word_in s) r2" "chain (argc + 1) r2" using parseredirs_sound [OF r(3) ss(2) aw(1), of "argc + 1"] aw(2) by auto
    have "length u2 < length ps" using args_less [OF p [symmetric] g [symmetric] _ r(3)] False by simp
    from less.hyps [OF this r(4) _ w2(2,3)] w2(1) ss(2) su(2) show ?thesis by (meson suffix_order.trans)
  qed
qed

lemma parse_backs_sound:
  "parse_backs c ps = (c', ps') \<Longrightarrow> wf_cmd G c \<Longrightarrow> suffix ps' ps \<and> wf_cmd G c'"
proof (induction "length ps" arbitrary: c ps rule: less_induct)
  case (less ps)
  obtain more u where p: "peek ps (bytes_of ''&'') = (more, u)" by fastforce
  obtain tok q u1 where g: "gettoken u = (tok, q, u1)" by (metis prod_cases3)
  have step: "parse_backs c ps = (if \<not> more then (c, u) else parse_backs (Back c) u1)"
    unfolding parse_backs.simps [of c ps] p prod.case g by (rule refl)
  have su: "suffix u ps" "suffix u1 ps" using suffix_peek [OF p] suffix_gettoken [OF g] by (auto intro: suffix_order.trans)
  show ?case
  proof (cases more)
    case True
    then have "length u1 < length ps" using peek_less(2) [OF p _ g] by simp
    then show ?thesis using less.hyps [of u1 "Back c"] less.prems step True su(2) by (auto intro: suffix_order.trans)
  qed (use less.prems step su in simp)
qed

text \<open>What a parsing function that starts at \<open>ps\<close> leaves, and that it returns if \<open>b\<close>.\<close>

definition parses :: "bool \<Rightarrow> uchar list \<Rightarrow> uchar list \<Rightarrow> (span cmd \<times> uchar list) res \<Rightarrow> bool" where
  "parses b s ps r \<longleftrightarrow> (\<forall>c ps'. r = Ok (c, ps') \<longrightarrow> suffix ps' ps \<and> wf_cmd (word_in s) c) \<and> (b \<longrightarrow> settled r)"

lemma parses_simps [simp]: "parses b s ps (Panic m)" "parses b s ps Diverge \<longleftrightarrow> \<not> b" "parses b s ps (Ok (c, ps')) \<longleftrightarrow> suffix ps' ps \<and> wf_cmd (word_in s) c"
  by (auto simp: parses_def settled_def)

lemma parses_rbind:
  assumes "parses b s ps r" and "\<And>c ps'. suffix ps' ps \<Longrightarrow> wf_cmd (word_in s) c \<Longrightarrow> parses b s ps (f (c, ps'))"
  shows "parses b s ps (rbind r f)"
proof (cases r)
  case (Ok x)
  obtain c ps' where x: "x = (c, ps')" by fastforce
  then have "suffix ps' ps" "wf_cmd (word_in s) c" using assms(1) Ok by simp_all
  then show ?thesis using assms(2) Ok x by simp
qed (use assms(1) in \<open>simp_all add: parses_def settled_def\<close>)

lemma parses_weaken: "parses b' s ps' r \<Longrightarrow> suffix ps' ps \<Longrightarrow> (b \<Longrightarrow> b') \<Longrightarrow> parses b s ps r"
  by (auto simp: parses_def intro: suffix_order.trans)

text \<open>The next token after a successful \<^verbatim>\<open>peek\<close> is behind it.\<close>

lemma peek_token:
  assumes "peek ps toks = (b, u)" and "gettoken u = (tok, q, u1)"
  shows "suffix u ps" and "suffix u1 ps" and "b \<Longrightarrow> length u1 < length ps"
  using suffix_peek [OF assms(1)] suffix_gettoken [OF assms(2)] peek_less(2) [OF assms(1) _ assms(2)] by (auto intro: suffix_order.trans)

lemma pipe_rest:
  assumes IH: "\<And>u. suffix u s \<Longrightarrow> parses (4 * length u + 3 \<le> n) s u (parsepipe n u)"
    and ps: "suffix ps1 ps" "suffix ps s" and c: "wf_cmd (word_in s) c"
  shows "parses (4 * length ps + 3 \<le> Suc n) s ps
    (case peek ps1 (bytes_of ''|'') of (bar, ps) \<Rightarrow>
     if bar then case gettoken ps of (_, _, ps) \<Rightarrow> rbind (parsepipe n ps) (\<lambda>(d, ps). Ok (Pipe c d, ps)) else Ok (c, ps))"
proof -
  obtain bar u where p: "peek ps1 (bytes_of ''|'') = (bar, u)" by fastforce
  obtain tok q u1 where g: "gettoken u = (tok, q, u1)" by (metis prod_cases3)
  note t = peek_token [OF p g]
  have su: "suffix u ps" "suffix u1 ps" using t(1,2) ps(1) by (auto intro: suffix_order.trans)
  have "suffix u1 s" using su(2) ps(2) by (rule suffix_order.trans)
  then have "parses (4 * length u1 + 3 \<le> n) s u1 (rbind (parsepipe n u1) (\<lambda>(d, ps). Ok (Pipe c d, ps)))"
    by (intro parses_rbind [OF IH]) (use c in simp_all)
  then have "parses (4 * length ps + 3 \<le> Suc n) s ps (rbind (parsepipe n u1) (\<lambda>(d, ps). Ok (Pipe c d, ps)))" if bar
    using parses_weaken [OF _ su(2)] t(3) [OF that] suffix_length_le [OF ps(1)] by simp
  then show ?thesis using p g su c by simp
qed

lemma line_rest:
  assumes IH: "\<And>u. suffix u s \<Longrightarrow> parses (4 * length u + 4 \<le> n) s u (parseline n u)"
    and ps: "suffix ps1 ps" "suffix ps s" and c: "wf_cmd (word_in s) c"
  shows "parses (4 * length ps + 4 \<le> Suc n) s ps
    (case parse_backs c ps1 of (c, ps) \<Rightarrow> case peek ps (bytes_of '';'') of (semi, ps) \<Rightarrow>
     if semi then case gettoken ps of (_, _, ps) \<Rightarrow> rbind (parseline n ps) (\<lambda>(d, ps). Ok (List c d, ps)) else Ok (c, ps))"
proof -
  obtain c1 v where k: "parse_backs c ps1 = (c1, v)" by fastforce
  obtain semi u where p: "peek v (bytes_of '';'') = (semi, u)" by fastforce
  obtain tok q u1 where g: "gettoken u = (tok, q, u1)" by (metis prod_cases3)
  have b: "suffix v ps1" "wf_cmd (word_in s) c1" using parse_backs_sound [OF k c] by auto
  have v: "suffix v ps" using b(1) ps(1) by (rule suffix_order.trans)
  note t = peek_token [OF p g]
  have su: "suffix u ps" "suffix u1 ps" using t(1,2) v by (auto intro: suffix_order.trans)
  have "suffix u1 s" using su(2) ps(2) by (rule suffix_order.trans)
  then have "parses (4 * length u1 + 4 \<le> n) s u1 (rbind (parseline n u1) (\<lambda>(d, ps). Ok (List c1 d, ps)))"
    by (intro parses_rbind [OF IH]) (use b in simp_all)
  then have "parses (4 * length ps + 4 \<le> Suc n) s ps (rbind (parseline n u1) (\<lambda>(d, ps). Ok (List c1 d, ps)))" if semi
    using parses_weaken [OF _ su(2)] t(3) [OF that] suffix_length_le [OF v] by simp
  then show ?thesis using k p g su b by simp
qed

lemma block_rest:
  assumes ps: "suffix ps1 ps" "suffix ps s" and c: "wf_cmd (word_in s) c"
  shows "parses b s ps (case peek ps1 (bytes_of '')'') of (cls, ps) \<Rightarrow>
     if \<not> cls then Panic ''syntax - missing )'' else case gettoken ps of (_, _, ps) \<Rightarrow> parseredirs c ps)"
proof -
  obtain cls u where p: "peek ps1 (bytes_of '')'') = (cls, u)" by fastforce
  obtain tok q u1 where g: "gettoken u = (tok, q, u1)" by (metis prod_cases3)
  have su: "suffix u1 ps" using peek_token(2) [OF p g] ps(1) by (rule suffix_order.trans)
  have "parses b s ps (parseredirs c u1)"
    unfolding parses_def using parseredirs_sound [OF _ suffix_order.trans [OF su ps(2)] c] parseredirs_settled suffix_order.trans [OF _ su] by blast
  then show ?thesis using p g by simp
qed

lemma exec_rest:
  assumes ps: "suffix ps1 ps" "suffix ps s"
  shows "parses b s ps (rbind (parseredirs (Exec []) ps1) (\<lambda>(ret, ps). parse_args 0 ret ps))"
proof (cases "parseredirs (Exec []) ps1")
  case (Ok x)
  obtain ret u where x: "x = (ret, u)" by fastforce
  have ss: "suffix ps1 s" using ps by (rule suffix_order.trans)
  have e: "wf_cmd (word_in s) (Exec [])" "chain 0 (Exec [] :: span cmd)" by (simp_all add: MAXARGS_def)
  have r: "suffix u ps1" "wf_cmd (word_in s) ret" "chain 0 ret" using parseredirs_sound [OF Ok [unfolded x] ss e(1), of 0] e(2) by auto
  have us: "suffix u ps" "suffix u s" using r(1) ps by (auto intro: suffix_order.trans)
  have "parses b s ps (parse_args 0 ret u)"
    unfolding parses_def using parse_args_sound [OF _ us(2) r(2,3)] parse_args_settled suffix_order.trans [OF _ us(1)] by blast
  then show ?thesis using Ok x by simp
qed (use parseredirs_settled [of "Exec []" ps1] in \<open>simp_all add: settled_def\<close>)

lemma parse_parses:
  "(\<forall>ps. suffix ps s \<longrightarrow> parses (4 * length ps + 4 \<le> n) s ps (parseline n ps)) \<and>
   (\<forall>ps. suffix ps s \<longrightarrow> parses (4 * length ps + 3 \<le> n) s ps (parsepipe n ps)) \<and>
   (\<forall>ps. suffix ps s \<longrightarrow> parses (4 * length ps + 1 \<le> n) s ps (parseblock n ps)) \<and>
   (\<forall>ps. suffix ps s \<longrightarrow> parses (4 * length ps + 2 \<le> n) s ps (parseexec n ps))"
proof (induction n)
  case (Suc n)
  note IH = Suc [THEN conjunct1, rule_format] Suc [THEN conjunct2, THEN conjunct1, rule_format]
    Suc [THEN conjunct2, THEN conjunct2, THEN conjunct1, rule_format] Suc [THEN conjunct2, THEN conjunct2, THEN conjunct2, rule_format]
  show ?case
  proof (intro conjI allI impI)
    fix ps
    assume ss: "suffix ps s"
    have tr: "suffix u s" if "suffix u ps" for u using that ss by (rule suffix_order.trans)
    have "parses (4 * length ps + 3 \<le> Suc n) s ps (parseexec n ps)" by (rule parses_weaken [OF IH(4) [OF ss]]) simp_all
    then show "parses (4 * length ps + 3 \<le> Suc n) s ps (parsepipe (Suc n) ps)"
      unfolding parsepipe.simps by (rule parses_rbind, unfold prod.case) (rule pipe_rest [OF IH(2) _ ss])
    have "parses (4 * length ps + 4 \<le> Suc n) s ps (parsepipe n ps)" by (rule parses_weaken [OF IH(2) [OF ss]]) simp_all
    then show "parses (4 * length ps + 4 \<le> Suc n) s ps (parseline (Suc n) ps)"
      unfolding parseline.simps by (rule parses_rbind, unfold prod.case) (rule line_rest [OF IH(1) _ ss])
    obtain opn u where p: "peek ps (bytes_of ''('') = (opn, u)" by fastforce
    obtain tok q u1 where g: "gettoken u = (tok, q, u1)" by (metis prod_cases3)
    note t = peek_token [OF p g]
    have "parses (4 * length ps + 1 \<le> Suc n) s ps (rbind (parseline n u1) (\<lambda>(c, ps). case peek ps (bytes_of '')'') of (cls, ps) \<Rightarrow>
        if \<not> cls then Panic ''syntax - missing )'' else case gettoken ps of (_, _, ps) \<Rightarrow> parseredirs c ps))" if opn
    proof (rule parses_rbind, goal_cases)
      case 1
      show ?case by (rule parses_weaken [OF IH(1) [OF tr [OF t(2)]] t(2)]) (use t(3) [OF that] in simp)
    next
      case (2 c ps')
      then show ?case unfolding prod.case by (rule block_rest [OF _ ss])
    qed
    then show "parses (4 * length ps + 1 \<le> Suc n) s ps (parseblock (Suc n) ps)" using p g by simp
    have "parses (4 * length ps + 2 \<le> Suc n) s ps (parseblock n u)"
      by (rule parses_weaken [OF IH(3) [OF tr [OF t(1)]] t(1)]) (use suffix_length_le [OF t(1)] in simp)
    moreover have "parses (4 * length ps + 2 \<le> Suc n) s ps (rbind (parseredirs (Exec []) u) (\<lambda>(ret, ps). parse_args 0 ret ps))"
      by (rule exec_rest [OF t(1) ss])
    ultimately show "parses (4 * length ps + 2 \<le> Suc n) s ps (parseexec (Suc n) ps)" using p by simp
  qed
qed simp

subsection \<open>Terminating the strings\<close>

lemma nul_fold_nth:
  "length (fold (\<lambda>a buf. buf[len - snd a := 0]) as buf) = length buf"
  "i < length buf \<Longrightarrow> fold (\<lambda>a buf. buf[len - snd a := 0]) as buf ! i = (if \<exists>a\<in>set as. i = len - snd a then 0 else buf ! i)"
  by (induction as arbitrary: buf) (auto simp: nth_list_update)

lemma nulterminate_length [simp]: "length (nulterminate len c buf) = length buf"
  by (induction c arbitrary: buf) (simp_all add: nul_fold_nth)

lemma nulterminate_nth:
  "i < length buf \<Longrightarrow> nulterminate len c buf ! i = (if \<exists>a\<in>set_cmd c. i = len - snd a then 0 else buf ! i)"
proof (induction c arbitrary: buf)
  case (Redir c f m d)
  have "(nulterminate len c buf)[len - snd f := 0] ! i = (if i = len - snd f then 0 else nulterminate len c buf ! i)"
    using Redir.prems by (simp add: nth_list_update)
  then show ?case using Redir.IH [OF Redir.prems] by simp
qed (simp_all add: nul_fold_nth bex_Un)

lemma wf_cmd_set: "wf_cmd G c \<Longrightarrow> a \<in> set_cmd c \<Longrightarrow> G a"
  by (induction c) auto

lemma wf_cmd_mono: "wf_cmd G c \<Longrightarrow> (\<And>a. a \<in> set_cmd c \<Longrightarrow> G a \<Longrightarrow> H a) \<Longrightarrow> wf_cmd H c"
  by (induction c) auto

text \<open>The character behind a word is not inside any word.\<close>

lemma word_end_outside:
  assumes a: "denotes s a w" and b: "denotes s b v" and i: "length s - fst a \<le> i" "i < length s - snd a"
  shows "i \<noteq> length s - snd b"
proof
  assume e: "i = length s - snd b"
  obtain pre post where s: "s = pre @ w @ post" "a = (length (w @ post), length post)" "\<forall>c\<in>set w. is_word c" using a by (auto simp: denotes_def)
  obtain pre' post' where s': "s = (pre' @ v) @ post'" "post' = [] \<or> \<not> is_word (hd post')" "b = (length (v @ post'), length post')" using b by (auto simp: denotes_def)
  have "i - length pre < length w" "length pre \<le> i" using i s by auto
  then have word: "is_word (s ! i)" using s(1,3) by (simp add: nth_append)
  have "i = length (pre' @ v)" using e s'(1,3) by simp
  moreover have "i < length s" using i(2) by simp
  ultimately have "s ! i = hd post'" "post' \<noteq> []" using s'(1) by (auto simp: nth_append hd_conv_nth)
  then show False using word s'(2) by simp
qed

lemma read_arg_word:
  assumes wf: "wf_cmd (word_in s) c" and nul: "0 \<notin> set s" and a: "a \<in> set_cmd c" and w: "denotes s a w"
  shows "read_arg (length s) (nulterminate (length s) c (s @ [0])) a = w"
proof -
  let ?n = "length s" and ?b = "nulterminate (length s) c (s @ [0])"
  obtain pre post where s: "s = pre @ w @ post" "a = (length (w @ post), length post)" using w by (auto simp: denotes_def)
  have len: "length ?b = Suc ?n" by simp
  have in_word: "?b ! (length pre + j) = w ! j" if "j < length w" for j
  proof -
    have "length pre + j \<noteq> ?n - snd b" if "b \<in> set_cmd c" for b
      using word_end_outside [OF w, of b _ "length pre + j"] wf_cmd_set [OF wf that] s \<open>j < length w\<close> by auto
    then have "\<not> (\<exists>b\<in>set_cmd c. length pre + j = ?n - snd b)" by blast
    moreover have "length pre + j < length (s @ [0])" using that s(1) by simp
    ultimately have "?b ! (length pre + j) = (s @ [0]) ! (length pre + j)" using nulterminate_nth [of "length pre + j" "s @ [0]" ?n c] by presburger
    then show ?thesis using that s(1) by (simp add: nth_append)
  qed
  have "length pre + length w = ?n - snd a" using s by simp
  moreover have "length pre + length w < length (s @ [0])" using s(1) by simp
  ultimately have z: "?b ! (length pre + length w) = 0" using nulterminate_nth [of "length pre + length w" "s @ [0]" ?n c] a by metis
  have "drop (length pre) ?b = w @ 0 # drop (length pre + length w + 1) ?b"
  proof (rule nth_equalityI)
    fix j
    assume j: "j < length (drop (length pre) ?b)"
    consider "j < length w" | "j = length w" | k where "j = length w + Suc k" by (metis less_imp_Suc_add linorder_neqE_nat add_Suc_right)
    then show "drop (length pre) ?b ! j = (w @ 0 # drop (length pre + length w + 1) ?b) ! j"
    proof cases
      case 3
      then have "(w @ 0 # drop (length pre + length w + 1) ?b) ! j = drop (length pre + length w + 1) ?b ! k" by (simp add: nth_append)
      also have "\<dots> = ?b ! (length pre + length w + 1 + k)" using j 3 len by (intro nth_drop) simp
      finally show ?thesis using j 3 len by (simp add: add.assoc)
    qed (use in_word [of j] z len s(1) in \<open>simp_all add: nth_append\<close>)
  qed (use len s(1) in simp)
  moreover have "0 \<notin> set w" using nul s(1) by simp
  ultimately show ?thesis using s by (simp add: read_arg_def cstring_append)
qed

text \<open>
  C32. Every line is parsed or refused. \<^verbatim>\<open>parsecmd\<close> returns a command or stops with an error message, for
  every line; its nesting of calls is bounded by the length of the line. A command it returns is well-formed: at
  most nine arguments, redirections with the modes the shell knows, every argument and file name a
  word of the line that cannot be extended; and after \<^verbatim>\<open>nulterminate\<close> the C string that each of them
  points to is exactly that word, so that terminating one string never cuts another.
\<close>

theorem parsecmd_well_formed:
  assumes "0 \<notin> set s"
  shows "(\<exists>msg. parsecmd s = Panic msg) \<or>
    (\<exists>c buf. parsecmd s = Ok (c, buf) \<and> wf_cmd (\<lambda>a. \<exists>w. denotes s a w \<and> read_arg (length s) buf a = w) c)"
proof -
  have p: "parses True s s (parseline (4 * length s + 4) s)" 
    using parse_parses [of s "4 * length s + 4", THEN conjunct1, rule_format, OF suffix_order.refl] by simp
  show ?thesis
  proof (cases "parseline (4 * length s + 4) s")
    case (Ok x)
    obtain c ps where x: "x = (c, ps)" by fastforce
    then have wf: "wf_cmd (word_in s) c" using p Ok by simp
    have "wf_cmd (\<lambda>a. \<exists>w. denotes s a w \<and> read_arg (length s) (nulterminate (length s) c (s @ [0])) a = w) c"
      by (rule wf_cmd_mono [OF wf]) (use read_arg_word [OF wf assms] in blast)
    then show ?thesis using Ok x by (auto simp: parsecmd_def split: prod.splits)
  qed (use p in \<open>auto simp: parses_def settled_def parsecmd_def\<close>)
qed

theorem parsecmd_well_formed_witness:
  "(\<exists>msg. parsecmd (bytes_of ''ls <x | (wc ;a) &'') = Panic msg) \<or>
   (\<exists>c buf. parsecmd (bytes_of ''ls <x | (wc ;a) &'') = Ok (c, buf) \<and> map_cmd (read_arg 17 buf) c = map_cmd bytes_of
      (Back (Pipe (Redir (Exec [''ls'']) ''x'' O_RDONLY 0) (List (Exec [''wc'']) (Exec [''a''])))))"
proof -
  have "0 \<notin> set (bytes_of ''ls <x | (wc ;a) &'')" by code_simp
  note parsecmd_well_formed [OF this]
  moreover have "case parsecmd (bytes_of ''ls <x | (wc ;a) &'') of Ok (c, buf) \<Rightarrow> map_cmd (read_arg 17 buf) c = map_cmd bytes_of
      (Back (Pipe (Redir (Exec [''ls'']) ''x'' O_RDONLY 0) (List (Exec [''wc'']) (Exec [''a''])))) | _ \<Rightarrow> False" by code_simp
  ultimately show ?thesis by (auto split: res.splits prod.splits)
qed

end
