(* ===== verification/Sh_Text.thy ===== *)
theory Sh_Text
  imports Sh
begin

section \<open>Printing and parsing\<close>

definition word_ok :: "uchar list \<Rightarrow> bool" where
  "word_ok w \<longleftrightarrow> w \<noteq> [] \<and> (\<forall>c\<in>set w. is_word c) \<and> 0 \<notin> set w"

text \<open>Commands as text: a simple command and its redirections stand as they are, other parts of a
  command in parentheses.\<close>

fun simple :: "'p cmd \<Rightarrow> bool" where
  "simple (Exec as) = True"
| "simple (Redir c f m d) = True"
| "simple c = False"

definition grouped :: "'p cmd \<Rightarrow> uchar list \<Rightarrow> uchar list" where
  "grouped c t = (if simple c then t else [ch (CHR ''('')] @ t @ [ch (CHR '')'')])"

definition show_redir :: "int \<Rightarrow> uchar list \<Rightarrow> uchar list" where
  "show_redir d f = [if d = 0 then ch (CHR ''<'') else ch (CHR ''>'')] @ f @ [32]"

primrec show_cmd :: "uchar list cmd \<Rightarrow> uchar list" where
  "show_cmd (Exec ws) = concat (map (\<lambda>w. w @ [32]) ws)"
| "show_cmd (Redir c f m d) = grouped c (show_cmd c) @ show_redir d f"
| "show_cmd (Pipe l r) = grouped l (show_cmd l) @ [ch (CHR ''|'')] @ grouped r (show_cmd r)"
| "show_cmd (List l r) = grouped l (show_cmd l) @ [ch (CHR '';'')] @ grouped r (show_cmd r)"
| "show_cmd (Back c) = grouped c (show_cmd c) @ [ch (CHR ''&'')]"

lemma skip_white_word: "word_ok w \<Longrightarrow> skip_white (w @ s) = w @ s"
  by (cases w) (auto simp: word_ok_def is_word_def skip_white_def)

lemma skip_white_simps [simp]: "skip_white [] = []" "skip_white (32 # s) = skip_white s" "c \<notin> set whitespace \<Longrightarrow> skip_white (c # s) = c # s"
  by (simp_all add: skip_white_def whitespace_def)

lemma gettoken_symbol:
  assumes "c \<in> set (bytes_of ''|();&<'')"
  shows "gettoken (c # s) = (c, (Suc (length s), length s), skip_white s)"
proof -
  have "c \<notin> set whitespace" using assms by (auto simp: whitespace_def bytes_of_def)
  then show ?thesis using assms by (simp add: gettoken_def scan_token_def Let_def)
qed

lemma word_head:
  assumes "word_ok w"
  obtains c u where "w = c # u" "is_word c" "c \<notin> set (bytes_of ''|();&<'')" "c \<noteq> ch (CHR ''>'')" "c \<notin> set whitespace"
  using assms by (cases w) (auto simp: word_ok_def is_word_def symbols_def bytes_of_def)

lemma gettoken_word_space:
  assumes "word_ok w"
  shows "gettoken (w @ 32 # s) = (ch (CHR ''a''), (length (w @ 32 # s), length (32 # s)), skip_white s)"
    and "denotes (w @ 32 # s) (length (w @ 32 # s), length (32 # s)) w"
proof -
  have 32: "\<not> is_word 32" by (simp add: is_word_def whitespace_def)
  obtain c u where c: "w = c # u" "is_word c" "c \<notin> set (bytes_of ''|();&<'')" "c \<noteq> ch (CHR ''>'')" using word_head [OF assms] .
  have "dropWhile is_word (w @ 32 # s) = 32 # s" using assms 32 by (simp add: word_ok_def dropWhile_append)
  then have "scan_token (w @ 32 # s) = (ch (CHR ''a''), 32 # s)" using c by (simp add: scan_token_def)
  then show "gettoken (w @ 32 # s) = (ch (CHR ''a''), (length (w @ 32 # s), length (32 # s)), skip_white s)"
    by (simp add: gettoken_def Let_def skip_white_word [OF assms])
  show "denotes (w @ 32 # s) (length (w @ 32 # s), length (32 # s)) w"
    unfolding denotes_def
  proof (intro conjI)
    show "\<exists>pre post. w @ 32 # s = pre @ w @ post \<and> (post = [] \<or> \<not> is_word (hd post)) \<and> (length (w @ 32 # s), length (32 # s)) = (length (w @ post), length post)"
      by (rule exI [of _ "[]"], rule exI [of _ "32 # s"]) (use 32 in simp)
  qed (use assms in \<open>simp_all add: word_ok_def\<close>)
qed

lemma gettoken_greater:
  assumes "word_ok w"
  shows "gettoken (ch (CHR ''>'') # w @ s) = (ch (CHR ''>''), (Suc (length (w @ s)), length (w @ s)), w @ s)"
proof -
  obtain c u where c: "w = c # u" "c \<noteq> ch (CHR ''>'')" using word_head [OF assms] .
  have "ch (CHR ''>'') \<notin> set whitespace" "ch (CHR ''>'') \<notin> set (bytes_of ''|();&<'')" by (simp_all add: whitespace_def bytes_of_def)
  then show ?thesis using c skip_white_word [OF assms, of s] by (simp add: gettoken_def scan_token_def Let_def)
qed

text \<open>What may follow a part of a command.\<close>

definition stops :: "uchar list \<Rightarrow> bool" where
  "stops s \<longleftrightarrow> s = [] \<or> hd s \<in> set (bytes_of ''|)&;'')"

lemma stops_white: "stops s \<Longrightarrow> skip_white s = s"
  by (cases s) (auto simp: stops_def bytes_of_def whitespace_def)

lemma peek_eq: "skip_white s = s \<Longrightarrow> peek s toks = (s \<noteq> [] \<and> hd s \<in> set toks, s)"
  by (simp add: peek_def Let_def)

lemma stops_peek: "stops s \<Longrightarrow> peek s toks = (s \<noteq> [] \<and> hd s \<in> set toks, s)"
  by (simp add: peek_eq stops_white)

definition mode_of :: "int \<Rightarrow> uint" where
  "mode_of d = (if d = 0 then O_RDONLY else O_WRONLY OR O_CREATE)"

definition redirs :: "(int \<times> uchar list) list \<Rightarrow> uchar list" where
  "redirs rs = concat (map (\<lambda>(d, f). show_redir d f) rs)"

definition redirect :: "'p cmd \<Rightarrow> (int \<times> 'p) list \<Rightarrow> 'p cmd" where
  "redirect c rs = foldl (\<lambda>c (d, f). Redir c f (mode_of d) d) c rs"

definition redirs_ok :: "(int \<times> uchar list) list \<Rightarrow> bool" where
  "redirs_ok rs \<longleftrightarrow> (\<forall>(d, f)\<in>set rs. (d = 0 \<or> d = 1) \<and> word_ok f)"

lemma redirs_white: "redirs_ok rs \<Longrightarrow> stops rest \<Longrightarrow> skip_white (redirs rs @ rest) = redirs rs @ rest"
  by (cases rs) (auto simp: redirs_def show_redir_def stops_white whitespace_def split: prod.splits)

lemma parseredirs_text:
  assumes "redirs_ok rs" and "stops rest" and "suffix (redirs rs @ rest) s" and "rel_cmd (denotes s) c' c"
  shows "\<exists>d'. parseredirs c' (redirs rs @ rest) = Ok (d', rest) \<and> rel_cmd (denotes s) d' (redirect c rs)"
  using assms
proof (induction rs arbitrary: c' c)
  case Nil
  have "parseredirs c' rest = Ok (c', rest)"
    using stops_peek [OF Nil(2), of "bytes_of ''<>''"] Nil(2) by (auto simp: parseredirs.simps [of c' rest] stops_def bytes_of_def)
  then show ?case using Nil by (simp add: redirs_def redirect_def)
next
  case (Cons r rs)
  obtain d f where r: "r = (d, f)" by fastforce
  have ok: "d = 0 \<or> d = 1" "word_ok f" "redirs_ok rs" using Cons.prems(1) r by (auto simp: redirs_ok_def)
  let ?more = "redirs rs @ rest" and ?x = "if d = 0 then ch (CHR ''<'') else ch (CHR ''>'')"
  let ?a = "(length (f @ 32 # ?more), length (32 # ?more))"
  have shown: "redirs (r # rs) @ rest = ?x # f @ 32 # ?more" by (simp add: redirs_def show_redir_def r)
  have p: "peek (?x # f @ 32 # ?more) (bytes_of ''<>'') = (True, ?x # f @ 32 # ?more)" by (simp add: peek_def Let_def bytes_of_def whitespace_def)
  have g1: "\<exists>q. gettoken (?x # f @ 32 # ?more) = (?x, q, f @ 32 # ?more)"
    using gettoken_symbol [of "ch (CHR ''<'')" "f @ 32 # ?more"] gettoken_greater [OF ok(2)] skip_white_word [OF ok(2)] by (simp add: bytes_of_def)
  note g2 = gettoken_word_space [OF ok(2), of ?more]
  have w: "skip_white ?more = ?more" by (rule redirs_white [OF ok(3) Cons.prems(2)])
  have step: "parseredirs c' (redirs (r # rs) @ rest) = parseredirs (Redir c' ?a (mode_of d) d) ?more"
    using p g1 g2(1) w ok(1) unfolding shown by (subst parseredirs.simps) (auto simp: mode_of_def)
  have suf: "suffix (f @ 32 # ?more) s" "suffix ?more s" using Cons.prems(3) unfolding shown by (auto simp: suffix_def)
  have "rel_cmd (denotes s) (Redir c' ?a (mode_of d) d) (Redir c f (mode_of d) d)"
    using Cons.prems(4) denotes_suffix [OF suf(1) g2(2)] by simp
  from Cons.IH [OF ok(3) Cons.prems(2) suf(2) this] show ?case unfolding step by (simp add: r redirect_def)
qed

lemma peek_word:
  assumes "word_ok w" and "set toks \<subseteq> set symbols"
  shows "peek (w @ s) toks = (False, w @ s)"
proof -
  obtain c u where c: "w = c # u" "is_word c" using word_head [OF assms(1)] .
  then have "c \<notin> set toks" using assms(2) by (auto simp: is_word_def)
  then show ?thesis using peek_eq [OF skip_white_word [OF assms(1)], of s toks] c(1) by simp
qed

lemma toks_symbols: "set (bytes_of ''<>'') \<subseteq> set symbols" "set (bytes_of ''|)&;'') \<subseteq> set symbols" "set (bytes_of ''('') \<subseteq> set symbols"
  by (simp_all add: symbols_def bytes_of_def)

lemma parseredirs_word: "word_ok w \<Longrightarrow> parseredirs c (w @ s) = Ok (c, w @ s)"
  using peek_word [OF _ toks_symbols(1), of w s] by (subst parseredirs.simps) simp

lemma parse_args_end:
  assumes "stops rest"
  shows "parse_args n ret rest = Ok (ret, rest)"
proof (cases rest)
  case Nil
  have "gettoken [] = (0, (0, 0), [])" by (simp add: gettoken_def scan_token_def)
  then show ?thesis using Nil stops_peek [OF assms, of "bytes_of ''|)&;''"] by (simp add: parse_args.simps [of n ret])
next
  case (Cons c u)
  then have "c \<in> set (bytes_of ''|)&;'')" using assms by (simp add: stops_def)
  then show ?thesis using Cons stops_peek [OF assms, of "bytes_of ''|)&;''"] by (simp add: parse_args.simps [of n ret])
qed

abbreviation "words ws \<equiv> concat (map (\<lambda>w. w @ [32 :: uchar]) ws)"

lemma parse_args_text:
  assumes "ws \<noteq> []" and "\<forall>w\<in>set ws. word_ok w" and "redirs_ok rs" and "stops rest" and "suffix (words ws @ redirs rs @ rest) s"
    and "list_all2 (denotes s) as vs" and "length (vs @ ws) < MAXARGS"
  shows "\<exists>c'. parse_args (length as) (Exec as) (words ws @ redirs rs @ rest) = Ok (c', rest) \<and> rel_cmd (denotes s) c' (redirect (Exec (vs @ ws)) rs)"
  using assms
proof (induction ws arbitrary: as vs)
  case (Cons w ws)
  let ?more = "words ws @ redirs rs @ rest"
  let ?a = "(length (w @ 32 # ?more), length (32 # ?more))"
  have w: "word_ok w" using Cons.prems(2) by simp
  have shown: "words (w # ws) @ redirs rs @ rest = w @ 32 # ?more" by simp
  note g = gettoken_word_space [OF w, of ?more]
  have suf: "suffix (w @ 32 # ?more) s" "suffix ?more s" "suffix (redirs rs @ rest) s" using Cons.prems(5) unfolding shown by (auto simp: suffix_def)
  have all: "list_all2 (denotes s) (as @ [?a]) (vs @ [w])"
    using Cons.prems(6) denotes_suffix [OF suf(1) g(2)] by (simp add: list_all2_appendI)
  have len: "length as = length vs" using Cons.prems(6) by (rule list_all2_lengthD)
  have step: "parse_args (length as) (Exec as) (words (w # ws) @ redirs rs @ rest) =
      (case parseredirs (Exec (as @ [?a])) (skip_white ?more) of Ok (ret, ps2) \<Rightarrow> parse_args (length as + 1) ret ps2 | Panic m \<Rightarrow> Panic m | _ \<Rightarrow> Undef)"
    unfolding shown by (subst parse_args.simps) (use peek_word [OF w toks_symbols(2)] g(1) Cons.prems(7) len in simp)
  show ?case
  proof (cases ws)
    case Nil
    have wh: "skip_white ?more = redirs rs @ rest" using redirs_white [OF Cons.prems(3,4)] Nil by simp
    have "rel_cmd (denotes s) (Exec (as @ [?a])) (Exec (vs @ [w]))" using all by simp
    from parseredirs_text [OF Cons.prems(3,4) suf(3) this] obtain d' where
      d': "parseredirs (Exec (as @ [?a])) (redirs rs @ rest) = Ok (d', rest)" "rel_cmd (denotes s) d' (redirect (Exec (vs @ [w])) rs)" by blast
    have "parse_args (length as) (Exec as) (words (w # ws) @ redirs rs @ rest) = Ok (d', rest)"
      unfolding step wh d'(1) using parse_args_end [OF Cons.prems(4)] by simp
    then show ?thesis using d'(2) Nil by auto
  next
    case (Cons w2 ws')
    have w2: "word_ok w2" using Cons.prems(2) Cons by simp
    have more: "?more = w2 @ 32 # words ws' @ redirs rs @ rest" using Cons by simp
    have wh: "skip_white ?more = ?more" unfolding more by (rule skip_white_word [OF w2])
    have "parse_args (length as) (Exec as) (words (w # ws) @ redirs rs @ rest) = parse_args (length (as @ [?a])) (Exec (as @ [?a])) ?more"
      unfolding step wh unfolding more parseredirs_word [OF w2] by simp
    then show ?thesis using Cons.IH [OF _ _ Cons.prems(3,4) suf(2) all] Cons.prems(2,7) Cons by simp
  qed
qed simp

lemma peek_skip: "peek (skip_white s) toks = peek s toks"
  by (simp add: peek_def)

lemma parse_skip: "parseexec n (skip_white s) = parseexec n s" "parsepipe n (skip_white s) = parsepipe n s" "parseline n (skip_white s) = parseline n s"
proof -
  show e: "parseexec n (skip_white s) = parseexec n s" for n by (cases n) (simp_all only: parseexec.simps peek_skip)
  show p: "parsepipe n (skip_white s) = parsepipe n s" for n by (cases n) (simp_all only: parsepipe.simps e)
  show "parseline n (skip_white s) = parseline n s" by (cases n) (simp_all only: parseline.simps p)
qed

text \<open>How the text of a command, with redirections behind it, is parsed.\<close>

definition exec_text :: "uchar list cmd \<Rightarrow> bool" where
  "exec_text c \<longleftrightarrow> (\<forall>rs rest s n. redirs_ok rs \<and> stops rest \<and> suffix (grouped c (show_cmd c) @ redirs rs @ rest) s \<and>
     4 * length (grouped c (show_cmd c) @ redirs rs @ rest) + 2 \<le> n \<longrightarrow>
     (\<exists>c'. parseexec n (grouped c (show_cmd c) @ redirs rs @ rest) = Ok (c', rest) \<and> rel_cmd (denotes s) c' (redirect c rs)))"

definition line_text :: "uchar list cmd \<Rightarrow> bool" where
  "line_text c \<longleftrightarrow> (\<forall>rest s n. (rest = [] \<or> hd rest = ch (CHR '')'')) \<and> suffix (show_cmd c @ rest) s \<and>
     4 * length (show_cmd c @ rest) + 4 \<le> n \<longrightarrow>
     (\<exists>c'. parseline n (show_cmd c @ rest) = Ok (c', rest) \<and> rel_cmd (denotes s) c' c))"

lemma exec_text_Exec:
  assumes "wf_cmd word_ok (Exec ws)"
  shows "exec_text (Exec ws)"
  unfolding exec_text_def
proof (intro allI impI, elim conjE)
  fix rs rest s n
  assume ok: "redirs_ok rs" "stops rest" and suf: "suffix (grouped (Exec ws) (show_cmd (Exec ws)) @ redirs rs @ rest) s"
    and n: "4 * length (grouped (Exec ws) (show_cmd (Exec ws)) @ redirs rs @ rest) + 2 \<le> n"
  have g: "grouped (Exec ws) (show_cmd (Exec ws)) = words ws" by (simp add: grouped_def)
  obtain m where m: "n = Suc m" using n by (cases n) auto
  have wsok: "\<forall>w\<in>set ws. word_ok w" "length ws < MAXARGS" using assms by auto
  show "\<exists>c'. parseexec n (grouped (Exec ws) (show_cmd (Exec ws)) @ redirs rs @ rest) = Ok (c', rest) \<and> rel_cmd (denotes s) c' (redirect (Exec ws) rs)"
  proof (cases ws)
    case Nil
    have p: "peek (redirs rs @ rest) (bytes_of ''('') = (False, redirs rs @ rest)"
      using redirs_white [OF ok] ok(2) by (cases rs) (auto simp: peek_eq redirs_def show_redir_def stops_def bytes_of_def split: prod.splits)
    have "rel_cmd (denotes s) (Exec []) (Exec [])" by simp
    moreover have "suffix (redirs rs @ rest) s" using suf Nil by (simp add: grouped_def)
    ultimately obtain d' where d': "parseredirs (Exec []) (redirs rs @ rest) = Ok (d', rest)" "rel_cmd (denotes s) d' (redirect (Exec []) rs)"
      using parseredirs_text [OF ok] by blast
    have "parseexec n (redirs rs @ rest) = Ok (d', rest)" unfolding m parseexec.simps p prod.case using d'(1) parse_args_end [OF ok(2)] by simp
    then show ?thesis using d'(2) Nil by (simp add: grouped_def)
  next
    case (Cons w ws')
    have w: "word_ok w" using wsok(1) Cons by simp
    let ?t = "words ws @ redirs rs @ rest"
    have t: "?t = w @ 32 # words ws' @ redirs rs @ rest" using Cons by simp
    have p: "peek ?t (bytes_of ''('') = (False, ?t)" unfolding t by (rule peek_word [OF w toks_symbols(3)])
    have r: "parseredirs (Exec []) ?t = Ok (Exec [], ?t)" unfolding t by (rule parseredirs_word [OF w])
    have "parseexec n ?t = parse_args (length ([] :: span list)) (Exec []) ?t" unfolding m parseexec.simps p prod.case using r by simp
    then show ?thesis using parse_args_text [of ws rs rest s "[]" "[]"] wsok ok suf Cons unfolding g by simp
  qed
qed

lemma exec_text_Redir:
  assumes "wf_cmd word_ok (Redir c f m d)" and "exec_text c"
  shows "exec_text (Redir c f m d)"
  unfolding exec_text_def
proof (intro allI impI, elim conjE)
  fix rs rest s n
  assume ok: "redirs_ok rs" "stops rest" and suf: "suffix (grouped (Redir c f m d) (show_cmd (Redir c f m d)) @ redirs rs @ rest) s"
    and n: "4 * length (grouped (Redir c f m d) (show_cmd (Redir c f m d)) @ redirs rs @ rest) + 2 \<le> n"
  have e: "grouped (Redir c f m d) (show_cmd (Redir c f m d)) @ redirs rs @ rest = grouped c (show_cmd c) @ redirs ((d, f) # rs) @ rest"
    by (simp add: grouped_def redirs_def)
  have md: "m = mode_of d" "redirs_ok ((d, f) # rs)" using assms(1) ok(1) by (auto simp: mode_of_def redirs_ok_def)
  have "redirect c ((d, f) # rs) = redirect (Redir c f m d) rs" by (simp add: redirect_def md(1))
  then show "\<exists>c'. parseexec n (grouped (Redir c f m d) (show_cmd (Redir c f m d)) @ redirs rs @ rest) = Ok (c', rest) \<and>
      rel_cmd (denotes s) c' (redirect (Redir c f m d) rs)"
    using assms(2) md(2) ok(2) suf n unfolding e exec_text_def by metis
qed

lemma exec_text_block:
  assumes "\<not> simple c" and "line_text c"
  shows "exec_text c"
  unfolding exec_text_def
proof (intro allI impI, elim conjE)
  fix rs rest s n
  let ?o = "ch (CHR ''('')" and ?e = "ch (CHR '')'')"
  let ?tail = "?e # redirs rs @ rest"
  let ?t = "?o # show_cmd c @ ?tail"
  assume ok: "redirs_ok rs" "stops rest" and suf: "suffix (grouped c (show_cmd c) @ redirs rs @ rest) s"
    and n: "4 * length (grouped c (show_cmd c) @ redirs rs @ rest) + 2 \<le> n"
  have shown: "grouped c (show_cmd c) @ redirs rs @ rest = ?t" using assms(1) by (simp add: grouped_def)
  obtain k where k: "n = Suc (Suc k)" "4 * length (show_cmd c @ ?tail) + 4 \<le> k" using n unfolding shown by (cases n; cases "n - 1") auto
  have sufs: "suffix (show_cmd c @ ?tail) s" "suffix (redirs rs @ rest) s" using suf unfolding shown by (auto simp: suffix_def)
  have p: "peek ?t (bytes_of ''('') = (True, ?t)" "peek ?tail (bytes_of '')'') = (True, ?tail)" by (simp_all add: peek_def bytes_of_def whitespace_def)
  have g: "gettoken ?t = (?o, (Suc (length (show_cmd c @ ?tail)), length (show_cmd c @ ?tail)), skip_white (show_cmd c @ ?tail))"
    "gettoken ?tail = (?e, (Suc (length (redirs rs @ rest)), length (redirs rs @ rest)), redirs rs @ rest)"
    using gettoken_symbol [of ?o "show_cmd c @ ?tail"] gettoken_symbol [of ?e "redirs rs @ rest"] redirs_white [OF ok] by (simp_all add: bytes_of_def)
  obtain c' where c': "parseline k (show_cmd c @ ?tail) = Ok (c', ?tail)" "rel_cmd (denotes s) c' c"
    using assms(2) sufs(1) k(2) unfolding line_text_def by (metis list.sel(1))
  obtain d' where d': "parseredirs c' (redirs rs @ rest) = Ok (d', rest)" "rel_cmd (denotes s) d' (redirect c rs)"
    using parseredirs_text [OF ok sufs(2) c'(2)] by blast
  have "parseexec n ?t = Ok (d', rest)"
    unfolding k(1) parseexec.simps p(1) prod.case if_True parseblock.simps g(1) parse_skip(3) c'(1) rbind.simps p(2) g(2) using d'(1) by simp
  then show "\<exists>c'. parseexec n (grouped c (show_cmd c) @ redirs rs @ rest) = Ok (c', rest) \<and> rel_cmd (denotes s) c' (redirect c rs)"
    using d'(2) unfolding shown by blast
qed

lemma exec_textD:
  assumes "exec_text c" and "stops rest" and "suffix (grouped c (show_cmd c) @ rest) s" and "4 * length (grouped c (show_cmd c) @ rest) + 2 \<le> n"
  obtains c' where "parseexec n (grouped c (show_cmd c) @ rest) = Ok (c', rest)" "rel_cmd (denotes s) c' c"
  using assms(1) [unfolded exec_text_def, rule_format, of "[]" rest s n] assms(2-4) that by (auto simp: redirs_ok_def redirs_def redirect_def)

lemma pipe_one:
  assumes "exec_text c" and "stops rest" and "rest = [] \<or> hd rest \<noteq> ch (CHR ''|'')" and "suffix (grouped c (show_cmd c) @ rest) s"
    and "4 * length (grouped c (show_cmd c) @ rest) + 3 \<le> n"
  obtains c' where "parsepipe n (grouped c (show_cmd c) @ rest) = Ok (c', rest)" "rel_cmd (denotes s) c' c"
proof -
  obtain m where m: "n = Suc m" "4 * length (grouped c (show_cmd c) @ rest) + 2 \<le> m" using assms(5) by (cases n) auto
  obtain c' where c': "parseexec m (grouped c (show_cmd c) @ rest) = Ok (c', rest)" "rel_cmd (denotes s) c' c"
    using exec_textD [OF assms(1,2,4) m(2)] .
  have "peek rest (bytes_of ''|'') = (False, rest)" using stops_peek [OF assms(2), of "bytes_of ''|''"] assms(3) by (auto simp: bytes_of_def)
  then have "parsepipe n (grouped c (show_cmd c) @ rest) = Ok (c', rest)" unfolding m(1) parsepipe.simps c'(1) by simp
  then show thesis using c'(2) that by blast
qed

lemma pipe_two:
  assumes "exec_text l" and "exec_text r" and "stops rest" and "rest = [] \<or> hd rest \<noteq> ch (CHR ''|'')"
    and "suffix (show_cmd (Pipe l r) @ rest) s" and "4 * length (show_cmd (Pipe l r) @ rest) + 3 \<le> n"
  obtains c' where "parsepipe n (show_cmd (Pipe l r) @ rest) = Ok (c', rest)" "rel_cmd (denotes s) c' (Pipe l r)"
proof -
  let ?b = "ch (CHR ''|'')" and ?r = "grouped r (show_cmd r) @ rest"
  have shown: "show_cmd (Pipe l r) @ rest = grouped l (show_cmd l) @ ?b # ?r" by simp
  obtain m where m: "n = Suc m" "4 * length (grouped l (show_cmd l) @ ?b # ?r) + 2 \<le> m" "4 * length ?r + 3 \<le> m" using assms(6) unfolding shown by (cases n) auto
  have suf: "suffix (grouped l (show_cmd l) @ ?b # ?r) s" "suffix ?r s" using assms(5) unfolding shown by (auto simp: suffix_def)
  have st: "stops (?b # ?r)" by (simp add: stops_def bytes_of_def)
  obtain l' where l': "parseexec m (grouped l (show_cmd l) @ ?b # ?r) = Ok (l', ?b # ?r)" "rel_cmd (denotes s) l' l"
    using exec_textD [OF assms(1) st suf(1) m(2)] .
  obtain r' where r': "parsepipe m ?r = Ok (r', rest)" "rel_cmd (denotes s) r' r" using pipe_one [OF assms(2-4) suf(2) m(3)] .
  have p: "peek (?b # ?r) (bytes_of ''|'') = (True, ?b # ?r)" using stops_peek [OF st] by (simp add: bytes_of_def)
  have "parsepipe n (show_cmd (Pipe l r) @ rest) = Ok (Pipe l' r', rest)"
    unfolding shown m(1) parsepipe.simps l'(1) using gettoken_symbol [of ?b ?r] p r'(1) by (simp add: bytes_of_def parse_skip)
  then show thesis using l'(2) r'(2) that by simp
qed

text \<open>The end of a line, or of the line inside a block.\<close>

lemma closing:
  assumes "rest = [] \<or> hd rest = ch (CHR '')'')"
  shows "stops rest" and "rest = [] \<or> hd rest \<noteq> ch (CHR ''|'')" and "parse_backs c rest = (c, rest)" and "peek rest (bytes_of '';'') = (False, rest)"
proof -
  show st: "stops rest" and "rest = [] \<or> hd rest \<noteq> ch (CHR ''|'')" using assms by (auto simp: stops_def bytes_of_def)
  have p: "peek rest (bytes_of toks) = (False, rest)" if "toks = ''&'' \<or> toks = '';''" for toks
    using stops_peek [OF st, of "bytes_of toks"] assms that by (auto simp: bytes_of_def)
  show "parse_backs c rest = (c, rest)" unfolding parse_backs.simps [of c rest] p [OF disjI1 [OF refl]] by simp
  show "peek rest (bytes_of '';'') = (False, rest)" by (rule p [OF disjI2 [OF refl]])
qed

lemma line_end:
  assumes "rest = [] \<or> hd rest = ch (CHR '')'')" and "parsepipe m s = Ok (c, rest)"
  shows "parseline (Suc m) s = Ok (c, rest)"
  unfolding parseline.simps assms(2) rbind.simps prod.case closing(3,4) [OF assms(1)] by simp

lemma line_one:
  assumes "exec_text c" and "rest = [] \<or> hd rest = ch (CHR '')'')" and "suffix (grouped c (show_cmd c) @ rest) s"
    and "4 * length (grouped c (show_cmd c) @ rest) + 4 \<le> n"
  obtains c' where "parseline n (grouped c (show_cmd c) @ rest) = Ok (c', rest)" "rel_cmd (denotes s) c' c"
proof -
  obtain m where m: "n = Suc m" "4 * length (grouped c (show_cmd c) @ rest) + 3 \<le> m" using assms(4) by (cases n) auto
  obtain c' where "parsepipe m (grouped c (show_cmd c) @ rest) = Ok (c', rest)" "rel_cmd (denotes s) c' c"
    using pipe_one [OF assms(1) closing(1,2) [OF assms(2)] assms(3) m(2)] .
  then show thesis using line_end [OF assms(2)] m(1) that by blast
qed

lemma line_text_simple:
  assumes "simple c" and "exec_text c"
  shows "line_text c"
  unfolding line_text_def using line_one [OF assms(2)] assms(1) by (simp add: grouped_def) metis

lemma line_text_Pipe:
  assumes "exec_text l" and "exec_text r"
  shows "line_text (Pipe l r)"
  unfolding line_text_def
proof (intro allI impI, elim conjE)
  fix rest s n
  assume rest: "rest = [] \<or> hd rest = ch (CHR '')'')" and suf: "suffix (show_cmd (Pipe l r) @ rest) s" and n: "4 * length (show_cmd (Pipe l r) @ rest) + 4 \<le> n"
  obtain m where m: "n = Suc m" "4 * length (show_cmd (Pipe l r) @ rest) + 3 \<le> m" using n by (cases n) auto
  obtain c' where "parsepipe m (show_cmd (Pipe l r) @ rest) = Ok (c', rest)" "rel_cmd (denotes s) c' (Pipe l r)"
    using pipe_two [OF assms closing(1,2) [OF rest] suf m(2)] .
  then show "\<exists>c'. parseline n (show_cmd (Pipe l r) @ rest) = Ok (c', rest) \<and> rel_cmd (denotes s) c' (Pipe l r)"
    using line_end [OF rest] m(1) by blast
qed

lemma line_text_Back:
  assumes "exec_text c"
  shows "line_text (Back c)"
  unfolding line_text_def
proof (intro allI impI, elim conjE)
  fix rest s n
  let ?a = "ch (CHR ''&'')"
  assume rest: "rest = [] \<or> hd rest = ch (CHR '')'')" and suf: "suffix (show_cmd (Back c) @ rest) s" and n: "4 * length (show_cmd (Back c) @ rest) + 4 \<le> n"
  have shown: "show_cmd (Back c) @ rest = grouped c (show_cmd c) @ ?a # rest" by simp
  obtain m where m: "n = Suc m" "4 * length (grouped c (show_cmd c) @ ?a # rest) + 3 \<le> m" using n unfolding shown by (cases n) auto
  have st: "stops (?a # rest)" "?a # rest = [] \<or> hd (?a # rest) \<noteq> ch (CHR ''|'')" by (simp_all add: stops_def bytes_of_def)
  obtain c' where c': "parsepipe m (grouped c (show_cmd c) @ ?a # rest) = Ok (c', ?a # rest)" "rel_cmd (denotes s) c' c"
    using pipe_one [OF assms st suf [unfolded shown] m(2)] .
  have p: "peek (?a # rest) (bytes_of ''&'') = (True, ?a # rest)" using stops_peek [OF st(1)] by (simp add: bytes_of_def)
  have g: "gettoken (?a # rest) = (?a, (Suc (length rest), length rest), rest)"
    using gettoken_symbol [of ?a rest] stops_white [OF closing(1) [OF rest]] by (simp add: bytes_of_def)
  have b: "parse_backs c' (?a # rest) = (Back c', rest)"
    unfolding parse_backs.simps [of c' "?a # rest"] p prod.case g using closing(3) [OF rest] by simp
  have "parseline n (show_cmd (Back c) @ rest) = Ok (Back c', rest)"
    unfolding shown m(1) parseline.simps c'(1) rbind.simps prod.case b closing(4) [OF rest] by simp
  then show "\<exists>c'. parseline n (show_cmd (Back c) @ rest) = Ok (c', rest) \<and> rel_cmd (denotes s) c' (Back c)" using c'(2) by auto
qed

lemma line_text_List:
  assumes "exec_text l" and "exec_text r"
  shows "line_text (List l r)"
  unfolding line_text_def
proof (intro allI impI, elim conjE)
  fix rest s n
  let ?b = "ch (CHR '';'')" and ?r = "grouped r (show_cmd r)"
  assume rest: "rest = [] \<or> hd rest = ch (CHR '')'')" and suf: "suffix (show_cmd (List l r) @ rest) s" and n: "4 * length (show_cmd (List l r) @ rest) + 4 \<le> n"
  have shown: "show_cmd (List l r) @ rest = grouped l (show_cmd l) @ ?b # ?r @ rest" by simp
  obtain m where m: "n = Suc m" "4 * length (grouped l (show_cmd l) @ ?b # ?r @ rest) + 3 \<le> m" "4 * length (?r @ rest) + 4 \<le> m"
    using n unfolding shown by (cases n) auto
  have sufs: "suffix (grouped l (show_cmd l) @ ?b # ?r @ rest) s" "suffix (?r @ rest) s" using suf unfolding shown by (auto simp: suffix_def)
  have st: "stops (?b # ?r @ rest)" "?b # ?r @ rest = [] \<or> hd (?b # ?r @ rest) \<noteq> ch (CHR ''|'')" by (simp_all add: stops_def bytes_of_def)
  obtain l' where l': "parsepipe m (grouped l (show_cmd l) @ ?b # ?r @ rest) = Ok (l', ?b # ?r @ rest)" "rel_cmd (denotes s) l' l"
    using pipe_one [OF assms(1) st sufs(1) m(2)] .
  obtain r' where r': "parseline m (?r @ rest) = Ok (r', rest)" "rel_cmd (denotes s) r' r" using line_one [OF assms(2) rest sufs(2) m(3)] .
  have p: "peek (?b # ?r @ rest) (bytes_of ''&'') = (False, ?b # ?r @ rest)" "peek (?b # ?r @ rest) (bytes_of '';'') = (True, ?b # ?r @ rest)"
    using stops_peek [OF st(1)] by (simp_all add: bytes_of_def)
  have b: "parse_backs l' (?b # ?r @ rest) = (l', ?b # ?r @ rest)" unfolding parse_backs.simps [of l' "?b # ?r @ rest"] p by simp
  have "parseline n (show_cmd (List l r) @ rest) = Ok (List l' r', rest)"
    unfolding shown m(1) parseline.simps l'(1) rbind.simps prod.case b p(2) using gettoken_symbol [of ?b "?r @ rest"] r'(1) by (simp add: bytes_of_def parse_skip)
  then show "\<exists>c'. parseline n (show_cmd (List l r) @ rest) = Ok (c', rest) \<and> rel_cmd (denotes s) c' (List l r)" using l'(2) r'(2) by auto
qed

lemma all_text: "wf_cmd word_ok c \<Longrightarrow> exec_text c \<and> line_text c"
proof (induction c)
  case (Exec ws)
  then have "exec_text (Exec ws)" by (rule exec_text_Exec)
  then show ?case using line_text_simple [of "Exec ws"] by simp
next
  case (Redir c f m d)
  then have "exec_text (Redir c f m d)" using exec_text_Redir by auto
  then show ?case using line_text_simple [of "Redir c f m d"] by simp
next
  case (Pipe l r)
  then have "line_text (Pipe l r)" using line_text_Pipe by simp
  then show ?case using exec_text_block [of "Pipe l r"] by simp
next
  case (List l r)
  then have "line_text (List l r)" using line_text_List by simp
  then show ?case using exec_text_block [of "List l r"] by simp
next
  case (Back c)
  then have "line_text (Back c)" using line_text_Back by simp
  then show ?case using exec_text_block [of "Back c"] by simp
qed

text \<open>
  C33. The shell understands every command that can be written. For every command tree with fewer
  than ten arguments per simple command, with words that are not empty and have no blanks and symbols, and
  with the redirections the shell knows, the shell parses the text of the command back into the
  same tree, and its pointers lead to the same words.
\<close>

theorem parsecmd_show_cmd:
  assumes "wf_cmd word_ok c"
  shows "\<exists>c' buf. parsecmd (show_cmd c) = Ok (c', buf) \<and> map_cmd (read_arg (length (show_cmd c)) buf) c' = c"
proof -
  let ?s = "show_cmd c"
  have nul: "0 \<notin> set (show_cmd d)" if "wf_cmd word_ok d" for d
    using that by (induction d) (auto simp: grouped_def show_redir_def word_ok_def)
  obtain c' where c': "parseline (4 * length ?s + 4) ?s = Ok (c', [])" "rel_cmd (denotes ?s) c' c"
    using all_text [OF assms] unfolding line_text_def by (metis append_Nil2 order_refl suffix_order.refl)
  let ?b = "nulterminate (length ?s) c' (?s @ [0])"
  have "parses True ?s ?s (parseline (4 * length ?s + 4) ?s)"
    using parse_parses [of ?s "4 * length ?s + 4", THEN conjunct1, rule_format, OF suffix_order.refl] by simp
  then have wf: "wf_cmd (word_in ?s) c'" using c'(1) by simp
  have "rel_cmd (\<lambda>a w. read_arg (length ?s) ?b a = w) c' c"
    by (rule cmd.rel_mono_strong [OF c'(2)]) (use read_arg_word [OF wf nul [OF assms]] in blast)
  then have "map_cmd (read_arg (length ?s) ?b) c' = c" unfolding cmd.rel_eq [symmetric] cmd.rel_map .
  moreover have "parsecmd ?s = Ok (c', ?b)" using c'(1) by (simp add: parsecmd_def peek_def)
  ultimately show ?thesis by blast
qed

theorem parsecmd_show_cmd_witness:
  "\<exists>c' buf. parsecmd (show_cmd (map_cmd bytes_of (Back (Pipe (Redir (Exec [''ls'', ''a'']) ''x'' O_RDONLY 0) (List (Exec [''wc'']) (Exec [])))))) = Ok (c', buf)"
proof -
  have "wf_cmd word_ok (map_cmd bytes_of (Back (Pipe (Redir (Exec [''ls'', ''a'']) ''x'' O_RDONLY 0) (List (Exec [''wc'']) (Exec [])))))"
    by code_simp
  from parsecmd_show_cmd [OF this] show ?thesis by blast
qed

end
