(* ===== verification/Spec2Isabelle.thy ===== *)
theory Spec2Isabelle
  imports Spinlock Cstring Proc_Sys Trap Mkfs Ide Grep Sh_Text
begin

text \<open>
  Verification of an xv6 kernel for x86.
\<close>

end
